(* ===== verification/Prelude.thy ===== *)
theory Prelude
  imports Main "HOL-Library.Word"
begin

unbundle bit_operations_syntax

text \<open>
  Shared vocabulary of the development: the machine types of the C++ sources as words, the
  truncating division of C++, the collections of simplification rules the component theories
  extend, and generic facts on lists, words and binary numbers.

  \<^item> \<open>u8\<close>, \<open>u16\<close>, \<open>u32\<close>, \<open>u64\<close> are \<open>uint8_t\<close> to \<open>uint64_t\<close>; a byte vector
    (\<open>std::vector<unsigned char>\<close>, \<open>uint256\<close>, \<open>CScript\<close>) is a list of \<open>u8\<close>.
  \<^item> \<open>int64_of\<close> and \<open>u64_of\<close> are the conversions between \<open>int64_t\<close> and \<open>uint64_t\<close>.
  \<^item> \<open>cdiv\<close> and \<open>cmod\<close> are the C++ operators \<open>/\<close> and \<open>%\<close> on signed integers, which
    truncate towards zero.
\<close>

type_synonym u8 = "8 word"
type_synonym u16 = "16 word"
type_synonym u32 = "32 word"
type_synonym u64 = "64 word"
type_synonym bytes = "u8 list"

named_theorems model_defs "definitions of the model, for evaluation of closed terms"
named_theorems refine "facts that relate an operation to its abstract meaning"

section \<open>Failures\<close>

text \<open>
  A failed \<open>assert\<close> ends the process; \<open>uint_error\<close> is the exception of the big integers; reading through a
  null or dangling pointer, which is undefined in C++, is a failure of its own; \<open>Thrown\<close> is any other exception
  that leaves an operation, with its message. A fallible operation returns a sum whose left values are failures.
\<close>

datatype failure = AssertionFailed | UintError | BadPointer | Thrown string

definition and_then :: "'e + 'a \<Rightarrow> ('a \<Rightarrow> 'e + 'b) \<Rightarrow> 'e + 'b" where
  "and_then r f = (case r of Inl e \<Rightarrow> Inl e | Inr x \<Rightarrow> f x)"

definition cassert :: "bool \<Rightarrow> failure + unit" where
  "cassert b = (if b then Inr () else Inl AssertionFailed)"

lemma and_then_simps [simp]:
  "and_then (Inl e) f = Inl e"
  "and_then (Inr x) f = f x"
  by (simp_all add: and_then_def)

lemma and_then_eq_Inr [simp]:
  "and_then r f = Inr y \<longleftrightarrow> (\<exists>x. r = Inr x \<and> f x = Inr y)"
  by (simp add: and_then_def split: sum.split)

lemma cassert_simps [simp]:
  "cassert True = Inr ()"
  "cassert b = Inr u \<longleftrightarrow> b"
  by (simp_all add: cassert_def)

section \<open>Signed integers\<close>

definition cdiv :: "int \<Rightarrow> int \<Rightarrow> int" where
  "cdiv a b = sgn a * sgn b * (\<bar>a\<bar> div \<bar>b\<bar>)"

definition cmod :: "int \<Rightarrow> int \<Rightarrow> int" where
  "cmod a b = a - b * cdiv a b"

abbreviation int64_of :: "u64 \<Rightarrow> int" where
  "int64_of w \<equiv> sint w"

abbreviation u64_of :: "int \<Rightarrow> u64" where
  "u64_of i \<equiv> word_of_int i"

definition in_int64 :: "int \<Rightarrow> bool" where
  "in_int64 i \<longleftrightarrow> - (2 ^ 63) \<le> i \<and> i < 2 ^ 63"

lemma cdiv_nonneg [simp]: "0 \<le> a \<Longrightarrow> 0 < b \<Longrightarrow> cdiv a b = a div b"
  by (cases "a = 0") (auto simp: cdiv_def sgn_if)

lemma cdiv_neg: "a < 0 \<Longrightarrow> 0 < b \<Longrightarrow> cdiv a b = - ((- a) div b)"
  by (simp add: cdiv_def sgn_if)

lemma int64_of_u64_of [simp]: "in_int64 i \<Longrightarrow> int64_of (u64_of i) = i"
  by (simp add: in_int64_def sint_word_ariths sint_sbintrunc' signed_take_bit_int_eq_self)

section \<open>Words, binary numbers and lists\<close>

lemma unat_u32_less: "unat (p :: u32) < 2 ^ 32"
  using unsigned_less [of p] by simp

lemma unat_u32_less_numeral: "unat (p :: u32) < 4294967296"
  using unsigned_less [of p] by simp

lemma unat_drop_bit_div: "unat (drop_bit k n) = unat n div 2 ^ k"
  by (subst unat_drop_bit_eq) (rule drop_bit_eq_div)

lemma unat_take_bit_mod: "unat (take_bit k n) = unat n mod 2 ^ k"
  by (subst unsigned_take_bit_eq) (rule take_bit_eq_mod)

lemma low32: "unat (ucast (n AND 0xffffffff :: u64) :: u32) = unat n mod 2 ^ 32"
proof -
  have m: "(0xffffffff :: u64) = mask 32"
    by (simp add: mask_eq_exp_minus_1)
  show ?thesis
    unfolding m by (subst unsigned_ucast_eq, subst take_bit_eq_mask [symmetric],
        subst unsigned_take_bit_eq) (simp add: take_bit_eq_mod)
qed

lemmas high32 = unat_drop_bit_div [where k = 32]

lemma unat_ucast_32_64 [simp]: "unat (ucast (p :: u32) :: u64) = unat p"
  by (simp add: unsigned_ucast_eq take_bit_nat_eq_self_iff order.strict_trans [OF unat_u32_less])

lemma limb_carry:
  "x mod B + B * ((x div B + y) mod m) = (x + B * y) mod (B * m)" for x y m B :: nat
proof (cases "B = 0")
  case False
  then show ?thesis
    using mod_mult2_eq [of "x + B * y" B m] by (simp add: add.commute)
qed simp

lemma unat_minus_1_u32 [simp]: "unat (- 1 :: u32) = 2 ^ 32 - 1"
  by (simp add: unsigned_minus_1_eq_mask mask_eq_exp_minus_1)

lemma unat_not_u32: "unat (NOT (p :: u32)) = 2 ^ 32 - 1 - unat p"
proof -
  have "NOT p = - 1 - p" by (simp add: not_eq_complement)
  moreover have "p \<le> - 1" by (rule word_order.extremum)
  ultimately show ?thesis by (simp only: unat_sub unat_minus_1_u32)
qed

lemma bit_word_ge: "n \<ge> LENGTH('a) \<Longrightarrow> \<not> bit (w :: 'a::len word) n"
  using bit_imp_le_length by fastforce

lemma digit_less_mono:
  fixes x y p q B :: nat
  assumes "x < B" "p < q"
  shows "x + B * p < y + B * q"
proof -
  have "x + B * p < B * (p + 1)" using assms(1) by simp
  also have "\<dots> \<le> B * q" using assms(2) by (intro mult_le_mono) auto
  finally show ?thesis by simp
qed

lemma bit_nat_ge: "bit (n :: nat) k \<Longrightarrow> 2 ^ k \<le> n"
  by (metis bit_iff_odd div_less even_zero not_less)

lemma not_bit_nat_less: "\<not> bit (n :: nat) k \<Longrightarrow> n < 2 ^ Suc k \<Longrightarrow> n < 2 ^ k"
proof (rule ccontr)
  assume nb: "\<not> bit n k" and n: "n < 2 ^ Suc k" and "\<not> n < 2 ^ k"
  then have "n div 2 ^ k < 2" and "0 < n div 2 ^ k"
    by (simp_all add: less_mult_imp_div_less div_greater_zero_iff mult.commute)
  then have "n div 2 ^ k = 1" by simp
  with nb show False by (simp add: bit_iff_odd)
qed

lemma not_bit_multiple: "2 ^ Suc s dvd (n :: nat) \<Longrightarrow> \<not> bit n s"
  by (auto simp: bit_iff_odd elim!: dvdE)

lemma pow_256: "(2::nat) ^ (8 * k) = 256 ^ k"
  by (simp add: power_mult)

lemma pow256_unique:
  fixes v :: nat
  assumes "256 ^ (n - 1) \<le> v" "v < 256 ^ n" "256 ^ (k - 1) \<le> v" "v < 256 ^ k" "0 < n" "0 < k"
  shows "n = k"
proof -
  have "(256::nat) ^ (n - 1) < 256 ^ k" "(256::nat) ^ (k - 1) < 256 ^ n" using assms by linarith+
  then have "n - 1 < k" "k - 1 < n" by (simp_all add: power_less_imp_less_exp)
  then show ?thesis using assms by linarith
qed

lemma bit_u8_ge: "8 \<le> n \<Longrightarrow> \<not> bit (b :: u8) n"
  by (rule bit_word_ge) simp

lemma length_foldl_step:
  "(\<And>r n. length (f r n) = length r) \<Longrightarrow> length (foldl f r ns) = length r"
  by (induction ns arbitrary: r) simp_all

lemma drop_concat_chunks:
  assumes "\<And>x. length (f x) = k"
  shows "drop (n * k) (concat (map f xs)) = concat (map f (drop n xs))"
proof (induction xs arbitrary: n)
  case (Cons x xs)
  show ?case
  proof (cases n)
    case (Suc m)
    then show ?thesis using Cons assms by (simp add: drop_append)
  qed simp
qed simp

lemma concat_chunks: "concat (map (\<lambda>x. take k (drop (x * k) bs)) [0 ..< n]) = take (n * k) bs"
proof (induction n)
  case (Suc n)
  have "take (Suc n * k) bs = take (n * k + k) bs" by (simp add: add.commute)
  also have "\<dots> = take (n * k) bs @ take k (drop (n * k) bs)" by (rule take_add)
  finally show ?case using Suc by simp
qed simp

end
