(* ===== verification/UintSpec.thy ===== *)
theory UintSpec
  imports Prelude
begin

text \<open>
  The contract that the proof-of-work code relies on when it computes with big integers: a type
  with a value below \<open>2 ^ width\<close>, literals from \<open>uint64_t\<close>, complement, wrapping addition,
  subtraction and multiplication, a division that fails on zero, and a three-way comparison. The
  lemmas of the locale are the arithmetic idioms of \<^verbatim>\<open>pow.cpp\<close>, proved from the contract alone.
\<close>

locale wrapping_uint =
  fixes wf :: "'u \<Rightarrow> bool"
    and val :: "'u \<Rightarrow> nat"
    and width :: nat
    and lit :: "u64 \<Rightarrow> 'u"
    and compl :: "'u \<Rightarrow> 'u"
    and add :: "'u \<Rightarrow> 'u \<Rightarrow> 'u"
    and sub :: "'u \<Rightarrow> 'u \<Rightarrow> 'u"
    and mul :: "'u \<Rightarrow> 'u \<Rightarrow> 'u"
    and quot :: "'u \<Rightarrow> 'u \<Rightarrow> failure + 'u"
    and cmp :: "'u \<Rightarrow> 'u \<Rightarrow> int"
  assumes width_ge: "64 \<le> width"
    and val_less: "wf a \<Longrightarrow> val a < 2 ^ width"
    and wf_lit: "wf (lit n)"
    and val_lit: "val (lit n) = unat n"
    and wf_compl: "wf a \<Longrightarrow> wf (compl a)"
    and val_compl: "wf a \<Longrightarrow> val (compl a) = 2 ^ width - 1 - val a"
    and wf_add: "wf a \<Longrightarrow> wf b \<Longrightarrow> wf (add a b)"
    and val_add: "wf a \<Longrightarrow> wf b \<Longrightarrow> val (add a b) = (val a + val b) mod 2 ^ width"
    and wf_sub: "wf a \<Longrightarrow> wf b \<Longrightarrow> wf (sub a b)"
    and val_sub: "wf a \<Longrightarrow> wf b \<Longrightarrow> val b \<le> val a \<Longrightarrow> val (sub a b) = val a - val b"
    and wf_mul: "wf a \<Longrightarrow> wf b \<Longrightarrow> wf (mul a b)"
    and val_mul: "wf a \<Longrightarrow> wf b \<Longrightarrow> val (mul a b) = val a * val b mod 2 ^ width"
    and quot_zero: "wf b \<Longrightarrow> val b = 0 \<Longrightarrow> quot a b = Inl UintError"
    and quot_nonzero: "wf a \<Longrightarrow> wf b \<Longrightarrow> val b \<noteq> 0 \<Longrightarrow>
      \<exists>q. quot a b = Inr q \<and> wf q \<and> val q = val a div val b"
    and cmp_val: "wf a \<Longrightarrow> wf b \<Longrightarrow>
      cmp a b = (if val a < val b then -1 else if val a > val b then 1 else 0)"
begin

lemma cmp_gt: "wf a \<Longrightarrow> wf b \<Longrightarrow> cmp a b > 0 \<longleftrightarrow> val b < val a"
  by (simp add: cmp_val)

lemma cmp_ge: "wf a \<Longrightarrow> wf b \<Longrightarrow> cmp a b \<ge> 0 \<longleftrightarrow> val b \<le> val a"
  by (simp add: cmp_val)

lemma clamp_above:
  "wf a \<Longrightarrow> wf b \<Longrightarrow> wf (if cmp a b > 0 then b else a) \<and>
   val (if cmp a b > 0 then b else a) = min (val a) (val b)"
  by (simp add: cmp_gt)

lemma abs_diff:
  "wf a \<Longrightarrow> wf b \<Longrightarrow> wf (if cmp a b > 0 then sub a b else sub b a) \<and>
   int (val (if cmp a b > 0 then sub a b else sub b a)) = \<bar>int (val a) - int (val b)\<bar>"
  by (simp add: cmp_gt wf_sub val_sub of_nat_diff)

lemma val_add_lit: "wf a \<Longrightarrow> val a + unat n < 2 ^ width \<Longrightarrow> val (add a (lit n)) = val a + unat n"
  by (simp add: val_add wf_lit val_lit)

text \<open>
  \<open>2 ^ width\<close> itself is not representable, but \<open>~t / (t + 1) + 1\<close> is
  \<open>2 ^ width / (t + 1)\<close>, up to the wrap-around for \<open>t = 0\<close>.
\<close>

lemma complement_quotient:
  assumes "wf t" and "val t + 1 < 2 ^ width"
  shows "\<exists>q. quot (compl t) (add t (lit 1)) = Inr q \<and> wf (add q (lit 1)) \<and>
    val (add q (lit 1)) = 2 ^ width div (val t + 1) mod 2 ^ width"
proof -
  let ?W = "2 ^ width :: nat"
  have t1: "wf (add t (lit 1))" "val (add t (lit 1)) = val t + 1"
    using assms val_add_lit [of t 1] by (simp_all add: wf_add wf_lit)
  obtain q where q: "quot (compl t) (add t (lit 1)) = Inr q" "wf q"
    "val q = val (compl t) div (val t + 1)"
    using quot_nonzero [of "compl t" "add t (lit 1)"] t1 assms(1) by (auto simp: wf_compl)
  have "?W = (?W - 1 - val t) + (val t + 1)" using assms(2) by linarith
  then have "?W div (val t + 1) = (?W - 1 - val t) div (val t + 1) + 1"
    by (metis div_add_self2 add_eq_0_iff_both_eq_0 zero_neq_one)
  then have "?W div (val t + 1) = val q + 1" using q(3) assms(1) by (simp add: val_compl)
  then have "val (add q (lit 1)) = ?W div (val t + 1) mod ?W"
    using q(2) by (simp add: val_add wf_lit val_lit)
  with q(1,2) show ?thesis by (auto simp: wf_add wf_lit)
qed

lemma complement_quotient_zero_divisor:
  "wf t \<Longrightarrow> val t + 1 = 2 ^ width \<Longrightarrow> quot (compl t) (add t (lit 1)) = Inl UintError"
  by (intro quot_zero) (simp_all add: wf_add wf_lit val_add val_lit)

text \<open>Scaling by a literal, where the product fits.\<close>

lemma scaled_quotient:
  assumes "wf r" "wf d" "val d \<noteq> 0" "val r * unat n < 2 ^ width"
  shows "\<exists>q. quot (mul r (lit n)) d = Inr q \<and> wf q \<and> val q = val r * unat n div val d"
  using quot_nonzero [of "mul r (lit n)" d] assms by (simp add: wf_mul wf_lit val_mul val_lit)

end

end
