(* ===== verification/ArithUint256.thy ===== *)
theory ArithUint256
  imports UintSpec
begin

unbundle bit_operations_syntax

text \<open>
  The 256-bit unsigned integers of \<^verbatim>\<open>arith_uint256.h\<close> and \<^verbatim>\<open>arith_uint256.cpp\<close>: eight
  32-bit limbs, least significant first, with school-book arithmetic on the limbs, and the
  "compact" encoding of difficulty targets.

  The abstraction function \<open>uval\<close> reads the limbs as a natural number. Every operator is shown
  to compute the corresponding operation modulo \<open>2 ^ 256\<close>.
\<close>

section \<open>Limbs\<close>

definition WIDTH :: nat where
  "WIDTH = 256 div 32"

record base_uint =
  pn :: "u32 list"

definition uint_wf :: "base_uint \<Rightarrow> bool" where
  "uint_wf a \<longleftrightarrow> length (pn a) = WIDTH"

definition uint_zero :: base_uint where
  "uint_zero = \<lparr>pn = replicate WIDTH 0\<rparr>"

definition uint_of_u64 :: "u64 \<Rightarrow> base_uint" where
  "uint_of_u64 b = \<lparr>pn = ucast b # ucast (drop_bit 32 b) # replicate (WIDTH - 2) 0\<rparr>"

definition uint_is_zero :: "base_uint \<Rightarrow> bool" where
  "uint_is_zero a = list_all (\<lambda>p. p = 0) (pn a)"

definition uint_not :: "base_uint \<Rightarrow> base_uint" where
  "uint_not a = \<lparr>pn = map (\<lambda>p. NOT p) (pn a)\<rparr>"

definition uint_xor :: "base_uint \<Rightarrow> base_uint \<Rightarrow> base_uint" where
  "uint_xor a b = \<lparr>pn = map2 (\<lambda>p q. p XOR q) (pn a) (pn b)\<rparr>"

definition uint_and :: "base_uint \<Rightarrow> base_uint \<Rightarrow> base_uint" where
  "uint_and a b = \<lparr>pn = map2 (\<lambda>p q. p AND q) (pn a) (pn b)\<rparr>"

definition uint_or :: "base_uint \<Rightarrow> base_uint \<Rightarrow> base_uint" where
  "uint_or a b = \<lparr>pn = map2 (\<lambda>p q. p OR q) (pn a) (pn b)\<rparr>"

text \<open>\<open>operator++\<close>: add one to a limb, and go on to the next one when it wrapped to zero.\<close>

fun inc_loop :: "u32 list \<Rightarrow> u32 list" where
  "inc_loop [] = []"
| "inc_loop (p # ps) = (if p + 1 = 0 \<and> ps \<noteq> [] then (p + 1) # inc_loop ps else (p + 1) # ps)"

definition uint_inc :: "base_uint \<Rightarrow> base_uint" where
  "uint_inc a = \<lparr>pn = inc_loop (pn a)\<rparr>"

fun dec_loop :: "u32 list \<Rightarrow> u32 list" where
  "dec_loop [] = []"
| "dec_loop (p # ps) = (if p - 1 = -1 \<and> ps \<noteq> [] then (p - 1) # dec_loop ps else (p - 1) # ps)"

definition uint_dec :: "base_uint \<Rightarrow> base_uint" where
  "uint_dec a = \<lparr>pn = dec_loop (pn a)\<rparr>"

definition uint_neg :: "base_uint \<Rightarrow> base_uint" where
  "uint_neg a = uint_inc (uint_not a)"

text \<open>\<open>operator+=\<close>: a 64-bit accumulator carries into the next limb.\<close>

fun add_loop :: "u64 \<Rightarrow> u32 list \<Rightarrow> u32 list \<Rightarrow> u32 list" where
  "add_loop carry (p # ps) (q # qs) =
     (let n = carry + ucast p + ucast q
      in ucast (n AND 0xffffffff) # add_loop (drop_bit 32 n) ps qs)"
| "add_loop carry _ _ = []"

definition uint_add :: "base_uint \<Rightarrow> base_uint \<Rightarrow> base_uint" where
  "uint_add a b = \<lparr>pn = add_loop 0 (pn a) (pn b)\<rparr>"

definition uint_sub :: "base_uint \<Rightarrow> base_uint \<Rightarrow> base_uint" where
  "uint_sub a b = uint_add a (uint_neg b)"

text \<open>\<open>operator*=(uint32_t)\<close> and \<open>operator*=(const base_uint&)\<close>.\<close>

fun mul32_loop :: "u64 \<Rightarrow> u32 \<Rightarrow> u32 list \<Rightarrow> u32 list" where
  "mul32_loop carry b [] = []"
| "mul32_loop carry b (p # ps) =
     (let n = carry + ucast b * ucast p
      in ucast (n AND 0xffffffff) # mul32_loop (drop_bit 32 n) b ps)"

definition uint_mul32 :: "base_uint \<Rightarrow> u32 \<Rightarrow> base_uint" where
  "uint_mul32 a b32 = \<lparr>pn = mul32_loop 0 b32 (pn a)\<rparr>"

text \<open>
  The inner loop runs over the limbs \<open>pn[j], pn[j + 1], \<dots>\<close> of the result and the limbs of
  \<open>b\<close> at the same time; the outer loop over the limbs of the copy \<open>a\<close>.
\<close>

fun mul_inner :: "u64 \<Rightarrow> u32 \<Rightarrow> u32 list \<Rightarrow> u32 list \<Rightarrow> u32 list" where
  "mul_inner carry aj (p # ps) (q # qs) =
     (let n = carry + ucast p + ucast aj * ucast q
      in ucast (n AND 0xffffffff) # mul_inner (drop_bit 32 n) aj ps qs)"
| "mul_inner carry aj ps _ = ps"

definition mul_row :: "u32 list \<Rightarrow> u32 list \<Rightarrow> u32 list \<Rightarrow> nat \<Rightarrow> u32 list" where
  "mul_row a b r j = take j r @ mul_inner 0 (a ! j) (drop j r) b"

definition uint_mul :: "base_uint \<Rightarrow> base_uint \<Rightarrow> base_uint" where
  "uint_mul a b = \<lparr>pn = foldl (mul_row (pn a) (pn b)) (replicate WIDTH 0) [0 ..< WIDTH]\<rparr>"

text \<open>\<open>operator<<=\<close> and \<open>operator>>=\<close>: whole limbs \<open>k\<close>, then the remaining bits \<open>s\<close>.\<close>

definition shl_step :: "nat \<Rightarrow> nat \<Rightarrow> u32 list \<Rightarrow> u32 list \<Rightarrow> nat \<Rightarrow> u32 list" where
  "shl_step k s a r i =
     (let r1 = (if i + k + 1 < WIDTH \<and> s \<noteq> 0
                then r[i + k + 1 := r ! (i + k + 1) OR drop_bit (32 - s) (a ! i)] else r)
      in if i + k < WIDTH then r1[i + k := r1 ! (i + k) OR push_bit s (a ! i)] else r1)"

definition uint_shl :: "base_uint \<Rightarrow> nat \<Rightarrow> base_uint" where
  "uint_shl a shift =
     \<lparr>pn = foldl (shl_step (shift div 32) (shift mod 32) (pn a)) (replicate WIDTH 0) [0 ..< WIDTH]\<rparr>"

definition shr_step :: "nat \<Rightarrow> nat \<Rightarrow> u32 list \<Rightarrow> u32 list \<Rightarrow> nat \<Rightarrow> u32 list" where
  "shr_step k s a r i =
     (let r1 = (if i \<ge> k + 1 \<and> s \<noteq> 0
                then r[i - k - 1 := r ! (i - k - 1) OR push_bit (32 - s) (a ! i)] else r)
      in if i \<ge> k then r1[i - k := r1 ! (i - k) OR drop_bit s (a ! i)] else r1)"

definition uint_shr :: "base_uint \<Rightarrow> nat \<Rightarrow> base_uint" where
  "uint_shr a shift =
     \<lparr>pn = foldl (shr_step (shift div 32) (shift mod 32) (pn a)) (replicate WIDTH 0) [0 ..< WIDTH]\<rparr>"

text \<open>\<open>CompareTo\<close>, \<open>EqualTo\<close> and \<open>bits\<close> scan from the most significant limb.\<close>

fun cmp_loop :: "u32 list \<Rightarrow> u32 list \<Rightarrow> nat \<Rightarrow> int" where
  "cmp_loop a b 0 = 0"
| "cmp_loop a b (Suc i) =
     (if a ! i < b ! i then -1 else if a ! i > b ! i then 1 else cmp_loop a b i)"

definition CompareTo :: "base_uint \<Rightarrow> base_uint \<Rightarrow> int" where
  "CompareTo a b = cmp_loop (pn a) (pn b) WIDTH"

definition EqualTo :: "base_uint \<Rightarrow> u64 \<Rightarrow> bool" where
  "EqualTo a b \<longleftrightarrow>
     \<not> list_ex (\<lambda>i. pn a ! i \<noteq> 0) (rev [2 ..< WIDTH]) \<and>
     ucast (pn a ! 1) = drop_bit 32 b \<and> ucast (pn a ! 0) = b AND 0xffffffff"

fun top_bit :: "u32 \<Rightarrow> nat \<Rightarrow> nat" where
  "top_bit w 0 = 1"
| "top_bit w (Suc n) = (if w AND push_bit (Suc n) 1 \<noteq> 0 then Suc n + 1 else top_bit w n)"

fun bits_loop :: "u32 list \<Rightarrow> nat \<Rightarrow> nat" where
  "bits_loop a 0 = 0"
| "bits_loop a (Suc pos) =
     (if a ! pos \<noteq> 0 then 32 * pos + top_bit (a ! pos) 31 else bits_loop a pos)"

definition uint_bits :: "base_uint \<Rightarrow> nat" where
  "uint_bits a = bits_loop (pn a) WIDTH"

definition GetLow64 :: "base_uint \<Rightarrow> u64" where
  "GetLow64 a = ucast (pn a ! 0) OR push_bit 32 (ucast (pn a ! 1))"

text \<open>
  \<open>operator/=\<close>: shift-and-subtract. \<open>div_loop (Suc shift)\<close> is one turn of
  \<open>while (shift >= 0)\<close>; \<open>div_loop 0\<close> is the state in which \<open>shift\<close> is \<open>-1\<close>.
\<close>

definition uint_setbit :: "base_uint \<Rightarrow> nat \<Rightarrow> base_uint" where
  "uint_setbit q shift =
     \<lparr>pn = (pn q)[shift div 32 := pn q ! (shift div 32) OR push_bit (shift mod 32) 1]\<rparr>"

fun div_loop :: "nat \<Rightarrow> base_uint \<Rightarrow> base_uint \<Rightarrow> base_uint \<Rightarrow> base_uint" where
  "div_loop 0 num dv q = q"
| "div_loop (Suc shift) num dv q =
     (if CompareTo num dv \<ge> 0
      then div_loop shift (uint_sub num dv) (uint_shr dv 1) (uint_setbit q shift)
      else div_loop shift num (uint_shr dv 1) q)"

definition uint_div :: "base_uint \<Rightarrow> base_uint \<Rightarrow> failure + base_uint" where
  "uint_div a b =
     (let num_bits = uint_bits a; div_bits = uint_bits b
      in if div_bits = 0 then Inl UintError
         else if div_bits > num_bits then Inr uint_zero
         else let shift = num_bits - div_bits
              in Inr (div_loop (Suc shift) a (uint_shl b shift) uint_zero))"

section \<open>The compact encoding\<close>

text \<open>\<open>SetCompact\<close> returns the number with the flags \<open>*pfNegative\<close> and \<open>*pfOverflow\<close>.\<close>

definition SetCompact :: "u32 \<Rightarrow> base_uint \<times> bool \<times> bool" where
  "SetCompact nCompact =
     (let nSize = unat (drop_bit 24 nCompact);
          nWord0 = nCompact AND 0x007fffff;
          nWord = (if nSize \<le> 3 then drop_bit (8 * (3 - nSize)) nWord0 else nWord0);
          this = (if nSize \<le> 3 then uint_of_u64 (ucast nWord)
                  else uint_shl (uint_of_u64 (ucast nWord)) (8 * (nSize - 3)));
          fNegative = (nWord \<noteq> 0 \<and> nCompact AND 0x00800000 \<noteq> 0);
          fOverflow = (nWord \<noteq> 0 \<and> (nSize > 34 \<or> nWord > 0xff \<and> nSize > 33 \<or>
                                       nWord > 0xffff \<and> nSize > 32))
      in (this, fNegative, fOverflow))"

definition GetCompact :: "base_uint \<Rightarrow> bool \<Rightarrow> failure + u32" where
  "GetCompact a fNegative =
     (let nSize0 = (uint_bits a + 7) div 8;
          nCompact0 = (if nSize0 \<le> 3 then ucast (push_bit (8 * (3 - nSize0)) (GetLow64 a))
                       else ucast (GetLow64 (uint_shr a (8 * (nSize0 - 3)))));
          sign = (nCompact0 AND 0x00800000 \<noteq> 0);
          nCompact = (if sign then drop_bit 8 nCompact0 else nCompact0);
          nSize = (if sign then nSize0 + 1 else nSize0)
      in and_then (cassert (nCompact AND NOT 0x007fffff = 0)) (\<lambda>_.
         and_then (cassert (nSize < 256)) (\<lambda>_.
         let c1 = nCompact OR push_bit 24 (of_nat nSize)
         in Inr (c1 OR (if fNegative \<and> c1 AND 0x007fffff \<noteq> 0 then 0x00800000 else 0)))))"

section \<open>Conversion to and from byte blobs\<close>

definition ReadLE32 :: "bytes \<Rightarrow> u32" where
  "ReadLE32 bs = ucast (bs ! 0) OR push_bit 8 (ucast (bs ! 1)) OR push_bit 16 (ucast (bs ! 2))
                 OR push_bit 24 (ucast (bs ! 3))"

definition WriteLE32 :: "u32 \<Rightarrow> bytes" where
  "WriteLE32 x = [ucast x, ucast (drop_bit 8 x), ucast (drop_bit 16 x), ucast (drop_bit 24 x)]"

definition ArithToUint256 :: "base_uint \<Rightarrow> bytes" where
  "ArithToUint256 a = concat (map (\<lambda>x. WriteLE32 (pn a ! x)) [0 ..< WIDTH])"

definition UintToArith256 :: "bytes \<Rightarrow> base_uint" where
  "UintToArith256 a = \<lparr>pn = map (\<lambda>x. ReadLE32 (drop (x * 4) a)) [0 ..< WIDTH]\<rparr>"

section \<open>Abstraction\<close>

text \<open>
  \<open>uval\<close> is the number the limbs denote. \<open>compact_value\<close> is the number a compact code denotes
  by the formula in the comment of \<^verbatim>\<open>arith_uint256.h\<close>: mantissa times 256 to the (exponent - 3).
  The other definitions name intermediate values of the loops for the proofs.
\<close>

fun limbs_val :: "u32 list \<Rightarrow> nat" where
  "limbs_val [] = 0"
| "limbs_val (p # ps) = unat p + 2 ^ 32 * limbs_val ps"

definition uval :: "base_uint \<Rightarrow> nat" where
  "uval a = limbs_val (pn a)"

definition compact_size :: "u32 \<Rightarrow> nat" where
  "compact_size c = unat c div 2 ^ 24"

definition compact_mantissa :: "u32 \<Rightarrow> nat" where
  "compact_mantissa c = unat c mod 2 ^ 23"

definition compact_value :: "u32 \<Rightarrow> nat" where
  "compact_value c =
     (if compact_size c \<le> 3 then compact_mantissa c div 256 ^ (3 - compact_size c)
      else compact_mantissa c * 256 ^ (compact_size c - 3))"

definition shl_limb :: "nat \<Rightarrow> nat \<Rightarrow> u32 list \<Rightarrow> nat \<Rightarrow> nat \<Rightarrow> u32" where
  "shl_limb k s a n j =
     (if k \<le> j \<and> j - k < n then push_bit s (a ! (j - k)) else 0) OR
     (if k + 1 \<le> j \<and> j - k - 1 < n \<and> s \<noteq> 0 then drop_bit (32 - s) (a ! (j - k - 1)) else 0)"

definition shr_limb :: "nat \<Rightarrow> nat \<Rightarrow> u32 list \<Rightarrow> nat \<Rightarrow> nat \<Rightarrow> u32" where
  "shr_limb k s a n j =
     (if j + k < n then drop_bit s (a ! (j + k)) else 0) OR
     (if j + k + 1 < n \<and> s \<noteq> 0 then push_bit (32 - s) (a ! (j + k + 1)) else 0)"

definition raw_mantissa :: "nat \<Rightarrow> nat \<Rightarrow> nat" where
  "raw_mantissa n a = (if n \<le> 3 then a * 256 ^ (3 - n) else a div 256 ^ (n - 3))"

definition byte_count :: "base_uint \<Rightarrow> nat" where
  "byte_count a = (uint_bits a + 7) div 8"

section \<open>Limb arithmetic\<close>

lemma limbs_val_less: "limbs_val ps < 2 ^ (32 * length ps)"
proof (induction ps)
  case (Cons p ps)
  have "unat p + 2 ^ 32 * limbs_val ps < 2 ^ 32 * (limbs_val ps + 1)"
    using unat_u32_less [of p] by simp
  also have "\<dots> \<le> 2 ^ 32 * 2 ^ (32 * length ps)"
    using Cons by (intro mult_le_mono) auto
  finally show ?case by (simp add: power_add algebra_simps)
qed simp

lemma limbs_val_append: "limbs_val (ps @ qs) = limbs_val ps + 2 ^ (32 * length ps) * limbs_val qs"
  by (induction ps) (simp_all add: power_add algebra_simps)

lemma limbs_val_replicate_0 [simp]: "limbs_val (replicate n 0) = 0"
  by (induction n) simp_all

lemma add_loop_val:
  assumes "length ps = length qs" and "unat carry \<le> 1"
  shows "limbs_val (add_loop carry ps qs) =
    (unat carry + limbs_val ps + limbs_val qs) mod 2 ^ (32 * length ps)"
  using assms
proof (induction carry ps qs rule: add_loop.induct)
  case (1 carry p ps q qs)
  define n where "n = carry + ucast p + (ucast q :: u64)"
  have n: "unat n = unat carry + unat p + unat q"
    using "1.prems"(2) unat_u32_less [of p] unat_u32_less [of q]
    by (simp add: n_def unat_word_ariths)
  have c: "unat n div 2 ^ 32 \<le> 1"
    using n "1.prems"(2) unat_u32_less [of p] unat_u32_less [of q] by simp
  have IH: "limbs_val (add_loop (drop_bit 32 n) ps qs) =
      (unat n div 2 ^ 32 + (limbs_val ps + limbs_val qs)) mod 2 ^ (32 * length ps)"
    using "1.IH" [OF n_def] "1.prems"(1) c by (simp add: high32 add.assoc)
  have "limbs_val (add_loop carry (p # ps) (q # qs)) =
      (unat n + 2 ^ 32 * (limbs_val ps + limbs_val qs)) mod (2 ^ 32 * 2 ^ (32 * length ps))"
    by (simp only: add_loop.simps Let_def limbs_val.simps low32 n_def [symmetric] IH limb_carry)
  then show ?case
    by (simp add: n power_add algebra_simps)
qed auto

lemma length_add_loop [simp]: "length ps = length qs \<Longrightarrow> length (add_loop c ps qs) = length ps"
  by (induction c ps qs rule: add_loop.induct) (simp_all add: Let_def)

lemma limbs_val_map_not: "limbs_val (map (\<lambda>p. NOT p) ps) = 2 ^ (32 * length ps) - 1 - limbs_val ps"
proof (induction ps)
  case (Cons p ps)
  define B V M where "B = (2::nat) ^ 32" and "V = limbs_val ps" and "M = (2::nat) ^ (32 * length ps)"
  have V: "V < M" unfolding V_def M_def by (rule limbs_val_less)
  have p: "unat p < B" unfolding B_def by (rule unat_u32_less)
  have BV: "B * (V + 1) \<le> B * M" using V by (intro mult_le_mono) auto
  have M: "2 ^ (32 * length (p # ps)) = B * M"
    by (simp add: B_def M_def power_add)
  have "limbs_val (map (\<lambda>p. NOT p) (p # ps)) = B - 1 - unat p + B * (M - 1 - V)"
    using Cons by (simp only: list.map limbs_val.simps unat_not_u32 B_def V_def M_def)
  also have "\<dots> = B - 1 - unat p + (B * M - B * (V + 1))"
    by (simp add: diff_mult_distrib2 algebra_simps)
  also have "\<dots> = B * M - 1 - (unat p + B * V)"
    using p BV by simp
  finally show ?case by (simp only: M limbs_val.simps B_def V_def)
qed simp

lemma length_inc_loop [simp]: "length (inc_loop ps) = length ps"
  by (induction ps) simp_all

lemma length_dec_loop [simp]: "length (dec_loop ps) = length ps"
  by (induction ps) simp_all

lemma inc_loop_val: "limbs_val (inc_loop ps) = (limbs_val ps + 1) mod 2 ^ (32 * length ps)"
proof (induction ps)
  case (Cons p ps)
  define B V M where "B = (2::nat) ^ 32" and "V = limbs_val ps" and "M = (2::nat) ^ (32 * length ps)"
  have V: "V < M" unfolding V_def M_def by (rule limbs_val_less)
  have M: "2 ^ (32 * length (p # ps)) = B * M"
    by (simp add: B_def M_def power_add)
  have u: "unat p < B" unfolding B_def by (rule unat_u32_less)
  show ?case
  proof (cases "p + 1 = 0")
    case True
    then have "p = - 1" by (simp add: eq_neg_iff_add_eq_0)
    then have p: "unat p + 1 = B" by (simp add: B_def)
    have "unat p + B * V + 1 = B * (V + 1)"
      using p by (simp add: distrib_left)
    then have "(unat p + B * V + 1) mod (B * M) = B * ((V + 1) mod M)"
      by (simp only: mult_mod_right)
    with True Cons show ?thesis
      by (cases "ps = []") (simp_all only: M limbs_val.simps, simp_all add: V_def M_def B_def)
  next
    case False
    then have p: "unat (p + 1) = unat p + 1" by (metis unatSuc add.commute Suc_eq_plus1)
    then have "unat p + 1 < B" unfolding B_def by (metis unat_u32_less)
    then have "unat p + 1 + B * V < B + B * V" by simp
    also have "\<dots> = B * (V + 1)" by (simp add: algebra_simps)
    also have "\<dots> \<le> B * M" using V by (intro mult_le_mono) auto
    finally have "(unat p + B * V + 1) mod (B * M) = unat p + 1 + B * V" by simp
    with False p show ?thesis
      by (simp only: M limbs_val.simps inc_loop.simps) (simp add: V_def B_def)
  qed
qed simp

lemma length_mul32_loop [simp]: "length (mul32_loop c b ps) = length ps"
  by (induction ps arbitrary: c) (simp_all add: Let_def)

lemma mul_acc_bound:
  assumes "c < 2 ^ 32" "p < 2 ^ 32" "a < 2 ^ 32" "q < 2 ^ 32"
  shows "c + p + a * q < (2 ^ 64 :: nat)" and "(c + p + a * q) div 2 ^ 32 < (2 ^ 32 :: nat)"
proof -
  have "a * q \<le> (2 ^ 32 - 1) * (2 ^ 32 - 1)"
    using assms by (intro mult_le_mono) auto
  then show *: "c + p + a * q < (2 ^ 64 :: nat)"
    using assms by simp
  show "(c + p + a * q) div 2 ^ 32 < (2 ^ 32 :: nat)"
    using * by (simp add: less_mult_imp_div_less)
qed

lemma mul32_loop_val:
  assumes "unat carry < 2 ^ 32"
  shows "limbs_val (mul32_loop carry b ps) =
    (unat carry + unat b * limbs_val ps) mod 2 ^ (32 * length ps)"
  using assms
proof (induction ps arbitrary: carry)
  case (Cons p ps)
  define n where "n = carry + ucast b * (ucast p :: u64)"
  have bnd: "unat carry + 0 + unat b * unat p < 2 ^ 64"
     "(unat carry + 0 + unat b * unat p) div 2 ^ 32 < 2 ^ 32"
    by (rule mul_acc_bound [OF Cons.prems _ unat_u32_less unat_u32_less], simp)+
  then have "unat (ucast b * (ucast p :: u64)) = unat b * unat p"
    by (simp add: unat_word_ariths)
  with bnd have n: "unat n = unat carry + unat b * unat p"
    by (simp add: n_def unat_word_ariths)
  with bnd have c: "unat (drop_bit 32 n) < 2 ^ 32"
    by (simp only: high32 add_0_right)
  have "limbs_val (mul32_loop carry b (p # ps)) =
      (unat n + 2 ^ 32 * (unat b * limbs_val ps)) mod (2 ^ 32 * 2 ^ (32 * length ps))"
    by (simp only: mul32_loop.simps Let_def limbs_val.simps low32 n_def [symmetric]
        Cons.IH [OF c] high32 limb_carry)
  then show ?case
    by (simp add: n power_add algebra_simps)
qed simp

lemma length_mul_inner [simp]: "length (mul_inner c a ps qs) = length ps"
  by (induction c a ps qs rule: mul_inner.induct) (simp_all add: Let_def)

lemma mul_inner_val:
  assumes "unat carry < 2 ^ 32" and "length ps \<le> length qs"
  shows "limbs_val (mul_inner carry aj ps qs) =
    (unat carry + limbs_val ps + unat aj * limbs_val qs) mod 2 ^ (32 * length ps)"
  using assms
proof (induction carry aj ps qs rule: mul_inner.induct)
  case (1 carry aj p ps q qs)
  define n where "n = carry + ucast p + ucast aj * (ucast q :: u64)"
  have bnd: "unat carry + unat p + unat aj * unat q < 2 ^ 64"
     "(unat carry + unat p + unat aj * unat q) div 2 ^ 32 < 2 ^ 32"
    by (rule mul_acc_bound [OF "1.prems"(1) unat_u32_less unat_u32_less unat_u32_less])+
  then have "unat (ucast aj * (ucast q :: u64)) = unat aj * unat q"
    by (simp add: unat_word_ariths)
  with bnd have n: "unat n = unat carry + unat p + unat aj * unat q"
    by (simp add: n_def unat_word_ariths)
  with bnd have c: "unat (drop_bit 32 n) < 2 ^ 32"
    by (simp only: high32)
  have IH: "limbs_val (mul_inner (drop_bit 32 n) aj ps qs) =
      (unat n div 2 ^ 32 + (limbs_val ps + unat aj * limbs_val qs)) mod 2 ^ (32 * length ps)"
    using "1.IH" [OF n_def c] "1.prems"(2) by (simp add: high32 add.assoc)
  have "limbs_val (mul_inner carry aj (p # ps) (q # qs)) =
      (unat n + 2 ^ 32 * (limbs_val ps + unat aj * limbs_val qs)) mod (2 ^ 32 * 2 ^ (32 * length ps))"
    by (simp only: mul_inner.simps Let_def limbs_val.simps low32 n_def [symmetric] IH limb_carry)
  then show ?case
    by (simp add: n power_add algebra_simps)
qed auto

lemma length_mul_row [simp]: "length (mul_row a b r j) = length r"
  by (simp add: mul_row_def)

lemma mul_row_val:
  assumes "length r \<le> length b" and "j < length r"
  shows "limbs_val (mul_row a b r j) =
    (limbs_val r + 2 ^ (32 * j) * unat (a ! j) * limbs_val b) mod 2 ^ (32 * length r)"
proof -
  define B where "B = (2::nat) ^ (32 * j)"
  define x where "x = limbs_val (take j r)"
  have len: "length (take j r) = j" using assms by simp
  have x: "x < B" using limbs_val_less [of "take j r"] len by (simp add: x_def B_def)
  have M: "2 ^ (32 * length r) = B * 2 ^ (32 * length (drop j r))"
    using assms(2) by (simp add: B_def flip: power_add distrib_left)
  have r: "limbs_val r = x + B * limbs_val (drop j r)"
    using limbs_val_append [of "take j r" "drop j r"] len by (simp add: x_def B_def)
  have "limbs_val (mul_row a b r j) =
      x + B * ((limbs_val (drop j r) + unat (a ! j) * limbs_val b) mod 2 ^ (32 * length (drop j r)))"
    using mul_inner_val [of 0 "drop j r" b "a ! j"] assms len
    by (simp add: mul_row_def limbs_val_append x_def B_def)
  also have "\<dots> = (x + B * (limbs_val (drop j r) + unat (a ! j) * limbs_val b))
      mod (B * 2 ^ (32 * length (drop j r)))"
    using limb_carry [of x B "limbs_val (drop j r) + unat (a ! j) * limbs_val b"] x by simp
  finally show ?thesis
    by (simp only: M r) (simp add: B_def algebra_simps)
qed

lemma mul_rows_val:
  assumes "length r = length a" and "length a \<le> length b" and "n \<le> length a"
  shows "limbs_val (foldl (mul_row a b) r [0 ..< n]) =
      (limbs_val r + limbs_val (take n a) * limbs_val b) mod 2 ^ (32 * length a) \<and>
    length (foldl (mul_row a b) r [0 ..< n]) = length a"
  using assms(3)
proof (induction n)
  case 0
  then show ?case using limbs_val_less [of r] assms by simp
next
  case (Suc n)
  let ?r = "foldl (mul_row a b) r [0 ..< n]"
  have len: "length ?r = length a" using Suc by simp
  have t: "limbs_val (take (Suc n) a) = limbs_val (take n a) + 2 ^ (32 * n) * unat (a ! n)"
    using Suc.prems by (simp add: take_Suc_conv_app_nth limbs_val_append)
  have "limbs_val (mul_row a b ?r n) =
      (limbs_val ?r + 2 ^ (32 * n) * unat (a ! n) * limbs_val b) mod 2 ^ (32 * length a)"
    using mul_row_val [of ?r b n a] len assms(2) Suc.prems by simp
  also have "\<dots> = (limbs_val r + limbs_val (take n a) * limbs_val b + 2 ^ (32 * n) * unat (a ! n) * limbs_val b)
      mod 2 ^ (32 * length a)"
    using Suc by (simp add: mod_add_left_eq)
  finally show ?case
    using len by (simp add: t algebra_simps)
qed

section \<open>Shifts\<close>

lemma bit_limbs_val:
  "bit (limbs_val ps) n \<longleftrightarrow> n div 32 < length ps \<and> bit (ps ! (n div 32)) (n mod 32)"
proof (induction ps arbitrary: n)
  case (Cons p ps)
  let ?x = "unat p + 2 ^ 32 * limbs_val ps"
  show ?case
  proof (cases "n < 32")
    case True
    have "take_bit 32 ?x = unat p"
      by (simp add: take_bit_eq_mod unat_u32_less_numeral)
    then have "bit ?x n \<longleftrightarrow> bit (unat p) n"
      using True by (metis bit_take_bit_iff)
    with True show ?thesis by (simp add: bit_unsigned_iff)
  next
    case False
    then obtain m where n: "n = 32 + m" using le_Suc_ex not_less by blast
    have "drop_bit 32 ?x = limbs_val ps"
      by (simp add: drop_bit_eq_div unat_u32_less_numeral)
    then have "bit ?x n \<longleftrightarrow> bit (limbs_val ps) m"
      by (metis n bit_drop_bit_eq comp_apply)
    moreover have "n div 32 = Suc (m div 32)" "n mod 32 = m mod 32" by (simp_all add: n)
    ultimately show ?thesis using Cons by simp
  qed
qed simp

lemma bit_limbs_at:
  "t < 32 \<Longrightarrow> bit (limbs_val ps) (32 * j + t) \<longleftrightarrow> j < length ps \<and> bit (ps ! j) t"
  by (simp add: bit_limbs_val)

lemma shl_step_nth:
  assumes "length r = WIDTH" and "j < WIDTH"
  shows "shl_step k s a r n ! j = r ! j OR
    (if j = n + k then push_bit s (a ! n)
     else if j = n + k + 1 \<and> s \<noteq> 0 then drop_bit (32 - s) (a ! n) else 0)"
  using assms by (simp add: shl_step_def Let_def nth_list_update)

lemma shr_step_nth:
  assumes "length r = WIDTH" and "j < WIDTH" and "n < WIDTH"
  shows "shr_step k s a r n ! j = r ! j OR
    (if n = j + k then drop_bit s (a ! n)
     else if n = j + k + 1 \<and> s \<noteq> 0 then push_bit (32 - s) (a ! n) else 0)"
  using assms by (auto simp: shr_step_def Let_def nth_list_update)

lemma length_shl_step [simp]: "length (shl_step k s a r n) = length r"
  by (simp add: shl_step_def Let_def)

lemma length_shr_step [simp]: "length (shr_step k s a r n) = length r"
  by (simp add: shr_step_def Let_def)

lemma shl_limb_Suc:
  "shl_limb k s a (Suc n) j = shl_limb k s a n j OR
    (if j = n + k then push_bit s (a ! n)
     else if j = n + k + 1 \<and> s \<noteq> 0 then drop_bit (32 - s) (a ! n) else 0)"
proof -
  consider "j = n + k" | "j = n + k + 1" | "j < k" | "j \<noteq> n + k" "j \<noteq> n + k + 1" "k \<le> j" by linarith
  then show ?thesis
  proof cases
    case 1
    then show ?thesis by (cases n) (simp_all add: shl_limb_def or.commute)
  next
    case 4
    then have "j - k \<noteq> n" "j - k - 1 \<noteq> n \<or> j = k" by auto
    with 4 show ?thesis by (auto simp: shl_limb_def less_Suc_eq)
  qed (simp_all add: shl_limb_def)
qed

lemma shr_limb_Suc:
  "shr_limb k s a (Suc n) j = shr_limb k s a n j OR
    (if n = j + k then drop_bit s (a ! n)
     else if n = j + k + 1 \<and> s \<noteq> 0 then push_bit (32 - s) (a ! n) else 0)"
  by (auto simp: shr_limb_def less_Suc_eq)

lemma shl_fold_nth:
  "n \<le> WIDTH \<Longrightarrow> j < WIDTH \<Longrightarrow>
   foldl (shl_step k s a) (replicate WIDTH 0) [0 ..< n] ! j = shl_limb k s a n j"
  by (induction n) (simp_all add: shl_step_nth length_foldl_step shl_limb_Suc, simp add: shl_limb_def)

lemma shr_fold_nth:
  "n \<le> WIDTH \<Longrightarrow> j < WIDTH \<Longrightarrow>
   foldl (shr_step k s a) (replicate WIDTH 0) [0 ..< n] ! j = shr_limb k s a n j"
  by (induction n) (simp_all add: shr_step_nth length_foldl_step shr_limb_Suc, simp add: shr_limb_def)

lemma limbs_shl_val:
  assumes "length a = WIDTH"
  shows "limbs_val (foldl (shl_step (sh div 32) (sh mod 32) a) (replicate WIDTH 0) [0 ..< WIDTH]) =
    limbs_val a * 2 ^ sh mod 2 ^ (32 * WIDTH)"
proof -
  define k s where "k = sh div 32" and "s = sh mod 32"
  have sh: "sh = 32 * k + s" and s: "s < 32" by (simp_all add: k_def s_def)
  let ?r = "foldl (shl_step k s a) (replicate WIDTH 0) [0 ..< WIDTH]"
  have len: "length ?r = WIDTH" by (simp add: length_foldl_step)
  have nth: "?r ! j = shl_limb k s a WIDTH j" if "j < WIDTH" for j
    using that by (simp add: shl_fold_nth)
  have "bit (limbs_val ?r) n \<longleftrightarrow> bit (take_bit (32 * WIDTH) (push_bit sh (limbs_val a))) n" for n
  proof -
    define j t where "j = n div 32" and "t = n mod 32"
    have n: "n = 32 * j + t" and t: "t < 32" by (simp_all add: j_def t_def)
    have jW: "n < 32 * WIDTH \<longleftrightarrow> j < WIDTH" using n t by auto
    show ?thesis
    proof (cases "j < WIDTH")
      case False
      then show ?thesis
        using jW len by (simp add: bit_limbs_val bit_take_bit_iff j_def)
    next
      case j: True
      have "bit (limbs_val ?r) n \<longleftrightarrow> bit (?r ! j) t"
        using j len by (simp add: bit_limbs_val j_def t_def)
      also have "\<dots> \<longleftrightarrow> (k \<le> j \<and> s \<le> t \<and> bit (a ! (j - k)) (t - s)) \<or>
          (k + 1 \<le> j \<and> s \<noteq> 0 \<and> bit (a ! (j - k - 1)) (t + (32 - s)))"
        using j t by (auto simp: nth [OF j] shl_limb_def bit_or_iff bit_push_bit_iff bit_drop_bit_eq add.commute)
      also have "\<dots> \<longleftrightarrow> sh \<le> n \<and> bit (limbs_val a) (n - sh)"
      proof (cases "s \<le> t")
        case True
        have "\<not> bit (a ! (j - k - 1)) (t + (32 - s))"
          using True s by (intro bit_word_ge) simp
        moreover have "sh \<le> n \<longleftrightarrow> k \<le> j" using True n sh t s by linarith
        moreover have "bit (limbs_val a) (n - sh) \<longleftrightarrow> bit (a ! (j - k)) (t - s)" if "k \<le> j"
        proof -
          have eq: "n - sh = 32 * (j - k) + (t - s)"
            using True n sh that by (simp add: diff_mult_distrib2)
          have "t - s < 32" "j - k < length a" using t j assms by simp_all
          then show ?thesis unfolding eq by (subst bit_limbs_at) simp_all
        qed
        ultimately show ?thesis using True by auto
      next
        case False
        have "sh \<le> n \<longleftrightarrow> k + 1 \<le> j" using False n sh t s by linarith
        moreover have "bit (limbs_val a) (n - sh) \<longleftrightarrow> bit (a ! (j - k - 1)) (t + (32 - s))"
          if k1: "k + 1 \<le> j"
        proof -
          obtain m where m: "j = k + 1 + m" using le_Suc_ex [OF k1] by blast
          then have eq: "n - sh = 32 * (j - k - 1) + (t + (32 - s))" using False n sh s by simp
          have "t + (32 - s) < 32" "j - k - 1 < length a" using False s m j assms by simp_all
          then show ?thesis unfolding eq by (subst bit_limbs_at) simp_all
        qed
        ultimately show ?thesis using False by auto
      qed
      finally show ?thesis
        using j jW by (simp add: bit_take_bit_iff bit_push_bit_iff)
    qed
  qed
  then have "limbs_val ?r = take_bit (32 * WIDTH) (push_bit sh (limbs_val a))"
    by (intro bit_eqI) blast
  then show ?thesis
    by (simp only: take_bit_eq_mod push_bit_eq_mult k_def s_def)
qed

lemma limbs_shr_val:
  assumes "length a = WIDTH"
  shows "limbs_val (foldl (shr_step (sh div 32) (sh mod 32) a) (replicate WIDTH 0) [0 ..< WIDTH]) =
    limbs_val a div 2 ^ sh"
proof -
  define k s where "k = sh div 32" and "s = sh mod 32"
  have sh: "sh = 32 * k + s" and s: "s < 32" by (simp_all add: k_def s_def)
  let ?r = "foldl (shr_step k s a) (replicate WIDTH 0) [0 ..< WIDTH]"
  have len: "length ?r = WIDTH" by (simp add: length_foldl_step)
  have nth: "?r ! j = shr_limb k s a WIDTH j" if "j < WIDTH" for j
    using that by (simp add: shr_fold_nth)
  have "bit (limbs_val ?r) n \<longleftrightarrow> bit (drop_bit sh (limbs_val a)) n" for n
  proof -
    define j t where "j = n div 32" and "t = n mod 32"
    have n: "n = 32 * j + t" and t: "t < 32" by (simp_all add: j_def t_def)
    have "bit (limbs_val ?r) n \<longleftrightarrow> j < WIDTH \<and> bit (shr_limb k s a WIDTH j) t"
      using len nth by (auto simp: bit_limbs_val j_def t_def)
    also have "\<dots> \<longleftrightarrow> j < WIDTH \<and>
        (j + k < WIDTH \<and> bit (a ! (j + k)) (s + t) \<or>
         j + k + 1 < WIDTH \<and> s \<noteq> 0 \<and> 32 - s \<le> t \<and> bit (a ! (j + k + 1)) (t - (32 - s)))"
      using t by (auto simp: shr_limb_def bit_or_iff bit_push_bit_iff bit_drop_bit_eq)
    also have "\<dots> \<longleftrightarrow> bit (limbs_val a) (n + sh)"
    proof (cases "s + t < 32")
      case True
      have eq: "n + sh = 32 * (j + k) + (s + t)" using n sh by simp
      have "bit (limbs_val a) (n + sh) \<longleftrightarrow> j + k < WIDTH \<and> bit (a ! (j + k)) (s + t)"
        unfolding eq assms [symmetric] by (rule bit_limbs_at [OF True])
      with True show ?thesis by auto
    next
      case False
      have "\<not> bit (a ! (j + k)) (s + t)"
        using False by (intro bit_word_ge) simp
      moreover have "bit (limbs_val a) (n + sh) \<longleftrightarrow>
          j + k + 1 < WIDTH \<and> bit (a ! (j + k + 1)) (t - (32 - s))"
      proof -
        have eq: "n + sh = 32 * (j + k + 1) + (t - (32 - s))"
          using False n sh s t by (simp add: distrib_left)
        show ?thesis
          unfolding eq assms [symmetric] by (rule bit_limbs_at) (use t in simp)
      qed
      ultimately show ?thesis using False s t by auto
    qed
    finally show ?thesis by (simp add: bit_drop_bit_eq add.commute)
  qed
  then have "limbs_val ?r = drop_bit sh (limbs_val a)"
    by (intro bit_eqI) blast
  then show ?thesis
    by (simp only: drop_bit_eq_div k_def s_def)
qed

section \<open>Comparison and bit length\<close>

lemma limbs_val_take_Suc:
  "i < length a \<Longrightarrow> limbs_val (take (Suc i) a) = limbs_val (take i a) + 2 ^ (32 * i) * unat (a ! i)"
  by (simp add: take_Suc_conv_app_nth limbs_val_append)

lemma limbs_val_take_less: "limbs_val (take i a) < 2 ^ (32 * i)"
proof -
  have "limbs_val (take i a) < 2 ^ (32 * length (take i a))" by (rule limbs_val_less)
  also have "\<dots> \<le> 2 ^ (32 * i)" by (rule power_increasing) simp_all
  finally show ?thesis .
qed

lemma cmp_loop_val:
  assumes "i \<le> length a" "i \<le> length b"
  shows "cmp_loop a b i = (if limbs_val (take i a) < limbs_val (take i b) then -1
     else if limbs_val (take i a) > limbs_val (take i b) then 1 else 0)"
  using assms
proof (induction i)
  case (Suc i)
  note less = digit_less_mono [OF limbs_val_take_less]
  show ?case
  proof (cases "a ! i" "b ! i" rule: linorder_cases)
    case less
    then have "unat (a ! i) < unat (b ! i)" by (simp add: word_less_nat_alt)
    from digit_less_mono [OF limbs_val_take_less this] less Suc.prems
    show ?thesis by (simp add: limbs_val_take_Suc)
  next
    case greater
    then have "unat (b ! i) < unat (a ! i)" by (simp add: word_less_nat_alt)
    from digit_less_mono [OF limbs_val_take_less this] greater Suc.prems
    show ?thesis by (simp add: limbs_val_take_Suc not_less_iff_gr_or_eq)
  next
    case equal
    with Suc show ?thesis by (simp add: limbs_val_take_Suc)
  qed
qed simp

lemma top_bit_bounds:
  assumes "w \<noteq> 0" and "unat w < 2 ^ Suc n" and "n < 32"
  shows "0 < top_bit w n \<and> 2 ^ (top_bit w n - 1) \<le> unat w \<and> unat w < 2 ^ top_bit w n"
  using assms
proof (induction n)
  case 0
  then have "unat w = 1" using unat_gt_0 [of w] by simp
  then show ?case by simp
next
  case (Suc n)
  show ?case
  proof (cases "bit w (Suc n)")
    case True
    then have "bit (unat w) (Suc n)" using Suc.prems by (simp add: bit_unsigned_iff)
    then have "2 ^ Suc n \<le> unat w" by (rule bit_nat_ge)
    moreover have "w AND push_bit (Suc n) 1 \<noteq> 0" using True bit_iff_and_push_bit_not_eq_0 [of w "Suc n"] by blast
    ultimately show ?thesis using Suc.prems by simp
  next
    case False
    then have "\<not> bit (unat w) (Suc n)" by (simp add: bit_unsigned_iff)
    then have "unat w < 2 ^ Suc n" using Suc.prems(2) by (rule not_bit_nat_less)
    moreover have "\<not> w AND push_bit (Suc n) 1 \<noteq> 0" using False bit_iff_and_push_bit_not_eq_0 [of w "Suc n"] by blast
    ultimately show ?thesis using Suc by simp
  qed
qed

lemma bits_loop_bounds:
  assumes "n \<le> length a"
  shows "if limbs_val (take n a) = 0 then bits_loop a n = 0
    else 0 < bits_loop a n \<and> bits_loop a n \<le> 32 * n \<and> 2 ^ (bits_loop a n - 1) \<le> limbs_val (take n a) \<and>
      limbs_val (take n a) < 2 ^ bits_loop a n"
  using assms
proof (induction n)
  case (Suc n)
  let ?w = "a ! n" and ?x = "limbs_val (take n a)"
  have v: "limbs_val (take (Suc n) a) = ?x + 2 ^ (32 * n) * unat ?w"
    using Suc.prems by (simp add: limbs_val_take_Suc)
  show ?case
  proof (cases "?w = 0")
    case True
    with Suc v show ?thesis by (auto split: if_splits)
  next
    case False
    define t where "t = top_bit ?w 31"
    have t: "0 < t" "2 ^ (t - 1) \<le> unat ?w" "unat ?w < 2 ^ t"
      using top_bit_bounds [OF False, of 31] unat_u32_less [of ?w] by (simp_all add: t_def)
    have "t \<le> 32"
    proof (rule ccontr)
      assume "\<not> t \<le> 32"
      then have "(2::nat) ^ 32 \<le> 2 ^ (t - 1)" by (intro power_increasing) auto
      with t(2) unat_u32_less [of ?w] show False by simp
    qed
    have lo: "2 ^ (32 * n + t - 1) \<le> ?x + 2 ^ (32 * n) * unat ?w"
    proof -
      have "2 ^ (32 * n + t - 1) = 2 ^ (32 * n) * (2 :: nat) ^ (t - 1)"
        using t(1) by (simp flip: power_add)
      also have "\<dots> \<le> 2 ^ (32 * n) * unat ?w" using t(2) by simp
      finally show ?thesis by simp
    qed
    have hi: "?x + 2 ^ (32 * n) * unat ?w < 2 ^ (32 * n + t)"
      using digit_less_mono [OF limbs_val_take_less t(3), of n a 0] by (simp add: power_add)
    have "0 < ?x + 2 ^ (32 * n) * unat ?w" using lo by (metis less_le_trans zero_less_numeral zero_less_power)
    with lo hi False t(1) \<open>t \<le> 32\<close> show ?thesis
      by (simp add: v flip: t_def)
  qed
qed simp


lemma limbs_setbit_val:
  assumes "s < 32 * length q" and "\<not> bit (limbs_val q) s"
  shows "limbs_val (q[s div 32 := q ! (s div 32) OR push_bit (s mod 32) 1]) = limbs_val q + 2 ^ s"
proof -
  let ?q = "q[s div 32 := q ! (s div 32) OR push_bit (s mod 32) 1]"
  have d: "s div 32 < length q" using assms(1) by (simp add: less_mult_imp_div_less mult.commute)
  have "bit (limbs_val ?q) n \<longleftrightarrow> bit (set_bit s (limbs_val q)) n" for n
  proof -
    have "n = s" if "n div 32 = s div 32" "n mod 32 = s mod 32"
      using that by (metis div_mod_decomp)
    with d show ?thesis
      by (auto simp: bit_limbs_val nth_list_update bit_or_iff bit_push_bit_iff bit_set_bit_iff bit_exp_iff possible_bit_def)
  qed
  then have "limbs_val ?q = set_bit s (limbs_val q)" by (intro bit_eqI) blast
  with assms(2) show ?thesis by (simp add: set_bit_eq)
qed

section \<open>The operators compute modulo 2 ^ 256\<close>

lemma WIDTH_eq [simp]: "WIDTH = 8"
  by (simp add: WIDTH_def)

lemma uval_less: "uint_wf a \<Longrightarrow> uval a < 2 ^ 256"
  using limbs_val_less [of "pn a"] by (simp add: uval_def uint_wf_def)

lemma uint_wf_ops [simp, intro]:
  "uint_wf uint_zero"
  "uint_wf (uint_of_u64 n)"
  "uint_wf a \<Longrightarrow> uint_wf (uint_not a)"
  "uint_wf a \<Longrightarrow> uint_wf (uint_inc a)"
  "uint_wf a \<Longrightarrow> uint_wf (uint_dec a)"
  "uint_wf a \<Longrightarrow> uint_wf (uint_neg a)"
  "uint_wf a \<Longrightarrow> uint_wf b \<Longrightarrow> uint_wf (uint_add a b)"
  "uint_wf a \<Longrightarrow> uint_wf b \<Longrightarrow> uint_wf (uint_sub a b)"
  "uint_wf a \<Longrightarrow> uint_wf (uint_mul32 a c)"
  "uint_wf a \<Longrightarrow> uint_wf b \<Longrightarrow> uint_wf (uint_mul a b)"
  "uint_wf (uint_shl a k)"
  "uint_wf (uint_shr a k)"
  "uint_wf a \<Longrightarrow> uint_wf (uint_setbit a k)"
  "uint_wf (UintToArith256 bs)"
  by (simp_all add: uint_wf_def uint_zero_def uint_of_u64_def uint_not_def uint_inc_def uint_dec_def
      uint_neg_def uint_add_def uint_sub_def uint_mul32_def uint_mul_def uint_shl_def uint_shr_def
      uint_setbit_def UintToArith256_def length_foldl_step)

lemma uval_zero [simp]: "uval uint_zero = 0"
  by (simp add: uval_def uint_zero_def)

lemma uval_of_u64 [refine]: "uval (uint_of_u64 n) = unat n"
proof -
  have "unat (ucast n :: u32) = unat n mod 2 ^ 32"
    by (simp add: unsigned_ucast_eq take_bit_eq_mod)
  moreover have "unat (ucast (drop_bit 32 n) :: u32) = unat n div 2 ^ 32"
  proof -
    have "unat n < 2 ^ 64" using unsigned_less [of n] by simp
    then have "unat n div 2 ^ 32 < 2 ^ 32" by (simp add: less_mult_imp_div_less)
    then show ?thesis by (simp add: unsigned_ucast_eq take_bit_eq_mod unat_drop_bit_div)
  qed
  ultimately show ?thesis by (simp add: uval_def uint_of_u64_def)
qed

lemma uval_add [refine]:
  "uint_wf a \<Longrightarrow> uint_wf b \<Longrightarrow> uval (uint_add a b) = (uval a + uval b) mod 2 ^ 256"
  using add_loop_val [of "pn a" "pn b" 0] by (simp add: uval_def uint_add_def uint_wf_def)

lemma uval_not [refine]: "uint_wf a \<Longrightarrow> uval (uint_not a) = 2 ^ 256 - 1 - uval a"
  using limbs_val_map_not [of "pn a"] by (simp add: uval_def uint_not_def uint_wf_def)

lemma uval_inc [refine]: "uint_wf a \<Longrightarrow> uval (uint_inc a) = (uval a + 1) mod 2 ^ 256"
  using inc_loop_val [of "pn a"] by (simp add: uval_def uint_inc_def uint_wf_def)

lemma uval_neg [refine]: "uint_wf a \<Longrightarrow> uval (uint_neg a) = (2 ^ 256 - uval a) mod 2 ^ 256"
proof -
  assume wf: "uint_wf a"
  then have "2 ^ 256 - 1 - uval a + 1 = 2 ^ 256 - uval a" using uval_less [OF wf] by linarith
  then show ?thesis
    using wf by (simp only: uint_neg_def uint_wf_ops uval_inc uval_not)
qed

lemma uval_sub:
  "uint_wf a \<Longrightarrow> uint_wf b \<Longrightarrow> uval (uint_sub a b) = (uval a + (2 ^ 256 - uval b)) mod 2 ^ 256"
  by (simp add: uint_sub_def uval_add uval_neg mod_add_right_eq)

lemma uval_sub_le [refine]:
  assumes "uint_wf a" "uint_wf b" "uval b \<le> uval a"
  shows "uval (uint_sub a b) = uval a - uval b"
proof -
  have "uval a < 2 ^ 256" "uval b < 2 ^ 256" using assms by (blast intro: uval_less)+
  then have "uval a + (2 ^ 256 - uval b) = (uval a - uval b) + 2 ^ 256" using assms(3) by simp
  moreover have "(uval a - uval b) mod 2 ^ 256 = uval a - uval b"
    using \<open>uval a < 2 ^ 256\<close> by simp
  ultimately show ?thesis by (simp only: uval_sub [OF assms(1,2)] mod_add_self2)
qed

lemma uval_mul32 [refine]:
  "uint_wf a \<Longrightarrow> uval (uint_mul32 a b) = unat b * uval a mod 2 ^ 256"
  using mul32_loop_val [of 0 b "pn a"] by (simp add: uval_def uint_mul32_def uint_wf_def)

lemma uval_mul [refine]:
  "uint_wf a \<Longrightarrow> uint_wf b \<Longrightarrow> uval (uint_mul a b) = uval a * uval b mod 2 ^ 256"
  using mul_rows_val [of "replicate WIDTH 0" "pn a" "pn b" WIDTH]
  by (simp add: uval_def uint_mul_def uint_wf_def del: WIDTH_eq) (simp)

lemma uval_shl [refine]: "uint_wf a \<Longrightarrow> uval (uint_shl a k) = uval a * 2 ^ k mod 2 ^ 256"
  using limbs_shl_val [of "pn a" k] by (simp add: uval_def uint_shl_def uint_wf_def)

lemma uval_shr [refine]: "uint_wf a \<Longrightarrow> uval (uint_shr a k) = uval a div 2 ^ k"
  using limbs_shr_val [of "pn a" k] by (simp add: uval_def uint_shr_def uint_wf_def)

lemma CompareTo_val [refine]:
  "uint_wf a \<Longrightarrow> uint_wf b \<Longrightarrow>
   CompareTo a b = (if uval a < uval b then -1 else if uval a > uval b then 1 else 0)"
  using cmp_loop_val [of WIDTH "pn a" "pn b"] by (simp add: CompareTo_def uval_def uint_wf_def del: WIDTH_eq)

lemma uint_bits_zero: "uint_wf a \<Longrightarrow> uint_bits a = 0 \<longleftrightarrow> uval a = 0"
  using bits_loop_bounds [of WIDTH "pn a"]
  by (auto simp: uint_bits_def uval_def uint_wf_def simp del: WIDTH_eq split: if_splits)

lemma uint_bits_bounds:
  assumes "uint_wf a" "uval a \<noteq> 0"
  shows "0 < uint_bits a" "uint_bits a \<le> 256" "2 ^ (uint_bits a - 1) \<le> uval a" "uval a < 2 ^ uint_bits a"
  using bits_loop_bounds [of WIDTH "pn a"] assms
  by (auto simp: uint_bits_def uval_def uint_wf_def split: if_splits)


lemma uval_setbit [refine]:
  "uint_wf q \<Longrightarrow> s < 256 \<Longrightarrow> \<not> bit (uval q) s \<Longrightarrow> uval (uint_setbit q s) = uval q + 2 ^ s"
  using limbs_setbit_val [of s "pn q"] by (simp add: uval_def uint_setbit_def uint_wf_def)

lemma div_loop_val:
  assumes "uint_wf num" "uint_wf dv" "uint_wf q" "0 < D" "n \<le> 256"
    and "n = 0 \<or> uval dv = D * 2 ^ (n - 1)"
    and "uval num < D * 2 ^ n" and "2 ^ n dvd uval q"
  shows "uint_wf (div_loop n num dv q) \<and> uval (div_loop n num dv q) = uval q + uval num div D"
  using assms
proof (induction n arbitrary: num dv q)
  case (Suc s)
  have dv: "uval dv = D * 2 ^ s" using Suc.prems(6) by simp
  have dv': "s = 0 \<or> uval (uint_shr dv 1) = D * 2 ^ (s - 1)"
    using Suc.prems(2) dv by (cases s) (simp_all add: uval_shr)
  have nb: "\<not> bit (uval q) s" using Suc.prems(8) by (rule not_bit_multiple)
  have q: "2 ^ s dvd uval q" using Suc.prems(8) by (metis dvd_trans le_imp_power_dvd le_SucI order_refl)
  show ?case
  proof (cases "uval num < uval dv")
    case True
    with Suc.prems have "\<not> CompareTo num dv \<ge> 0" by (simp add: CompareTo_val)
    moreover have "uval num < D * 2 ^ s" using True dv by simp
    ultimately show ?thesis
      using Suc.IH [of num "uint_shr dv 1" q] Suc.prems dv' q by simp
  next
    case False
    with Suc.prems have "CompareTo num dv \<ge> 0" by (simp add: CompareTo_val)
    moreover have num': "uval (uint_sub num dv) = uval num - D * 2 ^ s"
      using False Suc.prems dv by (simp add: uval_sub_le)
    moreover have "uval num - D * 2 ^ s < D * 2 ^ s" using Suc.prems(4,7) by (simp add: less_diff_conv2)
    moreover have q': "uval (uint_setbit q s) = uval q + 2 ^ s"
      using Suc.prems nb by (simp add: uval_setbit)
    moreover have "2 ^ s dvd uval q + 2 ^ s" using q by simp
    moreover have "uval num div D = (uval num - D * 2 ^ s) div D + 2 ^ s"
    proof -
      obtain m where "uval num = D * 2 ^ s + m"
        using False dv by (metis le_Suc_ex not_less)
      then show ?thesis using Suc.prems(4) by simp
    qed
    ultimately show ?thesis
      using Suc.IH [of "uint_sub num dv" "uint_shr dv 1" "uint_setbit q s"] Suc.prems dv' by simp
  qed
qed auto


lemma uint_div_val [refine]:
  assumes "uint_wf a" "uint_wf b" "uval b \<noteq> 0"
  shows "\<exists>q. uint_div a b = Inr q \<and> uint_wf q \<and> uval q = uval a div uval b"
proof (cases "uint_bits b > uint_bits a")
  case True
  have "uval a < uval b"
  proof (cases "uval a = 0")
    case False
    have "uval a < 2 ^ uint_bits a" using assms(1) False by (rule uint_bits_bounds)
    also have "\<dots> \<le> 2 ^ (uint_bits b - 1)" using True by (intro power_increasing) auto
    also have "\<dots> \<le> uval b" using assms(2,3) by (rule uint_bits_bounds)
    finally show ?thesis .
  qed (use assms in simp)
  with True assms show ?thesis by (auto simp: uint_div_def uint_bits_zero)
next
  case False
  let ?nb = "uint_bits a" and ?db = "uint_bits b"
  define s where "s = ?nb - ?db"
  have db: "0 < ?db" "2 ^ (?db - 1) \<le> uval b" "uval b < 2 ^ ?db"
    using uint_bits_bounds [OF assms(2,3)] by simp_all
  have "uval a \<noteq> 0" using False db(1) uint_bits_zero [OF assms(1)] by auto
  then have nb: "?nb \<le> 256" "uval a < 2 ^ ?nb" using uint_bits_bounds [OF assms(1)] by simp_all
  have eq: "?nb = ?db + s" using False by (simp add: s_def)
  have "uval b * 2 ^ s < 2 ^ ?nb" using db(3) by (simp add: eq power_add)
  also have "\<dots> \<le> 2 ^ 256" using nb(1) by (intro power_increasing) auto
  finally have shl: "uval (uint_shl b s) = uval b * 2 ^ s" using assms(2) by (simp add: uval_shl)
  have "2 ^ ?nb = 2 ^ (?db - 1) * (2::nat) ^ Suc s" using db(1) by (simp add: eq flip: power_add power_Suc)
  also have "\<dots> \<le> uval b * 2 ^ Suc s" using db(2) by (rule mult_right_mono) simp
  finally have "uval a < uval b * 2 ^ Suc s" using nb(2) by simp
  then have "uint_wf (div_loop (Suc s) a (uint_shl b s) uint_zero) \<and>
      uval (div_loop (Suc s) a (uint_shl b s) uint_zero) = uval uint_zero + uval a div uval b"
    using assms shl nb(1) db(1) eq by (intro div_loop_val) auto
  then show ?thesis
    using False db(1) by (simp add: uint_div_def Let_def s_def)
qed

lemma uint_div_zero [refine]: "uint_wf b \<Longrightarrow> uval b = 0 \<Longrightarrow> uint_div a b = Inl UintError"
  by (simp add: uint_div_def uint_bits_zero)

lemma GetLow64_val [refine]:
  assumes "uint_wf a"
  shows "unat (GetLow64 a) = uval a mod 2 ^ 64"
proof -
  have len: "2 \<le> length (pn a)" using assms by (simp add: uint_wf_def)
  have b: "bit (unat (GetLow64 a)) n \<longleftrightarrow> bit (take_bit 64 (uval a)) n" for n
  proof -
    have "n div 32 = 1 \<and> n mod 32 = n - 32" if "32 \<le> n" "n < 64"
      using that by (simp add: le_div_geq le_mod_geq)
    then show ?thesis
      using len by (cases "n < 32") (auto simp: GetLow64_def uval_def bit_unsigned_iff bit_or_iff bit_push_bit_iff
          bit_ucast_iff bit_take_bit_iff bit_limbs_val dest: bit_imp_le_length)
  qed
  show ?thesis
    unfolding take_bit_eq_mod [symmetric] by (intro bit_eqI) (rule b)
qed

section \<open>Correctness of the compact encoding\<close>

lemma and_mask23: "c AND 0x007fffff = take_bit 23 (c :: u32)"
proof -
  have "(0x007fffff :: u32) = mask 23" by (simp add: mask_eq_exp_minus_1)
  then show ?thesis by (simp only: take_bit_eq_mask)
qed

lemma and_bit23: "c AND 0x00800000 \<noteq> 0 \<longleftrightarrow> bit (c :: u32) 23"
proof -
  have "(0x00800000 :: u32) = push_bit 23 1" by simp
  then show ?thesis using bit_iff_and_push_bit_not_eq_0 [of c 23] by simp
qed

lemma unat_mantissa: "unat (c AND 0x007fffff) = compact_mantissa c"
  by (simp only: and_mask23 unat_take_bit_mod compact_mantissa_def)

lemma unat_size: "unat (drop_bit 24 c) = compact_size c"
  by (simp only: unat_drop_bit_div compact_size_def)

lemma compact_mantissa_less: "compact_mantissa c < 2 ^ 23"
  by (simp add: compact_mantissa_def)

lemma compact_size_less: "compact_size c < 256"
  using unat_u32_less [of c] by (simp add: compact_size_def less_mult_imp_div_less)

lemma overflow_threshold:
  fixes m s :: nat
  assumes "m < 2 ^ 23" "3 < s"
  shows "(m \<noteq> 0 \<and> (s > 34 \<or> m > 255 \<and> s > 33 \<or> m > 65535 \<and> s > 32)) \<longleftrightarrow> 2 ^ 256 \<le> m * 256 ^ (s - 3)"
proof -
  have e: "(2::nat) ^ 256 = 256 ^ 32" using pow_256 [of 32] by simp
  consider "s \<le> 32" | "s = 33" | "s = 34" | "s > 34" by linarith
  then show ?thesis
  proof cases
    case 1
    have "m * 256 ^ (s - 3) < 256 ^ 3 * 256 ^ (s - 3)" using assms by simp
    also have "\<dots> = (256::nat) ^ (3 + (s - 3))" by (simp only: power_add)
    also have "3 + (s - 3) = s" using assms(2) by simp
    also have "(256::nat) ^ s \<le> 256 ^ 32" using 1 by (intro power_increasing) auto
    finally show ?thesis using 1 e by simp
  next
    case 2
    then have "2 ^ 256 \<le> m * 256 ^ (s - 3) \<longleftrightarrow> 256 ^ 2 * 256 ^ 30 \<le> m * 256 ^ 30"
      by (simp only: e flip: power_add) simp
    also have "\<dots> \<longleftrightarrow> 256 ^ 2 \<le> m" by (simp only: mult_le_cancel2) simp
    finally show ?thesis using 2 by auto
  next
    case 3
    then have "2 ^ 256 \<le> m * 256 ^ (s - 3) \<longleftrightarrow> 256 ^ 1 * 256 ^ 31 \<le> m * 256 ^ 31"
      by (simp only: e flip: power_add) simp
    also have "\<dots> \<longleftrightarrow> 256 ^ 1 \<le> m" by (simp only: mult_le_cancel2) simp
    finally show ?thesis using 3 by auto
  next
    case 4
    have "2 ^ 256 \<le> m * 256 ^ (s - 3)" if "m \<noteq> 0"
    proof -
      have "(256::nat) ^ 32 \<le> 256 ^ (s - 3)" using 4 by (intro power_increasing) auto
      also have "\<dots> \<le> m * 256 ^ (s - 3)" using that by simp
      finally show ?thesis by (simp only: e)
    qed
    with 4 show ?thesis by (cases "m = 0") simp_all
  qed
qed

lemma SetCompact_val:
  assumes "SetCompact c = (v, neg, ovf)"
  shows "uint_wf v" and "uval v = compact_value c mod 2 ^ 256"
    and "neg \<longleftrightarrow> compact_value c \<noteq> 0 \<and> bit c 23"
    and "ovf \<longleftrightarrow> 2 ^ 256 \<le> compact_value c"
proof -
  let ?m = "compact_mantissa c" and ?s = "compact_size c"
  define w where "w = (if ?s \<le> 3 then drop_bit (8 * (3 - ?s)) (c AND 0x007fffff) else c AND 0x007fffff)"
  have w: "unat w = (if ?s \<le> 3 then ?m div 256 ^ (3 - ?s) else ?m)"
    by (cases "?s \<le> 3") (simp_all only: w_def if_True if_False unat_drop_bit_div unat_mantissa pow_256)
  have w64: "unat (ucast w :: u64) = unat w" by simp
  have v: "v = (if ?s \<le> 3 then uint_of_u64 (ucast w) else uint_shl (uint_of_u64 (ucast w)) (8 * (?s - 3)))"
    and n: "neg \<longleftrightarrow> w \<noteq> 0 \<and> c AND 0x00800000 \<noteq> 0"
    and o: "ovf \<longleftrightarrow> w \<noteq> 0 \<and> (?s > 34 \<or> w > 0xff \<and> ?s > 33 \<or> w > 0xffff \<and> ?s > 32)"
    using assms unfolding SetCompact_def Let_def unat_size w_def [symmetric] prod.inject by blast+
  have w0: "w \<noteq> 0 \<longleftrightarrow> compact_value c \<noteq> 0"
    using w unat_0_iff [of w] by (auto simp: compact_value_def)
  show "uint_wf v" by (simp add: v)
  have small: "compact_value c < 2 ^ 256" if "?s \<le> 3"
  proof -
    have "compact_value c \<le> ?m" using that by (simp add: compact_value_def)
    also have "\<dots> < 2 ^ 256" using compact_mantissa_less [of c] by (rule less_trans) simp
    finally show ?thesis .
  qed
  show "uval v = compact_value c mod 2 ^ 256"
  proof (cases "?s \<le> 3")
    case True
    then have "uval v = compact_value c"
      by (simp add: v uval_of_u64 w compact_value_def)
    then show ?thesis using small [OF True] by (simp only: mod_less)
  next
    case False
    then show ?thesis
      by (simp add: v uval_shl uval_of_u64 w pow_256 compact_value_def)
  qed
  show "neg \<longleftrightarrow> compact_value c \<noteq> 0 \<and> bit c 23"
    by (simp only: n w0 and_bit23)
  show "ovf \<longleftrightarrow> 2 ^ 256 \<le> compact_value c"
  proof (cases "?s \<le> 3")
    case True
    with small [OF True] o show ?thesis by (simp only: not_le [symmetric]) simp
  next
    case False
    have "w \<noteq> 0 \<longleftrightarrow> ?m \<noteq> 0" "w > 0xff \<longleftrightarrow> ?m > 255" "w > 0xffff \<longleftrightarrow> ?m > 65535"
      using w False unat_0_iff [of w] by (simp_all add: word_less_nat_alt)
    with o overflow_threshold [OF compact_mantissa_less [of c], of ?s] False show ?thesis
      by (simp only: compact_value_def if_False)
  qed
qed


lemma compact_value_of_parts:
  assumes "m < 2 ^ 23" and "s < 256"
  defines "c \<equiv> (of_nat (m + 2 ^ 24 * s) :: u32)"
  shows "compact_mantissa c = m" and "compact_size c = s" and "\<not> bit c 23"
proof -
  have "m + 2 ^ 24 * s < 2 ^ 32" using assms(1,2) by simp
  then have c: "unat c = m + 2 ^ 24 * s" by (simp only: c_def unat_of_nat) simp
  show "compact_size c = s" using assms(1) by (simp add: compact_size_def c)
  show "compact_mantissa c = m"
  proof -
    have "(m + 2 ^ 24 * s) mod 2 ^ 23 = (m + 2 ^ 23 * (2 * s)) mod 2 ^ 23" by simp
    also have "\<dots> = m" using assms(1) by (simp only: mod_mult_self2 mod_less)
    finally show ?thesis by (simp only: compact_mantissa_def c)
  qed
  have "(m + 2 ^ 24 * s) div 2 ^ 23 = 2 * s"
  proof -
    have "(m + 2 ^ 24 * s) div 2 ^ 23 = (m + 2 ^ 23 * (2 * s)) div 2 ^ 23" by simp
    also have "\<dots> = 2 * s" using assms(1) by (subst div_mult_self2) simp_all
    finally show ?thesis .
  qed
  then have "\<not> bit (unat c) 23" by (simp add: c bit_iff_odd)
  then show "\<not> bit c 23" by (simp add: bit_unsigned_iff)
qed

lemma byte_count_bounds:
  assumes "uint_wf a"
  shows "uval a < 256 ^ byte_count a" and "byte_count a \<le> 32"
    and "uval a \<noteq> 0 \<Longrightarrow> 0 < byte_count a \<and> 256 ^ (byte_count a - 1) \<le> uval a"
proof -
  let ?b = "uint_bits a" and ?n = "byte_count a"
  have nb: "?b \<le> 8 * ?n" "8 * ?n < ?b + 8" by (simp_all add: byte_count_def)
  have nz: "0 < ?b \<and> ?b \<le> 256 \<and> 2 ^ (?b - 1) \<le> uval a \<and> uval a < 2 ^ ?b" if "uval a \<noteq> 0"
    using uint_bits_bounds [OF assms that] by simp
  show "uval a < 256 ^ ?n"
  proof (cases "uval a = 0")
    case False
    then have "uval a < 2 ^ ?b" using nz by simp
    also have "\<dots> \<le> 2 ^ (8 * ?n)" using nb(1) by (intro power_increasing) auto
    finally show ?thesis by (simp only: pow_256)
  qed simp
  show "?n \<le> 32"
  proof (cases "uval a = 0")
    case True
    then have "?b = 0" using uint_bits_zero [OF assms] by simp
    then show ?thesis by (simp add: byte_count_def)
  next
    case False
    then show ?thesis using nz nb(2) by simp
  qed
  assume "uval a \<noteq> 0"
  note z = nz [OF this]
  have "0 < ?n" using z nb(1) by simp
  moreover have "8 * (?n - 1) \<le> ?b - 1" using nb(2) \<open>0 < ?n\<close> by simp
  then have "(2::nat) ^ (8 * (?n - 1)) \<le> 2 ^ (?b - 1)" by (intro power_increasing) auto
  then have "256 ^ (?n - 1) \<le> uval a" using z by (simp only: pow_256) simp
  ultimately show "0 < ?n \<and> 256 ^ (?n - 1) \<le> uval a" by simp
qed

lemma raw_mantissa_less:
  assumes "a < 256 ^ n"
  shows "raw_mantissa n a < 2 ^ 24"
proof (cases "n \<le> 3")
  case True
  have "a * 256 ^ (3 - n) < 256 ^ n * 256 ^ (3 - n)" using assms by simp
  also have "\<dots> = 256 ^ (n + (3 - n))" by (simp only: power_add)
  also have "n + (3 - n) = 3" using True by simp
  finally show ?thesis using True by (simp add: raw_mantissa_def)
next
  case False
  have "(256::nat) ^ n = 256 ^ (3 + (n - 3))" using False by simp
  also have "\<dots> = 256 ^ 3 * 256 ^ (n - 3)" by (rule power_add)
  finally have "a < 256 ^ 3 * 256 ^ (n - 3)" using assms by (simp only:)
  then have "a div 256 ^ (n - 3) < 256 ^ 3" by (rule less_mult_imp_div_less)
  with False show ?thesis by (simp add: raw_mantissa_def)
qed


lemma unat_or_push24:
  assumes "unat (m :: u32) < 2 ^ 23" and "s < 256"
  shows "m OR push_bit 24 (of_nat s) = of_nat (unat m + 2 ^ 24 * s)"
proof -
  have "m AND push_bit 24 (of_nat s) = 0"
  proof (rule bit_word_eqI)
    fix n :: nat
    have "\<not> bit m n" if "24 \<le> n"
    proof
      assume "bit m n"
      then have "bit (unat m) n" using bit_imp_le_length [of m n] by (simp add: bit_unsigned_iff)
      then have "2 ^ n \<le> unat m" by (rule bit_nat_ge)
      moreover have "(2::nat) ^ 23 \<le> 2 ^ n" using that by (intro power_increasing) auto
      ultimately show False using assms(1) by simp
    qed
    then show "bit (m AND push_bit 24 (of_nat s)) n \<longleftrightarrow> bit 0 n"
      by (auto simp: bit_and_iff bit_push_bit_iff)
  qed
  then have "m OR push_bit 24 (of_nat s) = m + push_bit 24 (of_nat s)"
    by (simp add: disjunctive_add_eq_or)
  also have "\<dots> = of_nat (unat m + 2 ^ 24 * s)"
    by (simp add: push_bit_eq_mult)
  finally show ?thesis .
qed

lemma and_not_mask23: "m AND NOT 0x007fffff = 0 \<longleftrightarrow> unat (m :: u32) < 2 ^ 23"
proof -
  have "(0x007fffff :: u32) = mask 23" by (simp add: mask_eq_exp_minus_1)
  then have "m AND NOT 0x007fffff = 0 \<longleftrightarrow> m AND NOT (mask 23) = 0" by (simp only:)
  also have "\<dots> \<longleftrightarrow> take_bit 23 m = m"
    by (auto simp: bit_eq_iff bit_and_iff bit_not_iff bit_mask_iff bit_take_bit_iff)
  also have "\<dots> \<longleftrightarrow> unat m < 2 ^ 23"
    by (metis take_bit_nat_eq_self_iff unsigned_take_bit_eq unsigned_word_eqI)
  finally show ?thesis .
qed


lemma GetCompact_parts:
  assumes "uint_wf a"
  defines "n \<equiv> byte_count a"
  defines "m \<equiv> raw_mantissa n (uval a)"
  shows "GetCompact a False =
    Inr (of_nat (if m < 2 ^ 23 then m + 2 ^ 24 * n else m div 256 + 2 ^ 24 * (n + 1)))"
proof -
  have n32: "n \<le> 32" and an: "uval a < 256 ^ n"
    using byte_count_bounds [OF assms(1)] by (simp_all add: n_def)
  have m: "m < 2 ^ 24" unfolding m_def by (rule raw_mantissa_less [OF an])
  define c0 :: u32 where "c0 = (if n \<le> 3 then ucast (push_bit (8 * (3 - n)) (GetLow64 a))
                       else ucast (GetLow64 (uint_shr a (8 * (n - 3)))))"
  have ucast32: "unat (ucast x :: u32) = unat x mod 2 ^ 32" for x :: u64
    by (simp add: unsigned_ucast_eq take_bit_eq_mod)
  have c0: "unat c0 = m"
  proof (cases "n \<le> 3")
    case True
    then have meq: "m = uval a * 256 ^ (3 - n)" by (simp add: m_def raw_mantissa_def)
    have "uval a \<le> m" by (simp add: meq)
    then have low: "unat (GetLow64 a) = uval a" using m assms(1) by (simp add: GetLow64_val)
    have "unat (push_bit (8 * (3 - n)) (GetLow64 a)) = take_bit 64 (push_bit (8 * (3 - n)) (uval a))"
      by (subst unsigned_push_bit_eq) (simp_all add: low)
    also have "\<dots> = m mod 2 ^ 64"
      by (simp only: take_bit_eq_mod push_bit_eq_mult pow_256 meq)
    finally have "unat (push_bit (8 * (3 - n)) (GetLow64 a)) = m" using m by simp
    with True m show ?thesis by (simp add: c0_def ucast32)
  next
    case False
    then have "uval (uint_shr a (8 * (n - 3))) = m"
      using assms(1) by (simp add: m_def raw_mantissa_def uval_shr pow_256)
    with False m show ?thesis by (simp add: c0_def ucast32 GetLow64_val)
  qed
  have sign: "c0 AND 0x00800000 \<noteq> 0 \<longleftrightarrow> \<not> m < 2 ^ 23"
  proof -
    have "bit c0 23 \<longleftrightarrow> bit m 23" by (simp add: bit_unsigned_iff flip: c0)
    also have "\<dots> \<longleftrightarrow> \<not> m < 2 ^ 23"
      using m not_bit_nat_less [of m 23] bit_nat_ge [of m 23] by auto
    finally show ?thesis by (simp only: and_bit23)
  qed
  define c1 where "c1 = (if c0 AND 0x00800000 \<noteq> 0 then drop_bit 8 c0 else c0)"
  define s where "s = (if c0 AND 0x00800000 \<noteq> 0 then n + 1 else n)"
  have c1: "unat c1 = (if m < 2 ^ 23 then m else m div 256)"
    by (cases "m < 2 ^ 23")
      (simp_all only: c1_def sign if_True if_False not_True_eq_False not_False_eq_True unat_drop_bit_div c0, simp)
  have c1l: "unat c1 < 2 ^ 23" using m by (auto simp: c1 intro!: less_mult_imp_div_less)
  have seq: "s = (if m < 2 ^ 23 then n else n + 1)" by (simp only: s_def sign) simp
  have s: "s < 256" using n32 by (simp add: seq)
  have asrt: "c1 AND NOT 0x007fffff = 0" using c1l by (simp only: and_not_mask23)
  have "GetCompact a False = Inr (c1 OR push_bit 24 (of_nat s))"
    unfolding GetCompact_def Let_def byte_count_def [symmetric] n_def [symmetric] c0_def [symmetric]
      c1_def [symmetric] s_def [symmetric] asrt by (simp add: s)
  then show ?thesis
    by (simp only: unat_or_push24 [OF c1l s] c1) (simp add: seq)
qed


lemma GetCompact_value:
  assumes "uint_wf a"
  shows "\<exists>c k. GetCompact a False = Inr c \<and> \<not> bit c 23 \<and>
    compact_value c = uval a div 256 ^ k * 256 ^ k \<and> (k = 0 \<or> 2 ^ 15 \<le> uval a div 256 ^ k)"
proof -
  define n where "n = byte_count a"
  define m where "m = raw_mantissa n (uval a)"
  have n32: "n \<le> 32" and an: "uval a < 256 ^ n"
    using byte_count_bounds [OF assms] by (simp_all add: n_def)
  have m24: "m < 2 ^ 24" unfolding m_def by (rule raw_mantissa_less [OF an])
  show ?thesis
  proof (cases "m < 2 ^ 23")
    case True
    define c :: u32 where "c = of_nat (m + 2 ^ 24 * n)"
    have G: "GetCompact a False = Inr c"
      using GetCompact_parts [OF assms] True by (simp only: c_def m_def n_def if_True)
    have c: "compact_mantissa c = m" "compact_size c = n" "\<not> bit c 23"
      using compact_value_of_parts [of m n] True n32 by (simp_all only: c_def) auto
    show ?thesis
    proof (cases "n \<le> 3")
      case True
      then have "compact_value c = uval a div 256 ^ 0 * 256 ^ 0"
        by (simp add: compact_value_def c m_def raw_mantissa_def)
      with G c show ?thesis by blast
    next
      case False
      then have "uval a \<noteq> 0" using byte_count_bounds(1) [OF assms] uint_bits_zero [OF assms]
        by (auto simp: n_def byte_count_def)
      then have "256 ^ (n - 1) \<le> uval a" using byte_count_bounds(3) [OF assms] by (simp add: n_def)
      then have "256 ^ (n - 1) div 256 ^ (n - 3) \<le> uval a div 256 ^ (n - 3)" by (rule div_le_mono)
      moreover have "n - 1 = 2 + (n - 3)" using False by simp
      then have "(256::nat) ^ (n - 1) = 256 ^ 2 * 256 ^ (n - 3)" by (simp only: power_add)
      ultimately have "2 ^ 15 \<le> uval a div 256 ^ (n - 3)" by simp
      moreover have "compact_value c = uval a div 256 ^ (n - 3) * 256 ^ (n - 3)"
        using False by (simp add: compact_value_def c m_def raw_mantissa_def)
      ultimately show ?thesis using G c by blast
    qed
  next
    case False
    define c :: u32 where "c = of_nat (m div 256 + 2 ^ 24 * (n + 1))"
    have G: "GetCompact a False = Inr c"
      using GetCompact_parts [OF assms] False by (simp only: c_def m_def n_def if_False)
    have "m div 256 < 2 ^ 23" using m24 by simp
    then have c: "compact_mantissa c = m div 256" "compact_size c = n + 1" "\<not> bit c 23"
      using compact_value_of_parts [of "m div 256" "n + 1"] n32 by (simp_all only: c_def) auto
    show ?thesis
    proof (cases "n \<le> 2")
      case True
      have "3 - n = Suc (2 - n)" using True by simp
      then have "m = uval a * 256 ^ (2 - n) * 256"
        using True by (simp add: m_def raw_mantissa_def)
      then have "compact_value c = uval a div 256 ^ 0 * 256 ^ 0"
        using True by (simp add: compact_value_def c)
      with G c show ?thesis by blast
    next
      case n3: False
      have m: "m = uval a div 256 ^ (n - 3)"
        using n3 by (cases "n = 3") (simp_all add: m_def raw_mantissa_def)
      have "m div 256 = uval a div (256 ^ (n - 3) * 256)" by (simp only: m div_mult2_eq)
      also have "(256::nat) ^ (n - 3) * 256 = 256 ^ Suc (n - 3)" by (simp only: power_Suc2)
      also have "Suc (n - 3) = n - 2" using n3 by simp
      finally have m': "m div 256 = uval a div 256 ^ (n - 2)" .
      have "2 ^ 15 \<le> m div 256" using False by simp
      moreover have "compact_value c = m div 256 * 256 ^ (n - 2)"
        using n3 by (simp add: compact_value_def c)
      ultimately show ?thesis using G c unfolding m' by blast
    qed
  qed
qed

lemma GetCompact_total: "uint_wf a \<Longrightarrow> \<exists>c. GetCompact a False = Inr c"
  using GetCompact_value by blast

lemma compact_round_down:
  assumes "uint_wf a" and "GetCompact a False = Inr c" and "SetCompact c = (v, neg, ovf)"
  shows "\<not> neg" "\<not> ovf" "uint_wf v" "uval v \<le> uval a"
    "\<exists>k. uval v = uval a div 256 ^ k * 256 ^ k \<and> (k = 0 \<or> 2 ^ 15 \<le> uval a div 256 ^ k)"
proof -
  obtain k where c: "\<not> bit c 23" "compact_value c = uval a div 256 ^ k * 256 ^ k"
      "k = 0 \<or> 2 ^ 15 \<le> uval a div 256 ^ k"
    using GetCompact_value [OF assms(1)] assms(2) by auto
  have le: "compact_value c \<le> uval a" by (simp only: c div_times_less_eq_dividend)
  also have lt: "uval a < 2 ^ 256" by (rule uval_less [OF assms(1)])
  finally have "compact_value c < 2 ^ 256" .
  note S = SetCompact_val [OF assms(3)]
  show "\<not> neg" using S(3) c(1) by blast
  show "\<not> ovf" using S(4) \<open>compact_value c < 2 ^ 256\<close> by (simp only: not_le)
  show "uint_wf v" by (rule S(1))
  have v: "uval v = compact_value c" using S(2) \<open>compact_value c < 2 ^ 256\<close> by (simp only: mod_less)
  show "uval v \<le> uval a" using v le by simp
  show "\<exists>k. uval v = uval a div 256 ^ k * 256 ^ k \<and> (k = 0 \<or> 2 ^ 15 \<le> uval a div 256 ^ k)"
    using v c by auto
qed

section \<open>Equality, bitwise operators, canonical codes\<close>

lemma limbs_val_eq_0: "limbs_val ps = 0 \<longleftrightarrow> list_all (\<lambda>p. p = 0) ps"
  by (induction ps) (auto simp: unat_0_iff)

lemma limbs_val_bitwise:
  assumes "length ps = length qs" and "\<And>p q n. bit (f p q) n \<longleftrightarrow> g (bit p n) (bit q n)"
    and "\<not> g False False" and "\<And>x y n. bit (h x y) n \<longleftrightarrow> g (bit x n) (bit y n)"
  shows "limbs_val (map2 f ps qs) = h (limbs_val ps) (limbs_val qs)"
proof (rule bit_eqI)
  fix n
  show "bit (limbs_val (map2 f ps qs)) n \<longleftrightarrow> bit (h (limbs_val ps) (limbs_val qs)) n"
    using assms by (cases "n div 32 < length qs") (auto simp: bit_limbs_val)
qed

lemma uval_and [refine]: "uint_wf a \<Longrightarrow> uint_wf b \<Longrightarrow> uval (uint_and a b) = uval a AND uval b"
  unfolding uval_def uint_and_def uint_wf_def base_uint.simps
  by (rule limbs_val_bitwise [where g = "(\<and>)"]) (simp_all add: bit_and_iff)

lemma uval_or [refine]: "uint_wf a \<Longrightarrow> uint_wf b \<Longrightarrow> uval (uint_or a b) = uval a OR uval b"
  unfolding uval_def uint_or_def uint_wf_def base_uint.simps
  by (rule limbs_val_bitwise [where g = "(\<or>)"]) (simp_all add: bit_or_iff)

lemma uval_xor [refine]: "uint_wf a \<Longrightarrow> uint_wf b \<Longrightarrow> uval (uint_xor a b) = uval a XOR uval b"
  unfolding uval_def uint_xor_def uint_wf_def base_uint.simps
  by (rule limbs_val_bitwise [where g = "(\<noteq>)"]) (simp_all add: bit_xor_iff)

lemma limbs_val_inj: "length ps = length qs \<Longrightarrow> limbs_val ps = limbs_val qs \<Longrightarrow> ps = qs"
proof (induction ps qs rule: list_induct2)
  case (Cons p ps q qs)
  have "unat p = unat q \<and> limbs_val ps = limbs_val qs"
  proof -
    have "(unat p + 2 ^ 32 * limbs_val ps) mod 2 ^ 32 = (unat q + 2 ^ 32 * limbs_val qs) mod 2 ^ 32"
      and "(unat p + 2 ^ 32 * limbs_val ps) div 2 ^ 32 = (unat q + 2 ^ 32 * limbs_val qs) div 2 ^ 32"
      using Cons.prems by simp_all
    then show ?thesis by (simp add: unat_u32_less_numeral)
  qed
  with Cons.IH show ?case by (simp add: word_unat_eq_iff)
qed simp

lemma uval_inj: "uint_wf a \<Longrightarrow> uint_wf b \<Longrightarrow> uval a = uval b \<longleftrightarrow> a = b"
  using limbs_val_inj [of "pn a" "pn b"] by (auto simp: uval_def uint_wf_def)

lemma EqualTo_val [refine]:
  assumes "uint_wf a"
  shows "EqualTo a n \<longleftrightarrow> uval a = unat n"
proof -
  obtain p0 p1 ps where a: "pn a = p0 # p1 # ps" "length ps = 6"
    using assms by (auto simp: uint_wf_def length_Suc_conv numeral_eq_Suc)
  have hi: "\<not> list_ex (\<lambda>i. pn a ! i \<noteq> 0) (rev [2 ..< WIDTH]) \<longleftrightarrow> ps = replicate (WIDTH - 2) 0"
    using a by (auto simp: length_Suc_conv numeral_eq_Suc)
  have p1: "ucast p1 = drop_bit 32 n \<longleftrightarrow> p1 = ucast (drop_bit 32 n)"
  proof -
    have "unat n < 2 ^ 64" using unsigned_less [of n] by simp
    then have "unat n div 2 ^ 32 < 2 ^ 32" by (simp add: less_mult_imp_div_less)
    then have "unat (ucast (drop_bit 32 n) :: u32) = unat (drop_bit 32 n)"
      by (simp add: unsigned_ucast_eq take_bit_eq_mod unat_drop_bit_div)
    then show ?thesis by (metis unat_ucast_32_64 word_unat_eq_iff)
  qed
  have p0: "ucast p0 = n AND 0xffffffff \<longleftrightarrow> p0 = ucast n"
  proof -
    have m: "(0xffffffff :: u64) = mask 32" by (simp add: mask_eq_exp_minus_1)
    have "unat (n AND 0xffffffff) = unat n mod 2 ^ 32"
      unfolding m take_bit_eq_mask [symmetric] by (rule unat_take_bit_mod)
    moreover have "unat (ucast n :: u32) = unat n mod 2 ^ 32"
      by (simp add: unsigned_ucast_eq take_bit_eq_mod)
    ultimately show ?thesis by (metis unat_ucast_32_64 word_unat_eq_iff)
  qed
  have "a = uint_of_u64 n \<longleftrightarrow> EqualTo a n"
    unfolding EqualTo_def hi using a p0 p1 by (cases a) (auto simp: uint_of_u64_def)
  then show ?thesis
    using uval_inj [OF assms, of "uint_of_u64 n"] by (simp add: uval_of_u64)
qed

lemma inc_dec_loop: "inc_loop (dec_loop ps) = ps"
  by (induction ps) auto

lemma uint_inc_dec: "uint_inc (uint_dec a) = a"
  by (simp add: uint_inc_def uint_dec_def inc_dec_loop)

lemma unat_compact: "unat c = compact_mantissa c + (if bit c 23 then 2 ^ 23 else 0) + 2 ^ 24 * compact_size c"
proof -
  have "unat c mod 2 ^ 24 = unat c mod 2 ^ 23 + (unat c div 2 ^ 23) mod 2 * 2 ^ 23"
    using mod_mult2_eq [of "unat c" "2 ^ 23" 2] by simp
  moreover have "(unat c div 2 ^ 23) mod 2 = (if bit c 23 then 1 else 0)"
  proof -
    have "bit c 23 \<longleftrightarrow> odd (unat c div 2 ^ 23)"
      using bit_unsigned_iff [of c 23, where 'a = nat] by (simp add: bit_iff_odd)
    then show ?thesis by (simp add: odd_iff_mod_2_eq_one)
  qed
  moreover have "unat c = unat c mod 2 ^ 24 + 2 ^ 24 * (unat c div 2 ^ 24)" by simp
  ultimately show ?thesis
    by (cases "bit c 23") (simp_all add: compact_mantissa_def compact_size_def)
qed

lemma GetCompact_canonical:
  assumes "uint_wf v" and "uval v = compact_value c" and "3 \<le> compact_size c"
    and "2 ^ 15 \<le> compact_mantissa c" and "\<not> bit c 23"
  shows "GetCompact v False = Inr c"
proof -
  let ?s = "compact_size c" and ?m = "compact_mantissa c"
  define n where "n = byte_count v"
  have val: "uval v = ?m * 256 ^ (?s - 3)"
    using assms(2,3) by (cases "?s = 3") (simp_all add: compact_value_def)
  have "uval v \<noteq> 0" using assms(4) val by simp
  then have n: "uval v < 256 ^ n" "0 < n" "256 ^ (n - 1) \<le> uval v"
    using byte_count_bounds [OF assms(1)] by (simp_all add: n_def)
  have c: "c = of_nat (?m + 2 ^ 24 * ?s)"
  proof -
    have "c = of_nat (unat c)" by simp
    also have "unat c = ?m + 2 ^ 24 * ?s" using unat_compact [of c] assms(5) by simp
    finally show ?thesis .
  qed
  have "(of_nat ?m :: u32) + 16777216 * of_nat ?s = of_nat (?m + 2 ^ 24 * ?s)" by simp
  note c' = trans [OF this c [symmetric]]
  have m: "?m < 2 ^ 23" by (rule compact_mantissa_less)
  have neq: "n = (if 2 ^ 16 \<le> ?m then ?s else ?s - 1)"
  proof (cases "2 ^ 16 \<le> ?m")
    case True
    have "?s - 1 = 2 + (?s - 3)" using assms(3) by simp
    then have "256 ^ (?s - 1) = 256 ^ 2 * (256::nat) ^ (?s - 3)" by (simp only: power_add)
    also have "\<dots> \<le> uval v" using True by (simp add: val)
    finally have lo: "256 ^ (?s - 1) \<le> uval v" .
    have "uval v < 256 ^ 3 * 256 ^ (?s - 3)" using m by (simp add: val)
    also have "\<dots> = 256 ^ (3 + (?s - 3))" by (simp only: power_add)
    also have "3 + (?s - 3) = ?s" using assms(3) by simp
    finally show ?thesis
      using pow256_unique [OF n(3,1) lo _ n(2)] assms(3) True by simp
  next
    case False
    have "?s - 1 - 1 = 1 + (?s - 3)" using assms(3) by simp
    then have "256 ^ (?s - 1 - 1) = 256 ^ 1 * (256::nat) ^ (?s - 3)" by (simp only: power_add)
    also have "\<dots> \<le> uval v" using assms(4) by (simp add: val)
    finally have lo: "256 ^ (?s - 1 - 1) \<le> uval v" .
    have "uval v < 256 ^ 2 * 256 ^ (?s - 3)" using False by (simp add: val)
    also have "\<dots> = 256 ^ (2 + (?s - 3))" by (simp only: power_add)
    also have "2 + (?s - 3) = ?s - 1" using assms(3) by simp
    finally show ?thesis
      using pow256_unique [OF n(3,1) lo _ n(2)] assms(3) False by simp
  qed
  show ?thesis
  proof (cases "2 ^ 16 \<le> ?m")
    case True
    have "raw_mantissa ?s (uval v) = ?m"
      using assms(3) by (cases "?s = 3") (simp_all add: raw_mantissa_def val)
    with GetCompact_parts [OF assms(1), folded n_def] True m neq show ?thesis
      by (simp add: c')
  next
    case False
    have raw: "raw_mantissa (?s - 1) (uval v) = ?m * 256"
    proof (cases "?s \<le> 4")
      case True
      then have "?s = 3 \<or> ?s = 4" using assms(3) by auto
      then show ?thesis by (auto simp: raw_mantissa_def val)
    next
      case False
      then obtain j where "?s = j + 5" by (metis add.commute le_Suc_ex not_less_eq_eq numeral_eq_Suc pred_numeral_simps(3))
      then show ?thesis by (simp add: raw_mantissa_def val)
    qed
    have "?s - 1 + 1 = ?s" using assms(3) by simp
    with GetCompact_parts [OF assms(1), folded n_def] False raw assms(4) neq show ?thesis
      by (simp add: c')
  qed
qed


lemma ReadLE32_WriteLE32 [simp]: "ReadLE32 (WriteLE32 x @ bs) = x"
proof (rule bit_word_eqI)
  fix n :: nat
  assume n: "n < LENGTH(32)"
  consider "n < 8" | "8 \<le> n" "n < 16" | "16 \<le> n" "n < 24" | "24 \<le> n" by linarith
  then show "bit (ReadLE32 (WriteLE32 x @ bs)) n \<longleftrightarrow> bit x n"
    using n by cases (auto simp: ReadLE32_def WriteLE32_def bit_or_iff bit_push_bit_iff bit_ucast_iff bit_drop_bit_eq)
qed

lemma WriteLE32_ReadLE32: "WriteLE32 (ReadLE32 (b0 # b1 # b2 # b3 # bs)) = [b0, b1, b2, b3]"
proof -
  let ?r = "ReadLE32 (b0 # b1 # b2 # b3 # bs)"
  have r: "bit ?r n \<longleftrightarrow> n < 32 \<and>
      (if n < 8 then bit b0 n else if n < 16 then bit b1 (n - 8)
       else if n < 24 then bit b2 (n - 16) else bit b3 (n - 24))" for n
  proof -
    consider "n < 8" | "8 \<le> n" "n < 16" | "16 \<le> n" "n < 24" | "24 \<le> n" by linarith
    then show ?thesis
      by cases (auto simp: ReadLE32_def bit_or_iff bit_push_bit_iff bit_ucast_iff bit_u8_ge)
  qed
  have "ucast ?r = b0" "ucast (drop_bit 8 ?r) = b1" "ucast (drop_bit 16 ?r) = b2" "ucast (drop_bit 24 ?r) = b3"
    by (rule bit_word_eqI; simp add: bit_ucast_iff bit_drop_bit_eq r)+
  then show ?thesis by (simp add: WriteLE32_def)
qed

section \<open>Byte blobs\<close>

lemma length_WriteLE32 [simp]: "length (WriteLE32 x) = 4"
  by (simp add: WriteLE32_def)

lemma WriteLE32_ReadLE32_drop:
  assumes "4 \<le> length bs"
  shows "WriteLE32 (ReadLE32 bs) = take 4 bs"
proof -
  obtain b0 b1 b2 b3 rest where "bs = b0 # b1 # b2 # b3 # rest"
    using assms by (auto simp: numeral_eq_Suc Suc_le_length_iff)
  then show ?thesis by (simp add: WriteLE32_ReadLE32)
qed

lemma UintToArith256_ArithToUint256:
  assumes "uint_wf a"
  shows "UintToArith256 (ArithToUint256 a) = a"
proof -
  have "ReadLE32 (drop (x * 4) (ArithToUint256 a)) = pn a ! x" if "x < WIDTH" for x
  proof -
    have "[0 ..< WIDTH] = [0 ..< x] @ x # [Suc x ..< WIDTH]"
      using that by (metis upt_add_eq_append upt_conv_Cons le0 less_imp_le add_diff_inverse_nat not_less zero_le)
    then have "drop x [0 ..< WIDTH] = x # [Suc x ..< WIDTH]" by simp
    then have "drop (x * 4) (ArithToUint256 a) =
        WriteLE32 (pn a ! x) @ concat (map (\<lambda>x. WriteLE32 (pn a ! x)) [Suc x ..< WIDTH])"
      unfolding ArithToUint256_def by (subst drop_concat_chunks) simp_all
    then show ?thesis by simp
  qed
  then have "map (\<lambda>x. ReadLE32 (drop (x * 4) (ArithToUint256 a))) [0 ..< WIDTH] = map (\<lambda>x. pn a ! x) [0 ..< WIDTH]"
    by simp
  also have "\<dots> = pn a" using assms by (metis uint_wf_def map_nth)
  finally show ?thesis by (simp add: UintToArith256_def)
qed

lemma ArithToUint256_UintToArith256:
  assumes "length bs = 32"
  shows "ArithToUint256 (UintToArith256 bs) = bs"
proof -
  have "WriteLE32 (pn (UintToArith256 bs) ! x) = take 4 (drop (x * 4) bs)" if "x < WIDTH" for x
    using that assms by (simp add: UintToArith256_def WriteLE32_ReadLE32_drop)
  then have "ArithToUint256 (UintToArith256 bs) = concat (map (\<lambda>x. take 4 (drop (x * 4) bs)) [0 ..< WIDTH])"
    unfolding ArithToUint256_def by (intro arg_cong [where f = concat] map_cong) simp_all
  also have "\<dots> = bs" using assms by (subst concat_chunks) simp
  finally show ?thesis .
qed

section \<open>The contract of the big integers\<close>

interpretation arith: wrapping_uint uint_wf uval 256 uint_of_u64 uint_not uint_add uint_sub uint_mul
  uint_div CompareTo
proof unfold_locales
  show "\<exists>q. uint_div a b = Inr q \<and> uint_wf q \<and> uval q = uval a div uval b"
    if "uint_wf a" "uint_wf b" "uval b \<noteq> 0" for a b
    using that by (rule uint_div_val)
qed (assumption | rule uval_less uint_wf_ops refine | simp)+

section \<open>What the big-number class promises\<close>

lemma int_wrapping_diff:
  "y \<le> m \<Longrightarrow> int ((x + (m - y)) mod m) = (int x - int y) mod int m"
proof -
  assume "y \<le> m"
  then have "int (x + (m - y)) = int x - int y + int m" by simp
  then show ?thesis by (simp only: zmod_int mod_add_self2)
qed

text \<open>The 256-bit arithmetic is arithmetic modulo \<open>2 ^ 256\<close> on the number the limbs denote: sums,
  differences, products, products by a 32-bit factor, negation, shifts and comparison of well-formed
  numbers of \<^verbatim>\<open>base_uint<256>\<close> compute exactly that, and keep the numbers well-formed.\<close>

theorem arith_refines_modular:
  assumes "uint_wf a" "uint_wf b"
  shows "uint_wf (uint_add a b) \<and> uval (uint_add a b) = (uval a + uval b) mod 2 ^ 256
    \<and> uint_wf (uint_sub a b) \<and> int (uval (uint_sub a b)) = (int (uval a) - int (uval b)) mod 2 ^ 256
    \<and> uint_wf (uint_mul a b) \<and> uval (uint_mul a b) = uval a * uval b mod 2 ^ 256
    \<and> uint_wf (uint_mul32 a m) \<and> uval (uint_mul32 a m) = uval a * unat m mod 2 ^ 256
    \<and> uint_wf (uint_neg a) \<and> int (uval (uint_neg a)) = (- int (uval a)) mod 2 ^ 256
    \<and> uint_wf (uint_shl a k) \<and> uval (uint_shl a k) = uval a * 2 ^ k mod 2 ^ 256
    \<and> uint_wf (uint_shr a k) \<and> uval (uint_shr a k) = uval a div 2 ^ k
    \<and> CompareTo a b = sgn (int (uval a) - int (uval b))"
proof -
  have "uval a \<le> 2 ^ 256" "uval b \<le> 2 ^ 256" using assms uval_less less_imp_le by blast+
  note d = int_wrapping_diff [OF this(2), of "uval a"] int_wrapping_diff [OF this(1), of 0]
  have "int (uval (uint_sub a b)) = (int (uval a) - int (uval b)) mod 2 ^ 256"
    using d(1) by (simp only: uval_sub assms of_nat_power of_nat_numeral)
  moreover have "int (uval (uint_neg a)) = (- int (uval a)) mod 2 ^ 256"
    using d(2) by (simp only: uval_neg assms of_nat_power of_nat_numeral int_ops(1) add_0 diff_0)
  moreover have "CompareTo a b = sgn (int (uval a) - int (uval b))" using assms by (simp add: CompareTo_val)
  moreover have "uval (uint_mul32 a m) = uval a * unat m mod 2 ^ 256"
    using assms by (simp only: uval_mul32 mult.commute)
  ultimately show ?thesis
    using assms by (intro conjI uint_wf_ops uval_add uval_mul uval_shl uval_shr)
qed

theorem arith_refines_modular_witness:
  "uval (uint_add (uint_of_u64 7) (uint_of_u64 9)) = 16 \<and>
   int (uval (uint_sub (uint_of_u64 7) (uint_of_u64 9))) = (- 2) mod 2 ^ 256 \<and>
   CompareTo (uint_of_u64 7) (uint_of_u64 9) = - 1"
  using arith_refines_modular [of "uint_of_u64 7" "uint_of_u64 9"] by (simp add: uval_of_u64)

text \<open>Division of well-formed 256-bit numbers throws the \<open>uint_error\<close> exception exactly when the divisor is
  zero; otherwise the shift-and-subtract loop ends with the floor quotient.\<close>

theorem division_is_floor_quotient:
  assumes "uint_wf a" "uint_wf b"
  shows "(uval b = 0 \<and> uint_div a b = Inl UintError) \<or>
    (uval b > 0 \<and> (\<exists>q. uint_div a b = Inr q \<and> uint_wf q \<and> uval q = uval a div uval b))"
  using assms uint_div_zero uint_div_val by (cases "uval b = 0") auto

theorem division_is_floor_quotient_witness:
  "\<exists>q. uint_div (uint_of_u64 1000) (uint_of_u64 7) = Inr q \<and> uval q = 142"
  using division_is_floor_quotient [of "uint_of_u64 1000" "uint_of_u64 7"] by (auto simp: uval_of_u64)

lemma GetCompact_rounds_down:
  assumes "uint_wf a"
  shows "\<exists>c v. GetCompact a False = Inr c \<and> SetCompact c = (v, False, False) \<and> uint_wf v
    \<and> uval v \<le> uval a \<and> 2 ^ 15 * (uval a - uval v) \<le> uval v"
proof -
  obtain c where c: "GetCompact a False = Inr c" using GetCompact_total [OF assms] by blast
  obtain v neg ovf where v: "SetCompact c = (v, neg, ovf)" by (cases "SetCompact c")
  note r = compact_round_down [OF assms c v]
  obtain k where k: "uval v = uval a div 256 ^ k * 256 ^ k" "k = 0 \<or> 2 ^ 15 \<le> uval a div 256 ^ k"
    using r(5) by blast
  have "2 ^ 15 * (uval a - uval v) \<le> uval v"
  proof (cases "k = 0")
    case False
    have "uval a - uval v = uval a mod 256 ^ k" by (simp add: k(1) minus_div_mult_eq_mod)
    also have "\<dots> \<le> 256 ^ k" by (simp add: less_imp_le)
    finally have "2 ^ 15 * (uval a - uval v) \<le> 2 ^ 15 * 256 ^ k" by (rule mult_left_mono) simp
    also have "\<dots> \<le> uval v" unfolding k(1) using k(2) False by (intro mult_right_mono) auto
    finally show ?thesis .
  qed (use k in simp)
  with c v r(1-4) show ?thesis by auto
qed

text \<open>The compact encoding of a target always exists, is decoded without the negative or the overflow flag, and
  rounds down by less than one part in \<open>2 ^ 15\<close>: what a block header commits to never allows a larger target.\<close>

theorem compact_encoding_rounds_down:
  assumes "uint_wf a"
  shows "\<exists>c v. GetCompact a False = Inr c \<and> SetCompact c = (v, False, False) \<and> uint_wf v
    \<and> uval v \<le> uval a \<and> 2 ^ 15 * (uval a - uval v) \<le> uval v"
  using assms by (rule GetCompact_rounds_down)

theorem compact_encoding_rounds_down_witness:
  "\<exists>c v. GetCompact (uint_of_u64 1000) False = Inr c \<and> SetCompact c = (v, False, False) \<and> uval v \<le> 1000"
  using compact_encoding_rounds_down [of "uint_of_u64 1000"] by (auto simp: uval_of_u64)

text \<open>A canonical compact encoding (a positive mantissa with its top byte in use, that does not overflow) survives
  decoding and encoding again unchanged, so the bits of a header and its target determine each other.\<close>

theorem compact_canonical_roundtrip:
  assumes "SetCompact c = (v, False, False)" "3 \<le> compact_size c" "2 ^ 15 \<le> compact_mantissa c"
  shows "GetCompact v False = Inr c"
proof -
  note S = SetCompact_val [OF assms(1)]
  have "compact_value c \<noteq> 0"
    using assms(2,3) by (auto simp: compact_value_def)
  then have "\<not> bit c 23" using S(3) by blast
  moreover have "uval v = compact_value c" using S(2,4) by simp
  ultimately show ?thesis using S(1) assms(2,3) by (intro GetCompact_canonical)
qed

theorem compact_canonical_roundtrip_witness:
  "\<exists>v. SetCompact 0x1f07ffff = (v, False, False) \<and> GetCompact v False = Inr 0x1f07ffff"
proof -
  obtain v neg ovf where v: "SetCompact 0x1f07ffff = (v, neg, ovf)" by (cases "SetCompact 0x1f07ffff")
  have "compact_size 0x1f07ffff = 31" "compact_mantissa 0x1f07ffff = 0x07ffff"
    by (simp_all add: compact_size_def compact_mantissa_def)
  moreover from this have "compact_value 0x1f07ffff = 0x07ffff * 256 ^ 28"
    by (simp add: compact_value_def)
  ultimately show ?thesis
    using SetCompact_val [OF v] compact_canonical_roundtrip [of "0x1f07ffff"] v by simp
qed

text \<open>The opaque 32-byte form and the arithmetic form of a 256-bit number convert into each other without loss,
  in both directions (\<^verbatim>\<open>ArithToUint256\<close> and \<^verbatim>\<open>UintToArith256\<close>).\<close>

theorem blob_conversion_bijective:
  "(uint_wf a \<longrightarrow> UintToArith256 (ArithToUint256 a) = a) \<and>
   (length bs = 32 \<longrightarrow> ArithToUint256 (UintToArith256 bs) = bs)"
  using UintToArith256_ArithToUint256 ArithToUint256_UintToArith256 by blast

theorem blob_conversion_bijective_witness:
  "UintToArith256 (ArithToUint256 (uint_of_u64 5)) = uint_of_u64 5 \<and>
   ArithToUint256 (UintToArith256 (replicate 32 7)) = replicate 32 7"
  using blob_conversion_bijective [of "uint_of_u64 5" "replicate 32 7"] by simp

end
