(* ===== verification/Upgrades.thy ===== *)
theory Upgrades
  imports ArithUint256
begin

text \<open>
  The consensus parameters (\<^verbatim>\<open>consensus/params.h\<close>, \<^verbatim>\<open>consensus/params.cpp\<close>) and the network
  upgrades (\<^verbatim>\<open>consensus/upgrades.h\<close>, \<^verbatim>\<open>consensus/upgrades.cpp\<close>): which upgrade is active at a
  height, the current epoch and its branch id, and the next epoch.

  The C++ \<open>int\<close> of heights is an \<open>int\<close> here. \<open>UpgradeIndex\<close> has the underlying type
  \<open>uint32_t\<close>, so an index is a \<open>u32\<close> and the loop counter of \<open>CurrentEpoch\<close>, whose type is
  deduced from the enumeration, is unsigned: it wraps below zero.
\<close>

section \<open>Parameters\<close>

abbreviation BASE_SPROUT :: u32 where "BASE_SPROUT \<equiv> 0"
abbreviation UPGRADE_TESTDUMMY :: u32 where "UPGRADE_TESTDUMMY \<equiv> 1"
abbreviation UPGRADE_OVERWINTER :: u32 where "UPGRADE_OVERWINTER \<equiv> 2"
abbreviation UPGRADE_SAPLING :: u32 where "UPGRADE_SAPLING \<equiv> 3"
abbreviation UPGRADE_BLOSSOM :: u32 where "UPGRADE_BLOSSOM \<equiv> 4"
abbreviation MAX_NETWORK_UPGRADES :: u32 where "MAX_NETWORK_UPGRADES \<equiv> 5"

record NetworkUpgrade =
  nProtocolVersion :: int
  nActivationHeight :: int
  hashActivationBlock :: "bytes option"

abbreviation (input) ALWAYS_ACTIVE :: int where "ALWAYS_ACTIVE \<equiv> 0"
abbreviation (input) NO_ACTIVATION_HEIGHT :: int where "NO_ACTIVATION_HEIGHT \<equiv> -1"

record Params =
  hashGenesisBlock :: bytes
  fCoinbaseMustBeProtected :: bool
  nSubsidySlowStartHeight :: int
  nSubsidySlowStartInterval :: int
  nSubsidyHalvingInterval :: int
  nPorRewardPercentage :: int
  nPorRewardTxPercentage :: int
  nMasternodeRewardPercentage :: int
  nMasternodeRewardTxPercentage :: int
  nPlatformDevFundPercentage :: int
  nPlatformDevFundTxPercentage :: int
  nCoinbaseMaturity :: int
  nMajorityEnforceBlockUpgrade :: int
  nMajorityRejectBlockOutdated :: int
  nMajorityWindow :: int
  vUpgrades :: "NetworkUpgrade list"
  nEquihashN :: u32
  nEquihashK :: u32
  powLimit :: bytes
  nPowAllowMinDifficultyBlocksAfterHeight :: "u32 option"
  nPowAveragingWindow :: int
  nPowMaxAdjustDown :: int
  nPowMaxAdjustUp :: int
  nPreBlossomPowTargetSpacing :: int
  nPostBlossomPowTargetSpacing :: int
  nMinimumChainWork :: bytes

definition GetLastPorRewardBlockHeight :: "Params \<Rightarrow> int" where
  "GetLastPorRewardBlockHeight p = 0x7fffffff"

definition GetLastMasternodeRewardBlockHeight :: "Params \<Rightarrow> int" where
  "GetLastMasternodeRewardBlockHeight p = (if nCoinbaseMaturity p \<noteq> 2 then 805000 else 1500)"

definition GetLastPlatformDevFundBlockHeight :: "Params \<Rightarrow> int" where
  "GetLastPlatformDevFundBlockHeight p = 0x7fffffff"

section \<open>Upgrades\<close>

datatype UpgradeState = UPGRADE_DISABLED | UPGRADE_PENDING | UPGRADE_ACTIVE

record NUInfo =
  nBranchId :: u32
  strName :: string
  strInfo :: string

definition NetworkUpgradeInfo :: "NUInfo list" where
  "NetworkUpgradeInfo =
     [\<lparr>nBranchId = 0, strName = ''Sprout'',
       strInfo = ''The Resistance network at launch''\<rparr>,
      \<lparr>nBranchId = 0x74736554, strName = ''Test dummy'',
       strInfo = ''Test dummy info''\<rparr>,
      \<lparr>nBranchId = 0x5ba81b19, strName = ''Overwinter'',
       strInfo = ''See https://z.cash/upgrade/overwinter.html for details.''\<rparr>,
      \<lparr>nBranchId = 0x76b809bb, strName = ''Sapling'',
       strInfo = ''See https://z.cash/upgrade/sapling.html for details.''\<rparr>,
      \<lparr>nBranchId = 0x2bb40e60, strName = ''Blossom'',
       strInfo = ''See https://z.cash/upgrade/blossom.html for details.''\<rparr>]"

definition NetworkUpgradeState :: "int \<Rightarrow> Params \<Rightarrow> u32 \<Rightarrow> failure + UpgradeState" where
  "NetworkUpgradeState nHeight params idx =
     and_then (cassert (nHeight \<ge> 0)) (\<lambda>_.
     and_then (cassert (idx < MAX_NETWORK_UPGRADES)) (\<lambda>_.
     let nActivationHeight = nActivationHeight (vUpgrades params ! unat idx)
     in Inr (if nActivationHeight = NO_ACTIVATION_HEIGHT then UPGRADE_DISABLED
             else if nHeight \<ge> nActivationHeight then UPGRADE_ACTIVE
             else UPGRADE_PENDING)))"

definition NetworkUpgradeActive :: "Params \<Rightarrow> int \<Rightarrow> u32 \<Rightarrow> failure + bool" where
  "NetworkUpgradeActive params nHeight idx =
     and_then (NetworkUpgradeState nHeight params idx) (\<lambda>s. Inr (s = UPGRADE_ACTIVE))"

lemma NetworkUpgradeActive_index:
  "NetworkUpgradeActive params nHeight idx = Inr b \<Longrightarrow> 0 \<le> nHeight \<and> idx < MAX_NETWORK_UPGRADES"
  by (auto simp: NetworkUpgradeActive_def NetworkUpgradeState_def)

text \<open>
  The loop of \<open>CurrentEpoch\<close>. Its guard \<open>idxInt >= BASE_SPROUT\<close> compares unsigned numbers and
  is always true; the loop ends by its \<open>return\<close> or by the assertion of \<open>NetworkUpgradeState\<close>.
\<close>

function CurrentEpoch_loop :: "int \<Rightarrow> Params \<Rightarrow> u32 \<Rightarrow> failure + u32" where
  "CurrentEpoch_loop nHeight params idxInt =
     (if idxInt \<ge> BASE_SPROUT
      then case NetworkUpgradeActive params nHeight idxInt of
             Inl e \<Rightarrow> Inl e
           | Inr active \<Rightarrow> if active then Inr idxInt else CurrentEpoch_loop nHeight params (idxInt - 1)
      else Inr BASE_SPROUT)"
  by pat_completeness auto

termination
proof (relation "measure (\<lambda>(h, p, i). if i < MAX_NETWORK_UPGRADES then Suc (unat i) else 0)")
  fix h p and i :: u32 and b
  assume "NetworkUpgradeActive p h i = Inr b"
  then have i: "i < 5" by (simp add: NetworkUpgradeActive_index)
  show "((h, p, i - 1), (h, p, i)) \<in> measure (\<lambda>(h, p, i). if i < MAX_NETWORK_UPGRADES then Suc (unat i) else 0)"
  proof (cases "i = 0")
    case False
    then have "unat (i - 1) < unat i" by (simp add: unat_minus_one unat_gt_0)
    with i show ?thesis by simp
  qed simp
qed simp

definition CurrentEpoch :: "int \<Rightarrow> Params \<Rightarrow> failure + u32" where
  "CurrentEpoch nHeight params = CurrentEpoch_loop nHeight params (MAX_NETWORK_UPGRADES - 1)"

definition CurrentEpochBranchId :: "int \<Rightarrow> Params \<Rightarrow> failure + u32" where
  "CurrentEpochBranchId nHeight params =
     and_then (CurrentEpoch nHeight params) (\<lambda>e. Inr (nBranchId (NetworkUpgradeInfo ! unat e)))"

definition IsConsensusBranchId :: "u32 \<Rightarrow> bool" where
  "IsConsensusBranchId branchId =
     list_ex (\<lambda>idx. branchId = nBranchId (NetworkUpgradeInfo ! idx)) [0 ..< 5]"

definition IsActivationHeight :: "int \<Rightarrow> Params \<Rightarrow> u32 \<Rightarrow> failure + bool" where
  "IsActivationHeight nHeight params idx =
     and_then (cassert (idx < MAX_NETWORK_UPGRADES)) (\<lambda>_.
     Inr (if idx = BASE_SPROUT then False
          else nHeight \<ge> 0 \<and> nHeight = nActivationHeight (vUpgrades params ! unat idx)))"

definition IsActivationHeightForAnyUpgrade :: "int \<Rightarrow> Params \<Rightarrow> bool" where
  "IsActivationHeightForAnyUpgrade nHeight params =
     (if nHeight < 0 then False
      else list_ex (\<lambda>idx. nHeight = nActivationHeight (vUpgrades params ! idx)) [1 ..< 5])"

fun NextEpoch_loop :: "int \<Rightarrow> Params \<Rightarrow> u32 list \<Rightarrow> failure + u32 option" where
  "NextEpoch_loop nHeight params [] = Inr None"
| "NextEpoch_loop nHeight params (idx # idxs) =
     and_then (NetworkUpgradeState nHeight params idx) (\<lambda>s.
     if s = UPGRADE_PENDING then Inr (Some idx) else NextEpoch_loop nHeight params idxs)"

definition NextEpoch :: "int \<Rightarrow> Params \<Rightarrow> failure + u32 option" where
  "NextEpoch nHeight params =
     (if nHeight < 0 then Inr None
      else NextEpoch_loop nHeight params
             [UPGRADE_TESTDUMMY, UPGRADE_OVERWINTER, UPGRADE_SAPLING, UPGRADE_BLOSSOM])"

definition NextActivationHeight :: "int \<Rightarrow> Params \<Rightarrow> failure + int option" where
  "NextActivationHeight nHeight params =
     and_then (NextEpoch nHeight params) (\<lambda>idx.
     Inr (case idx of Some i \<Rightarrow> Some (nActivationHeight (vUpgrades params ! unat i)) | None \<Rightarrow> None))"

section \<open>Proof-of-work parameters\<close>

definition PoWTargetSpacing :: "Params \<Rightarrow> int \<Rightarrow> failure + int" where
  "PoWTargetSpacing params nHeight =
     and_then (NetworkUpgradeActive params nHeight UPGRADE_BLOSSOM) (\<lambda>blossomActive.
     Inr (if blossomActive then nPostBlossomPowTargetSpacing params
          else nPreBlossomPowTargetSpacing params))"

definition AveragingWindowTimespan :: "Params \<Rightarrow> int \<Rightarrow> failure + int" where
  "AveragingWindowTimespan params nHeight =
     and_then (PoWTargetSpacing params nHeight) (\<lambda>s. Inr (nPowAveragingWindow params * s))"

definition MinActualTimespan :: "Params \<Rightarrow> int \<Rightarrow> failure + int" where
  "MinActualTimespan params nHeight =
     and_then (AveragingWindowTimespan params nHeight) (\<lambda>t.
     Inr (cdiv (t * (100 - nPowMaxAdjustUp params)) 100))"

definition MaxActualTimespan :: "Params \<Rightarrow> int \<Rightarrow> failure + int" where
  "MaxActualTimespan params nHeight =
     and_then (AveragingWindowTimespan params nHeight) (\<lambda>t.
     Inr (cdiv (t * (100 + nPowMaxAdjustDown params)) 100))"

section \<open>The epoch in force\<close>

definition params_wf :: "Params \<Rightarrow> bool" where
  "params_wf p \<longleftrightarrow> length (vUpgrades p) = 5 \<and> nActivationHeight (vUpgrades p ! 0) = ALWAYS_ACTIVE"

definition upgrade_active :: "Params \<Rightarrow> int \<Rightarrow> nat \<Rightarrow> bool" where
  "upgrade_active p h i \<longleftrightarrow>
     nActivationHeight (vUpgrades p ! i) \<noteq> NO_ACTIVATION_HEIGHT \<and> nActivationHeight (vUpgrades p ! i) \<le> h"

definition upgrades_ordered :: "Params \<Rightarrow> bool" where
  "upgrades_ordered p \<longleftrightarrow>
     (\<forall>i j. i < j \<and> j < 5 \<and> nActivationHeight (vUpgrades p ! i) \<noteq> NO_ACTIVATION_HEIGHT
        \<and> nActivationHeight (vUpgrades p ! j) \<noteq> NO_ACTIVATION_HEIGHT \<longrightarrow>
        nActivationHeight (vUpgrades p ! i) \<le> nActivationHeight (vUpgrades p ! j))"

declare CurrentEpoch_loop.simps [simp del]

lemma NetworkUpgradeActive_eq:
  "0 \<le> h \<Longrightarrow> idx < MAX_NETWORK_UPGRADES \<Longrightarrow>
   NetworkUpgradeActive p h idx = Inr (upgrade_active p h (unat idx))"
  by (simp add: NetworkUpgradeActive_def NetworkUpgradeState_def upgrade_active_def Let_def)

lemma CurrentEpoch_loop_step:
  "0 \<le> h \<Longrightarrow> idx < MAX_NETWORK_UPGRADES \<Longrightarrow>
   CurrentEpoch_loop h p idx =
     (if upgrade_active p h (unat idx) then Inr idx else CurrentEpoch_loop h p (idx - 1))"
  by (subst CurrentEpoch_loop.simps) (simp add: NetworkUpgradeActive_eq)

lemma CurrentEpoch_loop_wrapped: "0 \<le> h \<Longrightarrow> CurrentEpoch_loop h p (- 1) = Inl AssertionFailed"
  by (subst CurrentEpoch_loop.simps)
    (simp add: NetworkUpgradeActive_def NetworkUpgradeState_def cassert_def and_then_def word_less_nat_alt)

fun last_active :: "Params \<Rightarrow> int \<Rightarrow> nat \<Rightarrow> nat option" where
  "last_active p h 0 = None"
| "last_active p h (Suc i) = (if upgrade_active p h i then Some i else last_active p h i)"

lemma CurrentEpoch_loop_last_active:
  "0 \<le> h \<Longrightarrow> i < 5 \<Longrightarrow> CurrentEpoch_loop h p (of_nat i) =
    (case last_active p h (Suc i) of Some e \<Rightarrow> Inr (of_nat e) | None \<Rightarrow> Inl AssertionFailed)"
proof (induction i)
  case 0
  then show ?case
    using CurrentEpoch_loop_step [of h 0 p] by (simp add: CurrentEpoch_loop_wrapped)
next
  case (Suc i)
  have lt: "(of_nat (Suc i) :: u32) < 5" and u: "unat (of_nat (Suc i) :: u32) = Suc i"
    using Suc.prems by (simp_all add: word_less_nat_alt unat_of_nat del: of_nat_Suc)
  have "CurrentEpoch_loop h p (of_nat (Suc i)) =
      (if upgrade_active p h (Suc i) then Inr (of_nat (Suc i)) else CurrentEpoch_loop h p (of_nat i))"
    using CurrentEpoch_loop_step [OF Suc.prems(1) lt] u by simp
  with Suc show ?case by (cases "upgrade_active p h (Suc i)") simp_all
qed

lemma CurrentEpoch_eq:
  "0 \<le> h \<Longrightarrow> CurrentEpoch h p =
    (case last_active p h 5 of Some e \<Rightarrow> Inr (of_nat e) | None \<Rightarrow> Inl AssertionFailed)"
  using CurrentEpoch_loop_last_active [of h 4 p] by (simp add: CurrentEpoch_def eval_nat_numeral)

lemma last_active_Some:
  "last_active p h n = Some e \<longleftrightarrow> e < n \<and> upgrade_active p h e \<and> (\<forall>j. e < j \<and> j < n \<longrightarrow> \<not> upgrade_active p h j)"
  by (induction n) (auto simp: less_Suc_eq)

lemma last_active_None: "last_active p h n = None \<longleftrightarrow> (\<forall>j < n. \<not> upgrade_active p h j)"
  by (induction n) (auto simp: less_Suc_eq)

lemma sprout_active: "params_wf p \<Longrightarrow> 0 \<le> h \<Longrightarrow> upgrade_active p h 0"
  by (simp add: params_wf_def upgrade_active_def)

lemma CurrentEpoch_Inr:
  assumes "0 \<le> h"
  shows "CurrentEpoch h p = Inr e \<longleftrightarrow> last_active p h 5 = Some (unat e)"
proof -
  have "unat (of_nat i :: u32) = i" if "last_active p h 5 = Some i" for i
  proof -
    have "i < 5" using that by (simp add: last_active_Some)
    then show ?thesis by (simp add: unat_of_nat)
  qed
  then show ?thesis
    using assms by (auto simp: CurrentEpoch_eq split: option.splits)
qed

lemma CurrentEpoch_total:
  assumes "params_wf p" "0 \<le> h"
  shows "\<exists>e. CurrentEpoch h p = Inr e \<and> unat e < 5 \<and> upgrade_active p h (unat e) \<and>
    (\<forall>j. unat e < j \<and> j < 5 \<longrightarrow> \<not> upgrade_active p h j)"
proof -
  have "last_active p h 5 \<noteq> None"
    using sprout_active [OF assms] by (auto simp: last_active_None intro: exI [of _ 0])
  then obtain e where e: "last_active p h 5 = Some e" by auto
  then have "e < 5" by (simp add: last_active_Some)
  then have "unat (of_nat e :: u32) = e" by (simp add: unat_of_nat)
  then show ?thesis
    using e assms(2) by (intro exI [of _ "of_nat e"]) (simp add: CurrentEpoch_Inr last_active_Some)
qed

lemma upgrade_active_mono: "h \<le> h' \<Longrightarrow> upgrade_active p h i \<Longrightarrow> upgrade_active p h' i"
  by (auto simp: upgrade_active_def)

lemma CurrentEpoch_mono:
  assumes "0 \<le> h" "h \<le> h'" "CurrentEpoch h p = Inr e" "CurrentEpoch h' p = Inr e'"
  shows "e \<le> e'"
proof (rule ccontr)
  assume "\<not> e \<le> e'"
  then have lt: "unat e' < unat e" by (simp add: word_less_nat_alt not_le)
  have "upgrade_active p h' (unat e)" "unat e < 5"
    using assms upgrade_active_mono by (auto simp: CurrentEpoch_Inr last_active_Some)
  with assms lt show False by (auto simp: CurrentEpoch_Inr last_active_Some)
qed


definition upgrade_pending :: "Params \<Rightarrow> int \<Rightarrow> nat \<Rightarrow> bool" where
  "upgrade_pending p h i \<longleftrightarrow>
     nActivationHeight (vUpgrades p ! i) \<noteq> NO_ACTIVATION_HEIGHT \<and> h < nActivationHeight (vUpgrades p ! i)"

lemma NetworkUpgradeState_pending:
  "0 \<le> h \<Longrightarrow> idx < MAX_NETWORK_UPGRADES \<Longrightarrow>
   \<exists>s. NetworkUpgradeState h p idx = Inr s \<and> (s = UPGRADE_PENDING \<longleftrightarrow> upgrade_pending p h (unat idx))"
  by (simp add: NetworkUpgradeState_def upgrade_pending_def Let_def)

lemma NextEpoch_loop_find:
  assumes "0 \<le> h" "list_all (\<lambda>i. i < MAX_NETWORK_UPGRADES) is"
  shows "NextEpoch_loop h p is = Inr (find (\<lambda>i. upgrade_pending p h (unat i)) is)"
  using assms(2)
proof (induction "is")
  case (Cons i "is")
  obtain s where "NetworkUpgradeState h p i = Inr s" "s = UPGRADE_PENDING \<longleftrightarrow> upgrade_pending p h (unat i)"
    using NetworkUpgradeState_pending [OF assms(1), of i p] Cons.prems by auto
  with Cons show ?case by simp
qed simp

lemma NextEpoch_eq:
  "0 \<le> h \<Longrightarrow> NextEpoch h p = Inr (find (\<lambda>i. upgrade_pending p h (unat i)) [1, 2, 3, 4])"
  by (simp add: NextEpoch_def NextEpoch_loop_find del: NextEpoch_loop.simps)

lemma nat_less_5: "(j :: nat) < 5 \<longleftrightarrow> j = 0 \<or> j = 1 \<or> j = 2 \<or> j = 3 \<or> j = 4"
  by linarith

lemma below_numeral:
  "(j :: nat) < 1 \<longleftrightarrow> j = 0" "(j :: nat) < 2 \<longleftrightarrow> j = 0 \<or> j = 1"
  "(j :: nat) < 3 \<longleftrightarrow> j = 0 \<or> j = 1 \<or> j = 2" "(j :: nat) < 4 \<longleftrightarrow> j = 0 \<or> j = 1 \<or> j = 2 \<or> j = 3"
  by linarith+

lemma NextEpoch_Some:
  assumes "params_wf p" "0 \<le> h" "NextEpoch h p = Inr (Some i)"
  shows "unat i < 5" "upgrade_pending p h (unat i)" "\<And>j. j < unat i \<Longrightarrow> \<not> upgrade_pending p h j"
proof -
  have z: "\<not> upgrade_pending p h 0"
    using assms by (simp add: upgrade_pending_def params_wf_def)
  have "find (\<lambda>i. upgrade_pending p h (unat i)) [1, 2, 3, 4 :: u32] = Some i"
    using assms NextEpoch_eq by simp
  then have "unat i < 5 \<and> upgrade_pending p h (unat i) \<and> (\<forall>j < unat i. \<not> upgrade_pending p h j)"
    using z by (auto split: if_splits simp: below_numeral)
  then show "unat i < 5" "upgrade_pending p h (unat i)" "\<And>j. j < unat i \<Longrightarrow> \<not> upgrade_pending p h j"
    by auto
qed

lemma NextEpoch_None:
  assumes "params_wf p" "0 \<le> h" "NextEpoch h p = Inr None" "j < 5"
  shows "\<not> upgrade_pending p h j"
proof -
  have z: "\<not> upgrade_pending p h 0"
    using assms by (simp add: upgrade_pending_def params_wf_def)
  have "find (\<lambda>i. upgrade_pending p h (unat i)) [1, 2, 3, 4 :: u32] = None"
    using assms NextEpoch_eq by simp
  with z assms(4) show ?thesis
    by (auto simp: nat_less_5 split: if_splits)
qed

lemma last_active_cong:
  "(\<And>j. j < n \<Longrightarrow> upgrade_active p h j = upgrade_active p h' j) \<Longrightarrow> last_active p h n = last_active p h' n"
  by (induction n) simp_all

lemma activated_between:
  "h \<le> h' \<Longrightarrow> upgrade_active p h j \<noteq> upgrade_active p h' j \<Longrightarrow>
   upgrade_pending p h j \<and> nActivationHeight (vUpgrades p ! j) \<le> h'"
  by (auto simp: upgrade_active_def upgrade_pending_def)

lemma CurrentEpoch_const:
  assumes "params_wf p" "upgrades_ordered p" "0 \<le> h" "h \<le> h'"
    and nxt: "NextActivationHeight h p = Inr na" "\<And>a. na = Some a \<Longrightarrow> h' < a"
  shows "CurrentEpoch h' p = CurrentEpoch h p"
proof -
  have "upgrade_active p h j = upgrade_active p h' j" if j: "j < 5" for j
  proof (rule ccontr)
    assume "upgrade_active p h j \<noteq> upgrade_active p h' j"
    then have p: "upgrade_pending p h j" "nActivationHeight (vUpgrades p ! j) \<le> h'"
      using activated_between [OF assms(4)] by auto
    obtain oi where oi: "NextEpoch h p = Inr oi" using assms(3) NextEpoch_eq by blast
    show False
    proof (cases oi)
      case None
      with oi p(1) j NextEpoch_None [OF assms(1,3)] show False by simp
    next
      case (Some i)
      note N = NextEpoch_Some [OF assms(1,3) oi [unfolded Some]]
      have "na = Some (nActivationHeight (vUpgrades p ! unat i))"
        using nxt(1) oi Some by (simp add: NextActivationHeight_def)
      then have a: "h' < nActivationHeight (vUpgrades p ! unat i)" by (rule nxt(2))
      have "unat i \<le> j" using N(3) p(1) not_le by blast
      then have "nActivationHeight (vUpgrades p ! unat i) \<le> nActivationHeight (vUpgrades p ! j)"
        using assms(2) N(2) p(1) j by (cases "unat i = j") (auto simp: upgrades_ordered_def upgrade_pending_def)
      with a p(2) show False by simp
    qed
  qed
  then have "last_active p h 5 = last_active p h' 5" by (rule last_active_cong)
  with assms(3,4) show ?thesis by (simp add: CurrentEpoch_eq)
qed

lemma CurrentEpoch_changes:
  assumes "params_wf p" "0 \<le> h" "NextActivationHeight h p = Inr (Some a)"
    and "CurrentEpoch h p = Inr e" "CurrentEpoch a p = Inr e'" "upgrades_ordered p"
  shows "h < a" "e < e'"
proof -
  obtain i where i: "NextEpoch h p = Inr (Some i)" and a: "a = nActivationHeight (vUpgrades p ! unat i)"
    using assms(3) by (auto simp: NextActivationHeight_def split: option.splits)
  note N = NextEpoch_Some [OF assms(1,2) i]
  show "h < a" using N(2) by (simp add: a upgrade_pending_def)
  have act: "upgrade_active p a (unat i)" using N(2) by (simp add: a upgrade_active_def upgrade_pending_def)
  have "\<not> unat i \<le> unat e"
  proof
    assume "unat i \<le> unat e"
    moreover have e: "upgrade_active p h (unat e)" "unat e < 5"
      using assms(2,4) by (simp_all add: CurrentEpoch_Inr last_active_Some)
    ultimately have "a \<le> nActivationHeight (vUpgrades p ! unat e)"
      using assms(6) N(2) by (cases "unat i = unat e") (auto simp: a upgrades_ordered_def upgrade_pending_def upgrade_active_def)
    with e(1) \<open>h < a\<close> show False by (simp add: upgrade_active_def)
  qed
  moreover have "unat i \<le> unat e'"
    using assms(2,5) act N(1) \<open>h < a\<close> by (auto simp: CurrentEpoch_Inr last_active_Some not_less [symmetric])
  ultimately show "e < e'" by (simp add: word_less_nat_alt)
qed

lemma branch_id_inj:
  "i < 5 \<Longrightarrow> j < 5 \<Longrightarrow> nBranchId (NetworkUpgradeInfo ! i) = nBranchId (NetworkUpgradeInfo ! j) \<longleftrightarrow> i = j"
  by (auto simp: NetworkUpgradeInfo_def nat_less_5)

end
