(* ===== verification/HexBlob.thy ===== *)
theory HexBlob
  imports Prelude
begin

text \<open>
  Hexadecimal text and fixed-size blobs: \<^verbatim>\<open>HexDigit\<close>, \<^verbatim>\<open>IsHex\<close>, \<^verbatim>\<open>ParseHex\<close> and \<^verbatim>\<open>HexStr\<close> of
  \<^verbatim>\<open>utilstrencodings.cpp\<close> and \<^verbatim>\<open>utilstrencodings.h\<close>, and \<^verbatim>\<open>base_blob\<close> of \<^verbatim>\<open>uint256.cpp\<close> with its conversions
  to and from the byte-reversed hexadecimal form. A blob of \<open>W\<close> bytes is a byte list of that length, a C string is
  a character list whose end is the terminator.
\<close>

section \<open>Digits\<close>

definition p_util_hexdigit :: "int list" where
  "p_util_hexdigit =
     replicate 48 (- 1) @ [0, 1, 2, 3, 4, 5, 6, 7, 8, 9] @ replicate 7 (- 1) @
     [0xa, 0xb, 0xc, 0xd, 0xe, 0xf] @ replicate 26 (- 1) @ [0xa, 0xb, 0xc, 0xd, 0xe, 0xf] @ replicate 153 (- 1)"

definition HexDigit :: "char \<Rightarrow> int" where
  "HexDigit c = p_util_hexdigit ! of_char c"

definition isspace_c :: "char \<Rightarrow> bool" where
  "isspace_c c \<longleftrightarrow> (of_char c :: nat) \<in> {9, 10, 11, 12, 13, 32}"

definition IsHex :: "string \<Rightarrow> bool" where
  "IsHex str \<longleftrightarrow> list_all (\<lambda>c. \<not> HexDigit c < 0) str \<and> length str > 0 \<and> length str mod 2 = 0"

function ParseHex :: "string \<Rightarrow> bytes" where
  "ParseHex psz = (case dropWhile isspace_c psz of
     a # b # r \<Rightarrow>
       if HexDigit a = - 1 then [] else if HexDigit b = - 1 then []
       else (push_bit 4 (of_int (HexDigit a)) OR of_int (HexDigit b)) # ParseHex r
   | _ \<Rightarrow> [])"
  by pat_completeness auto
termination
proof (relation "measure length")
  fix psz r :: string and a x b y
  assume "dropWhile isspace_c psz = a # x" "x = b # r"
  then have "length (a # b # r) \<le> length psz" by (metis length_dropWhile_le)
  then show "(r, psz) \<in> measure length" by simp
qed simp

definition hexmap :: string where
  "hexmap = ''0123456789abcdef''"

definition hex_byte :: "u8 \<Rightarrow> string" where
  "hex_byte val = [hexmap ! unat (drop_bit 4 val), hexmap ! unat (val AND 15)]"

fun HexStr_loop :: "bytes \<Rightarrow> bool \<Rightarrow> bool \<Rightarrow> string" where
  "HexStr_loop [] fSpaces begin = []"
| "HexStr_loop (val # vals) fSpaces begin =
     (if fSpaces \<and> \<not> begin then '' '' else []) @ hex_byte val @ HexStr_loop vals fSpaces False"

definition HexStr :: "bytes \<Rightarrow> bool \<Rightarrow> string" where
  "HexStr vch fSpaces = HexStr_loop vch fSpaces True"

section \<open>Blobs\<close>

definition blob_IsNull :: "bytes \<Rightarrow> bool" where
  "blob_IsNull data \<longleftrightarrow> list_all (\<lambda>b. b = 0) data"

fun memcmp_less :: "bytes \<Rightarrow> bytes \<Rightarrow> bool" where
  "memcmp_less (a # as) (b # bs) \<longleftrightarrow> a < b \<or> (a = b \<and> memcmp_less as bs)"
| "memcmp_less _ _ \<longleftrightarrow> False"

definition GetHex :: "bytes \<Rightarrow> string" where
  "GetHex data = concat (map (\<lambda>i. hex_byte (data ! (length data - i - 1))) [0 ..< length data])"

fun SetHex_loop :: "nat \<Rightarrow> string \<Rightarrow> bytes" where
  "SetHex_loop 0 psz = []"
| "SetHex_loop (Suc n) [] = replicate (Suc n) 0"
| "SetHex_loop (Suc n) [d] = of_int (HexDigit d) # replicate n 0"
| "SetHex_loop (Suc n) (d # e # psz) =
     (of_int (HexDigit d) OR push_bit 4 (of_int (HexDigit e))) # SetHex_loop n psz"

definition skip_0x :: "string \<Rightarrow> string" where
  "skip_0x psz = (case psz of a # b # r \<Rightarrow> if a = CHR ''0'' \<and> (b = CHR ''x'' \<or> b = CHR ''X'') then r else psz
     | _ \<Rightarrow> psz)"

definition SetHex :: "nat \<Rightarrow> string \<Rightarrow> bytes" where
  "SetHex W psz =
     SetHex_loop W (rev (takeWhile (\<lambda>c. HexDigit c \<noteq> - 1) (skip_0x (dropWhile isspace_c psz))))"

definition uint256S :: "string \<Rightarrow> bytes" where
  "uint256S str = SetHex 32 str"

section \<open>Round trips\<close>

declare ParseHex.simps [simp del]

lemma HexDigit_hexmap:
  assumes "n < 16"
  shows "HexDigit (hexmap ! n) = int n" "\<not> isspace_c (hexmap ! n)" "hexmap ! n \<noteq> CHR ''x''" "hexmap ! n \<noteq> CHR ''X''"
proof -
  have "list_all (\<lambda>n. HexDigit (hexmap ! n) = int n \<and> \<not> isspace_c (hexmap ! n)
    \<and> hexmap ! n \<noteq> CHR ''x'' \<and> hexmap ! n \<noteq> CHR ''X'') [0 ..< 16]"
    by code_simp
  with assms show "HexDigit (hexmap ! n) = int n" "\<not> isspace_c (hexmap ! n)" "hexmap ! n \<noteq> CHR ''x''"
    "hexmap ! n \<noteq> CHR ''X''"
    by (auto simp: list_all_iff)
qed

lemma and_15: "(b :: u8) AND 15 = take_bit 4 b"
proof -
  have "(15 :: u8) = mask 4" by (simp add: mask_eq_exp_minus_1)
  then show ?thesis by (simp only: take_bit_eq_mask)
qed

lemma nibble_less: "unat (drop_bit 4 (b :: u8)) < 16" "unat ((b :: u8) AND 15) < 16"
proof -
  show "unat (b AND 15) < 16"
    unfolding and_15 unsigned_take_bit_eq using take_bit_nat_less_exp [of 4 "unat b"] by simp
  have "unat b < 2 ^ 8" using unsigned_less [of b] by simp
  then show "unat (drop_bit 4 b) < 16"
    unfolding unat_drop_bit_eq by (simp add: drop_bit_eq_div less_mult_imp_div_less)
qed

lemma nibbles_join:
  "push_bit 4 (drop_bit 4 b) OR (b AND 15) = (b :: u8)" "(b AND 15) OR push_bit 4 (drop_bit 4 b) = (b :: u8)"
proof -
  show *: "push_bit 4 (drop_bit 4 b) OR (b AND 15) = (b :: u8)"
    unfolding and_15 by (rule bit_eqI) (auto simp: bit_simps)
  then show "(b AND 15) OR push_bit 4 (drop_bit 4 b) = (b :: u8)" by (simp only: or.commute)
qed

lemma uint_u8_not_neg [simp]: "uint (b :: u8) \<noteq> - 1"
  by (metis neg_0_le_iff_le not_one_le_zero uint_ge_0)

lemma hex_byte_digits:
  obtains h l where "hex_byte b = [h, l]" "HexDigit h = int (unat (drop_bit 4 b))" "HexDigit l = int (unat (b AND 15))"
    "HexDigit h \<noteq> - 1" "HexDigit l \<noteq> - 1" "\<not> isspace_c h" "\<not> isspace_c l" "l \<noteq> CHR ''x''" "l \<noteq> CHR ''X''"
proof
  show "hex_byte b = [hexmap ! unat (drop_bit 4 b), hexmap ! unat (b AND 15)]" by (simp add: hex_byte_def)
qed (simp_all add: HexDigit_hexmap nibble_less)

lemma ParseHex_hex_byte: "ParseHex (hex_byte b @ r) = b # ParseHex r"
proof -
  obtain h l where "hex_byte b = [h, l]" "HexDigit h = int (unat (drop_bit 4 b))" "HexDigit l = int (unat (b AND 15))"
    "HexDigit h \<noteq> - 1" "HexDigit l \<noteq> - 1" "\<not> isspace_c h"
    by (rule hex_byte_digits)
  then show ?thesis
    by (subst ParseHex.simps) (simp add: nibbles_join)
qed

lemma ParseHex_space: "ParseHex (CHR '' '' # r) = ParseHex r"
  by (subst (1 2) ParseHex.simps) (simp add: isspace_c_def)

lemma ParseHex_HexStr_loop: "ParseHex (HexStr_loop bs fSpaces start) = bs"
proof (induction bs arbitrary: start)
  case Nil
  show ?case by (simp add: ParseHex.simps)
next
  case (Cons b bs)
  have "ParseHex (HexStr_loop bs fSpaces False) = bs" by (rule Cons.IH)
  then show ?case by (cases fSpaces; cases start) (simp_all add: ParseHex_hex_byte ParseHex_space)
qed

lemma IsHex_HexStr_loop:
  "list_all (\<lambda>c. \<not> HexDigit c < 0) (HexStr_loop bs False start) \<and> length (HexStr_loop bs False start) = 2 * length bs"
  by (induction bs arbitrary: start) (simp_all add: hex_byte_def HexDigit_hexmap nibble_less)

lemma GetHex_rev: "GetHex bs = concat (map hex_byte (rev bs))"
proof -
  have "map (\<lambda>i. hex_byte (bs ! (length bs - i - 1))) [0 ..< length bs] = map hex_byte (rev bs)"
    by (rule nth_equalityI) (simp_all add: rev_nth)
  then show ?thesis by (simp add: GetHex_def)
qed

lemma SetHex_loop_bytes: "SetHex_loop (length bs) (concat (map (\<lambda>b. rev (hex_byte b)) bs)) = bs"
  by (induction bs) (simp_all add: hex_byte_def HexDigit_hexmap nibble_less nibbles_join)

lemma GetHex_hex_digits: "c \<in> set (GetHex bs) \<Longrightarrow> HexDigit c \<noteq> - 1 \<and> \<not> isspace_c c \<and> c \<noteq> CHR ''x'' \<and> c \<noteq> CHR ''X''"
  by (auto simp: GetHex_rev hex_byte_def HexDigit_hexmap nibble_less)

lemma skip_0x_digits: "(\<And>c. c \<in> set s \<Longrightarrow> c \<noteq> CHR ''x'' \<and> c \<noteq> CHR ''X'') \<Longrightarrow> skip_0x s = s"
  by (auto simp: skip_0x_def split: list.splits)

text \<open>Printing a blob in hexadecimal (byte-reversed, as hashes are shown) and reading it back gives the same blob,
  and the byte-order-preserving \<^verbatim>\<open>HexStr\<close>, with or without separating blanks, is read back by \<^verbatim>\<open>ParseHex\<close>;
  \<^verbatim>\<open>IsHex\<close> accepts exactly the printed form of a non-empty byte string.\<close>

theorem hex_roundtrips:
  "SetHex (length bs) (GetHex bs) = bs \<and> ParseHex (HexStr bs fSpaces) = bs \<and> (IsHex (HexStr bs False) \<longleftrightarrow> bs \<noteq> [])"
proof -
  have "takeWhile (\<lambda>c. HexDigit c \<noteq> - 1) (skip_0x (dropWhile isspace_c (GetHex bs))) = GetHex bs"
    using GetHex_hex_digits [of _ bs] by (simp add: dropWhile_eq_self_iff skip_0x_digits takeWhile_eq_all_conv)
  then have "SetHex (length bs) (GetHex bs) = bs"
    using SetHex_loop_bytes [of bs] by (simp add: SetHex_def GetHex_rev rev_concat rev_map comp_def)
  then show ?thesis
    using IsHex_HexStr_loop [of bs True] by (simp add: HexStr_def ParseHex_HexStr_loop IsHex_def)
qed

end
