(* ===== verification/ChainParams.thy ===== *)
theory ChainParams
  imports Upgrades HexBlob
begin

text \<open>
  The consensus parameters of the three networks the program ships (the constructors \<^verbatim>\<open>CMainParams\<close>, \<^verbatim>\<open>CTestNetParams\<close>
  and \<^verbatim>\<open>CRegTestParams\<close> of \<^verbatim>\<open>chainparams.cpp\<close>), the two functions that change the regression-test parameters, and the
  selection of the reward addresses by height. The network upgrade properties are proved for all well-formed parameters
  and hold for the shipped ones.
\<close>

section \<open>The shipped networks\<close>

abbreviation upgrade_at :: "int \<Rightarrow> int \<Rightarrow> NetworkUpgrade" where
  "upgrade_at version height \<equiv>
     \<lparr>nProtocolVersion = version, nActivationHeight = height, hashActivationBlock = None\<rparr>"

abbreviation PRE_BLOSSOM_POW_TARGET_SPACING :: int where "PRE_BLOSSOM_POW_TARGET_SPACING \<equiv> 60"
abbreviation POST_BLOSSOM_POW_TARGET_SPACING :: int where "POST_BLOSSOM_POW_TARGET_SPACING \<equiv> 60"

definition CMainParams :: Params where
  "CMainParams = \<lparr>
     hashGenesisBlock = uint256S ''0x328ab5de52cf3b7c1a5dbd02909b7e23a25d1715143c8b41aba903cf2b48754f'',
     fCoinbaseMustBeProtected = False,
     nSubsidySlowStartHeight = 201, nSubsidySlowStartInterval = 43200, nSubsidyHalvingInterval = 2200000 - 14400,
     nPorRewardPercentage = 30, nPorRewardTxPercentage = 30,
     nMasternodeRewardPercentage = 30, nMasternodeRewardTxPercentage = 30,
     nPlatformDevFundPercentage = 10, nPlatformDevFundTxPercentage = 10,
     nCoinbaseMaturity = 100,
     nMajorityEnforceBlockUpgrade = 750, nMajorityRejectBlockOutdated = 950, nMajorityWindow = 4000,
     vUpgrades = [upgrade_at 170002 ALWAYS_ACTIVE, upgrade_at 170002 NO_ACTIVATION_HEIGHT,
       upgrade_at 170005 ALWAYS_ACTIVE, upgrade_at 170007 1, upgrade_at 170009 NO_ACTIVATION_HEIGHT],
     nEquihashN = 0, nEquihashK = 0,
     powLimit = uint256S ''0007ffffffffffffffffffffffffffffffffffffffffffffffffffffffffffff'',
     nPowAllowMinDifficultyBlocksAfterHeight = None,
     nPowAveragingWindow = 17, nPowMaxAdjustDown = 32, nPowMaxAdjustUp = 16,
     nPreBlossomPowTargetSpacing = PRE_BLOSSOM_POW_TARGET_SPACING,
     nPostBlossomPowTargetSpacing = POST_BLOSSOM_POW_TARGET_SPACING,
     nMinimumChainWork = uint256S ''0x00000000000000000000000000000000000000000000000000000bee4b0fe1f4''\<rparr>"

definition CTestNetParams :: Params where
  "CTestNetParams = \<lparr>
     hashGenesisBlock = uint256S ''0x4b9b38252d0121cc14197f2764e85da2b5bd0892dd157f047b624212f97568b8'',
     fCoinbaseMustBeProtected = False,
     nSubsidySlowStartHeight = 201, nSubsidySlowStartInterval = 43200, nSubsidyHalvingInterval = 2200000 - 14400,
     nPorRewardPercentage = 30, nPorRewardTxPercentage = 30,
     nMasternodeRewardPercentage = 30, nMasternodeRewardTxPercentage = 30,
     nPlatformDevFundPercentage = 10, nPlatformDevFundTxPercentage = 10,
     nCoinbaseMaturity = 2,
     nMajorityEnforceBlockUpgrade = 51, nMajorityRejectBlockOutdated = 75, nMajorityWindow = 400,
     vUpgrades = [upgrade_at 170002 ALWAYS_ACTIVE, upgrade_at 170002 NO_ACTIVATION_HEIGHT,
       upgrade_at 170003 ALWAYS_ACTIVE, upgrade_at 170007 1, upgrade_at 170008 NO_ACTIVATION_HEIGHT],
     nEquihashN = 0, nEquihashK = 0,
     powLimit = uint256S ''0007ffffffffffffffffffffffffffffffffffffffffffffffffffffffffffff'',
     nPowAllowMinDifficultyBlocksAfterHeight = Some 0,
     nPowAveragingWindow = 17, nPowMaxAdjustDown = 32, nPowMaxAdjustUp = 16,
     nPreBlossomPowTargetSpacing = PRE_BLOSSOM_POW_TARGET_SPACING,
     nPostBlossomPowTargetSpacing = POST_BLOSSOM_POW_TARGET_SPACING,
     nMinimumChainWork = uint256S ''0x00''\<rparr>"

definition CRegTestParams :: Params where
  "CRegTestParams = \<lparr>
     hashGenesisBlock = uint256S ''0x1894e002dce091337415711e153dfdcd7d75d68ffd5491ddff8986758d4ea0e2'',
     fCoinbaseMustBeProtected = False,
     nSubsidySlowStartHeight = 201, nSubsidySlowStartInterval = 43200, nSubsidyHalvingInterval = 2200000 - 14400,
     nPorRewardPercentage = 30, nPorRewardTxPercentage = 30,
     nMasternodeRewardPercentage = 30, nMasternodeRewardTxPercentage = 30,
     nPlatformDevFundPercentage = 10, nPlatformDevFundTxPercentage = 10,
     nCoinbaseMaturity = 2,
     nMajorityEnforceBlockUpgrade = 750, nMajorityRejectBlockOutdated = 950, nMajorityWindow = 1000,
     vUpgrades = [upgrade_at 170002 ALWAYS_ACTIVE, upgrade_at 170002 NO_ACTIVATION_HEIGHT,
       upgrade_at 170003 NO_ACTIVATION_HEIGHT, upgrade_at 170006 NO_ACTIVATION_HEIGHT,
       upgrade_at 170008 NO_ACTIVATION_HEIGHT],
     nEquihashN = 0, nEquihashK = 0,
     powLimit = uint256S ''0f0f0f0f0f0f0f0f0f0f0f0f0f0f0f0f0f0f0f0f0f0f0f0f0f0f0f0f0f0f0f0f'',
     nPowAllowMinDifficultyBlocksAfterHeight = Some 0,
     nPowAveragingWindow = 17, nPowMaxAdjustDown = 0, nPowMaxAdjustUp = 0,
     nPreBlossomPowTargetSpacing = PRE_BLOSSOM_POW_TARGET_SPACING,
     nPostBlossomPowTargetSpacing = POST_BLOSSOM_POW_TARGET_SPACING,
     nMinimumChainWork = uint256S ''0x00''\<rparr>"

definition UpdateNetworkUpgradeParameters :: "Params \<Rightarrow> u32 \<Rightarrow> int \<Rightarrow> failure + Params" where
  "UpdateNetworkUpgradeParameters consensus idx height =
     and_then (cassert (idx > BASE_SPROUT \<and> idx < MAX_NETWORK_UPGRADES)) (\<lambda>_.
     Inr (consensus\<lparr>vUpgrades := (vUpgrades consensus)
            [unat idx := (vUpgrades consensus ! unat idx)\<lparr>nActivationHeight := height\<rparr>]\<rparr>))"

definition UpdateRegtestPow :: "Params \<Rightarrow> int \<Rightarrow> int \<Rightarrow> bytes \<Rightarrow> Params" where
  "UpdateRegtestPow consensus maxAdjustDown maxAdjustUp limit =
     consensus\<lparr>nPowMaxAdjustDown := maxAdjustDown, nPowMaxAdjustUp := maxAdjustUp, powLimit := limit\<rparr>"

section \<open>Reward addresses\<close>

record CChainParams =
  consensus :: Params
  vPorRewardAddress :: "string list"
  vMasternodeRewardAddress :: "string list"
  vPlatformDevFundAddress :: "string list"

definition GetPorRewardAddressAtHeight :: "CChainParams \<Rightarrow> int \<Rightarrow> failure + string" where
  "GetPorRewardAddressAtHeight params nHeight =
     (let maxHeight = GetLastPorRewardBlockHeight (consensus params);
          size = int (length (vPorRewardAddress params)) in
      and_then (cassert (nHeight > 0 \<and> nHeight \<le> maxHeight)) (\<lambda>_.
      let addressChangeInterval = (maxHeight + size) div size;
          i = nHeight div addressChangeInterval in
      Inr (vPorRewardAddress params ! nat i)))"

definition GetMasternodeRewardAddressAtHeight :: "CChainParams \<Rightarrow> int \<Rightarrow> failure + string" where
  "GetMasternodeRewardAddressAtHeight params nHeight =
     (let maxHeight = GetLastMasternodeRewardBlockHeight (consensus params);
          size = int (length (vMasternodeRewardAddress params)) in
      and_then (cassert (nHeight > 0 \<and> nHeight \<le> maxHeight)) (\<lambda>_.
      let addressChangeInterval = (maxHeight + size) div size;
          i = nHeight div addressChangeInterval in
      Inr (vMasternodeRewardAddress params ! nat i)))"

definition GetPlatformDevFundAddressAtHeight :: "CChainParams \<Rightarrow> int \<Rightarrow> failure + string" where
  "GetPlatformDevFundAddressAtHeight params nHeight =
     (let maxHeight = GetLastPlatformDevFundBlockHeight (consensus params);
          size = int (length (vPlatformDevFundAddress params)) in
      and_then (cassert (nHeight > 0 \<and> nHeight \<le> maxHeight)) (\<lambda>_.
      let addressChangeInterval = (maxHeight + size) div size;
          i = nHeight div addressChangeInterval in
      Inr (vPlatformDevFundAddress params ! nat i)))"

section \<open>Properties\<close>

definition shipped :: "Params \<Rightarrow> bool" where
  "shipped p \<longleftrightarrow> p = CMainParams \<or> p = CTestNetParams \<or> p = CRegTestParams"

lemma shipped_heights:
  "map nActivationHeight (vUpgrades CMainParams) = [0, - 1, 0, 1, - 1]"
  "map nActivationHeight (vUpgrades CTestNetParams) = [0, - 1, 0, 1, - 1]"
  "map nActivationHeight (vUpgrades CRegTestParams) = [0, - 1, - 1, - 1, - 1]"
  by (simp_all add: CMainParams_def CTestNetParams_def CRegTestParams_def)

lemma heights_wf:
  assumes "map nActivationHeight (vUpgrades p) = as" and "length as = 5" and "as ! 0 = 0"
    and "\<And>i j. i < j \<Longrightarrow> j < 5 \<Longrightarrow> as ! i = - 1 \<or> as ! j = - 1 \<or> as ! i \<le> as ! j"
  shows "params_wf p \<and> upgrades_ordered p"
proof -
  have len: "length (vUpgrades p) = 5" using arg_cong [OF assms(1), of length] assms(2) by simp
  have nth: "nActivationHeight (vUpgrades p ! i) = as ! i" if "i < 5" for i
    using that len by (simp flip: assms(1))
  have "upgrades_ordered p"
    unfolding upgrades_ordered_def using assms(4) nth by (metis less_trans)
  then show ?thesis
    using len nth [of 0] assms(3) by (simp add: params_wf_def)
qed

lemma shipped_wf: "shipped p \<Longrightarrow> params_wf p \<and> upgrades_ordered p"
  unfolding shipped_def
  by (elim disjE; rule heights_wf, simp only: shipped_heights; auto simp: nat_less_5 below_numeral)

lemma UpdateNetworkUpgradeParameters_wf:
  "params_wf p \<Longrightarrow> UpdateNetworkUpgradeParameters p idx height = Inr p' \<Longrightarrow> params_wf p'"
  by (auto simp: UpdateNetworkUpgradeParameters_def params_wf_def cassert_def word_less_nat_alt split: if_splits)

lemma change_interval_bound:
  assumes "0 < h" "h \<le> m" "0 < (n :: int)"
  shows "0 \<le> h div ((m + n) div n)" "h div ((m + n) div n) < n"
proof -
  define d where "d = (m + n) div n"
  have "0 < d" using assms by (simp add: d_def pos_imp_zdiv_pos_iff)
  then show "0 \<le> h div ((m + n) div n)" using assms(1) by (simp add: pos_imp_zdiv_nonneg_iff flip: d_def)
  have "m + n = n * d + (m + n) mod n" by (simp only: d_def mult_div_mod_eq)
  moreover have "(m + n) mod n < n" using assms(3) by simp
  ultimately have "h < n * d" using assms(2) by linarith
  show "h div ((m + n) div n) < n"
  proof (rule ccontr)
    assume "\<not> ?thesis"
    then have "n * d \<le> h div d * d" using \<open>0 < d\<close> by (intro mult_right_mono) (simp_all flip: d_def)
    also have "\<dots> \<le> h" using \<open>0 < d\<close> by (simp add: minus_mod_eq_div_mult [symmetric])
    finally show False using \<open>h < n * d\<close> by simp
  qed
qed


lemma CMainParams_wf: "params_wf CMainParams" "upgrades_ordered CMainParams"
  using shipped_wf [of CMainParams] by (simp_all add: shipped_def)

text \<open>At every height of a chain the current epoch exists and is the last upgrade, in the order of the table, whose
  activation height has been reached: the loop of \<^verbatim>\<open>CurrentEpoch\<close> returns before its unsigned counter wraps.\<close>

theorem current_epoch_is_last_active:
  assumes "params_wf p" "0 \<le> h"
  shows "\<exists>e. CurrentEpoch h p = Inr e \<and> unat e < 5 \<and> upgrade_active p h (unat e) \<and>
    (\<forall>j. unat e < j \<and> j < 5 \<longrightarrow> \<not> upgrade_active p h j)"
  using assms by (rule CurrentEpoch_total)

theorem current_epoch_is_last_active_witness:
  "\<exists>e. CurrentEpoch 7 CMainParams = Inr e \<and> upgrade_active CMainParams 7 (unat e)"
  using current_epoch_is_last_active [of CMainParams 7] CMainParams_wf by auto

text \<open>Without an upgrade that is active at the height, \<^verbatim>\<open>CurrentEpoch\<close> does not fall back to the Sprout epoch: its
  unsigned loop counter wraps below zero and the assertion on the upgrade index fails. A negative height fails too.\<close>

theorem current_epoch_without_active_upgrade_asserts:
  assumes "h < 0 \<or> (\<forall>i < 5. \<not> upgrade_active p h i)"
  shows "CurrentEpoch h p = Inl AssertionFailed"
proof (cases "h < 0")
  case True
  then show ?thesis
    by (simp add: CurrentEpoch_def CurrentEpoch_loop.simps [of h p 4] NetworkUpgradeActive_def NetworkUpgradeState_def
        cassert_def and_then_def)
next
  case False
  with assms have "last_active p h 5 = None" by (simp add: last_active_None)
  with False show ?thesis by (simp add: CurrentEpoch_eq)
qed

theorem current_epoch_without_active_upgrade_asserts_witness:
  "CurrentEpoch (- 3) CMainParams = Inl AssertionFailed"
  by (rule current_epoch_without_active_upgrade_asserts) simp

text \<open>When the upgrades are listed in the order of their activation, the epoch of a chain stays the same up to the
  height \<^verbatim>\<open>NextActivationHeight\<close> announces (or forever when it announces none), and at that height, which lies in
  the future, a later epoch begins, under a branch id of its own.\<close>

theorem epoch_changes_exactly_at_next_activation:
  assumes "params_wf p" "upgrades_ordered p" "0 \<le> h" "NextActivationHeight h p = Inr na"
  shows "(\<forall>h'. h \<le> h' \<and> (\<forall>a. na = Some a \<longrightarrow> h' < a) \<longrightarrow> CurrentEpochBranchId h' p = CurrentEpochBranchId h p) \<and>
    (\<forall>a. na = Some a \<longrightarrow> h < a \<and> (\<exists>e e'. CurrentEpoch h p = Inr e \<and> CurrentEpoch a p = Inr e' \<and> e < e' \<and>
       CurrentEpochBranchId h p \<noteq> CurrentEpochBranchId a p))"
proof (intro conjI allI impI)
  fix h' assume "h \<le> h' \<and> (\<forall>a. na = Some a \<longrightarrow> h' < a)"
  then have "CurrentEpoch h' p = CurrentEpoch h p"
    using assms by (intro CurrentEpoch_const) auto
  then show "CurrentEpochBranchId h' p = CurrentEpochBranchId h p" by (simp add: CurrentEpochBranchId_def)
next
  fix a assume a: "na = Some a"
  obtain e where e: "CurrentEpoch h p = Inr e" "unat e < 5" using CurrentEpoch_total [OF assms(1,3)] by blast
  have n: "NextActivationHeight h p = Inr (Some a)" using assms(4) a by simp
  obtain i where "NextEpoch h p = Inr (Some i)" "a = nActivationHeight (vUpgrades p ! unat i)"
    using n by (auto simp: NextActivationHeight_def split: option.splits)
  then show ha: "h < a" using NextEpoch_Some(2) [OF assms(1,3)] by (auto simp: upgrade_pending_def)
  then obtain e' where e': "CurrentEpoch a p = Inr e'" "unat e' < 5"
    using CurrentEpoch_total [of p a] assms(1,3) by auto
  have "e < e'" using CurrentEpoch_changes(2) [OF assms(1,3) n e(1) e'(1) assms(2)] .
  moreover have "CurrentEpochBranchId h p \<noteq> CurrentEpochBranchId a p"
    using e e' branch_id_inj [OF e(2) e'(2)] \<open>e < e'\<close> by (auto simp: CurrentEpochBranchId_def word_less_nat_alt)
  ultimately show "\<exists>e e'. CurrentEpoch h p = Inr e \<and> CurrentEpoch a p = Inr e' \<and> e < e' \<and>
      CurrentEpochBranchId h p \<noteq> CurrentEpochBranchId a p"
    using e(1) e'(1) by blast
qed

theorem epoch_changes_exactly_at_next_activation_witness:
  "NextActivationHeight 0 CMainParams = Inr (Some 1) \<and>
   CurrentEpochBranchId 0 CMainParams \<noteq> CurrentEpochBranchId 1 CMainParams"
proof -
  have "nActivationHeight (vUpgrades CMainParams ! i) = [0, - 1, 0, 1, - 1] ! i" if "i < 5" for i
    using that shipped_heights(1) by (metis (no_types, lifting) CMainParams_wf(1) nth_map params_wf_def)
  then have n: "NextActivationHeight 0 CMainParams = Inr (Some 1)"
    by (simp add: NextActivationHeight_def NextEpoch_eq upgrade_pending_def)
  from conjunct2 [OF epoch_changes_exactly_at_next_activation [OF CMainParams_wf order_refl n]] n show ?thesis
    by blast
qed

lemma reward_index:
  assumes "xs \<noteq> []"
  shows "case and_then (cassert (0 < h \<and> h \<le> m))
      (\<lambda>_. Inr (xs ! nat (h div ((m + int (length xs)) div int (length xs))))) of
      Inr a \<Rightarrow> 0 < h \<and> h \<le> m \<and> a \<in> set xs
    | Inl e \<Rightarrow> e = AssertionFailed \<and> (h \<le> 0 \<or> m < h)"
proof (cases "0 < h \<and> h \<le> m")
  case True
  with change_interval_bound [of h m "int (length xs)"] assms show ?thesis
    by (simp add: cassert_def and_then_def nat_less_iff)
next
  case False
  then show ?thesis by (auto simp: cassert_def and_then_def)
qed

text \<open>The reward address of a height is always an entry of its address list: for every height of the reward period and
  every non-empty list the computed index is in range, and outside the period the assertion fails.\<close>

theorem reward_address_in_list:
  assumes "vPorRewardAddress c \<noteq> []" "vMasternodeRewardAddress c \<noteq> []" "vPlatformDevFundAddress c \<noteq> []"
  shows "(case GetPorRewardAddressAtHeight c h of
            Inr a \<Rightarrow> 0 < h \<and> h \<le> 0x7fffffff \<and> a \<in> set (vPorRewardAddress c)
          | Inl e \<Rightarrow> e = AssertionFailed \<and> (h \<le> 0 \<or> 0x7fffffff < h)) \<and>
    (case GetMasternodeRewardAddressAtHeight c h of
            Inr a \<Rightarrow> 0 < h \<and> h \<le> GetLastMasternodeRewardBlockHeight (consensus c) \<and> a \<in> set (vMasternodeRewardAddress c)
          | Inl e \<Rightarrow> e = AssertionFailed \<and> (h \<le> 0 \<or> GetLastMasternodeRewardBlockHeight (consensus c) < h)) \<and>
    (case GetPlatformDevFundAddressAtHeight c h of
            Inr a \<Rightarrow> 0 < h \<and> h \<le> 0x7fffffff \<and> a \<in> set (vPlatformDevFundAddress c)
          | Inl e \<Rightarrow> e = AssertionFailed \<and> (h \<le> 0 \<or> 0x7fffffff < h))"
  unfolding GetPorRewardAddressAtHeight_def GetMasternodeRewardAddressAtHeight_def GetPlatformDevFundAddressAtHeight_def
    GetLastPorRewardBlockHeight_def GetLastPlatformDevFundBlockHeight_def Let_def
  using assms by (intro conjI reward_index)

theorem reward_address_in_list_witness:
  "\<exists>a. GetPorRewardAddressAtHeight \<lparr>consensus = CMainParams, vPorRewardAddress = [''r3a'', ''r3b''],
     vMasternodeRewardAddress = [''r3c''], vPlatformDevFundAddress = [''r3d'']\<rparr> 700000 = Inr a \<and> a \<in> {''r3a'', ''r3b''}"
proof -
  define c where "c = \<lparr>consensus = CMainParams, vPorRewardAddress = [''r3a'', ''r3b''],
     vMasternodeRewardAddress = [''r3c''], vPlatformDevFundAddress = [''r3d'']\<rparr>"
  have c: "vPorRewardAddress c = [''r3a'', ''r3b'']" "vMasternodeRewardAddress c \<noteq> []" "vPlatformDevFundAddress c \<noteq> []"
    by (simp_all add: c_def)
  have "\<exists>a. GetPorRewardAddressAtHeight c 700000 = Inr a \<and> a \<in> set (vPorRewardAddress c)"
    using conjunct1 [OF reward_address_in_list [of c 700000]] c(1) c(2,3)
    by (cases "GetPorRewardAddressAtHeight c 700000") simp_all
  then show ?thesis unfolding c(1) unfolding c_def by simp
qed

end
