(* ===== verification/Chain.thy ===== *)
theory Chain
  imports ArithUint256
begin

text \<open>
  The block index and the active chain (\<^verbatim>\<open>chain.h\<close>, \<^verbatim>\<open>chain.cpp\<close>, \<^verbatim>\<open>LastCommonAncestor\<close> of \<^verbatim>\<open>main.cpp\<close>). Block index
  entries live in a store from addresses to records, because entries point at each other; a pointer is an address or
  \<open>None\<close>, the null pointer. The skip pointers of the entries make \<^verbatim>\<open>GetAncestor\<close> fast; its reference is the walk along
  \<^verbatim>\<open>pprev\<close>.
\<close>

section \<open>Block index entries\<close>

type_synonym ptr = nat

record CBlockIndex =
  phashBlock :: bytes
  pprev :: "ptr option"
  pskip :: "ptr option"
  nHeight :: int
  nFile :: int
  nDataPos :: u32
  nUndoPos :: u32
  nChainWork :: base_uint
  nTx :: u32
  nChainTx :: u32
  nStatus :: u32
  nCachedBranchId :: "u32 option"
  hashSproutAnchor :: bytes
  hashFinalSproutRoot :: bytes
  nSproutValue :: "int option"
  nChainSproutValue :: "int option"
  nSaplingValue :: int
  nChainSaplingValue :: "int option"
  nVersion :: int
  hashMerkleRoot :: bytes
  hashFinalSaplingRoot :: bytes
  nTime :: u32
  nBits :: u32
  nNonce :: bytes
  nSequenceId :: u32

type_synonym block_store = "ptr \<Rightarrow> CBlockIndex option"

definition null256 :: bytes where
  "null256 = replicate 32 0"

definition CBlockIndex_SetNull :: CBlockIndex where
  "CBlockIndex_SetNull = \<lparr>phashBlock = [], pprev = None, pskip = None, nHeight = 0, nFile = 0, nDataPos = 0,
     nUndoPos = 0, nChainWork = uint_zero, nTx = 0, nChainTx = 0, nStatus = 0, nCachedBranchId = None,
     hashSproutAnchor = null256, hashFinalSproutRoot = null256, nSproutValue = None, nChainSproutValue = None,
     nSaplingValue = 0, nChainSaplingValue = None, nVersion = 0, hashMerkleRoot = null256,
     hashFinalSaplingRoot = null256, nTime = 0, nBits = 0, nNonce = null256, nSequenceId = 0\<rparr>"

definition deref :: "block_store \<Rightarrow> ptr \<Rightarrow> failure + CBlockIndex" where
  "deref st p = (case st p of None \<Rightarrow> Inl BadPointer | Some b \<Rightarrow> Inr b)"

lemma deref_simps [simp]:
  "st p = Some b \<Longrightarrow> deref st p = Inr b"
  "st p = None \<Longrightarrow> deref st p = Inl BadPointer"
  by (simp_all add: deref_def)

section \<open>Validity levels\<close>

abbreviation BLOCK_VALID_HEADER :: u32 where "BLOCK_VALID_HEADER \<equiv> 1"
abbreviation BLOCK_VALID_TREE :: u32 where "BLOCK_VALID_TREE \<equiv> 2"
abbreviation BLOCK_VALID_TRANSACTIONS :: u32 where "BLOCK_VALID_TRANSACTIONS \<equiv> 3"
abbreviation BLOCK_VALID_CHAIN :: u32 where "BLOCK_VALID_CHAIN \<equiv> 4"
abbreviation BLOCK_VALID_SCRIPTS :: u32 where "BLOCK_VALID_SCRIPTS \<equiv> 5"
abbreviation BLOCK_VALID_MASK :: u32 where "BLOCK_VALID_MASK \<equiv> 7"
abbreviation BLOCK_HAVE_DATA :: u32 where "BLOCK_HAVE_DATA \<equiv> 8"
abbreviation BLOCK_HAVE_UNDO :: u32 where "BLOCK_HAVE_UNDO \<equiv> 16"
abbreviation BLOCK_FAILED_MASK :: u32 where "BLOCK_FAILED_MASK \<equiv> 96"

definition IsValid :: "CBlockIndex \<Rightarrow> u32 \<Rightarrow> failure + bool" where
  "IsValid b nUpTo =
     and_then (cassert (nUpTo AND NOT BLOCK_VALID_MASK = 0)) (\<lambda>_.
     Inr (if nStatus b AND BLOCK_FAILED_MASK \<noteq> 0 then False
          else nStatus b AND BLOCK_VALID_MASK \<ge> nUpTo))"

definition RaiseValidity :: "CBlockIndex \<Rightarrow> u32 \<Rightarrow> failure + CBlockIndex \<times> bool" where
  "RaiseValidity b nUpTo =
     and_then (cassert (nUpTo AND NOT BLOCK_VALID_MASK = 0)) (\<lambda>_.
     Inr (if nStatus b AND BLOCK_FAILED_MASK \<noteq> 0 then (b, False)
          else if nStatus b AND BLOCK_VALID_MASK < nUpTo
               then (b\<lparr>nStatus := (nStatus b AND NOT BLOCK_VALID_MASK) OR nUpTo\<rparr>, True)
               else (b, False)))"

section \<open>Block times\<close>

definition GetBlockTime :: "CBlockIndex \<Rightarrow> int" where
  "GetBlockTime b = uint (nTime b)"

abbreviation nMedianTimeSpan :: nat where "nMedianTimeSpan \<equiv> 11"

fun median_times :: "block_store \<Rightarrow> nat \<Rightarrow> ptr option \<Rightarrow> failure + int list" where
  "median_times st 0 pindex = Inr []"
| "median_times st (Suc i) None = Inr []"
| "median_times st (Suc i) (Some p) =
     and_then (deref st p) (\<lambda>b.
     and_then (median_times st i (pprev b)) (\<lambda>ts. Inr (GetBlockTime b # ts)))"

definition GetMedianTimePast :: "block_store \<Rightarrow> ptr \<Rightarrow> failure + int" where
  "GetMedianTimePast st p =
     and_then (median_times st nMedianTimeSpan (Some p)) (\<lambda>ts.
     let pmedian = sort (rev ts) in Inr (pmedian ! (length pmedian div 2)))"

section \<open>Ancestors\<close>

definition InvertLowestOne :: "int \<Rightarrow> int" where
  "InvertLowestOne n = n AND (n - 1)"

definition GetSkipHeight :: "int \<Rightarrow> int" where
  "GetSkipHeight height =
     (if height < 2 then 0
      else if height AND 1 \<noteq> 0 then InvertLowestOne (InvertLowestOne (height - 1)) + 1
      else InvertLowestOne height)"

lemma InvertLowestOne_less: "0 < n \<Longrightarrow> 0 \<le> InvertLowestOne n \<and> InvertLowestOne n < n"
  using AND_upper2 [of "n - 1" n] by (simp add: InvertLowestOne_def)

lemma GetSkipHeight_less:
  assumes "0 < h"
  shows "0 \<le> GetSkipHeight h" "GetSkipHeight h < h"
proof -
  have "0 \<le> InvertLowestOne (InvertLowestOne (h - 1)) \<and> InvertLowestOne (InvertLowestOne (h - 1)) + 1 < h" if "2 \<le> h"
  proof (cases "InvertLowestOne (h - 1) = 0")
    case True
    with that show ?thesis by (simp add: InvertLowestOne_def)
  next
    case False
    with that InvertLowestOne_less [of "h - 1"] InvertLowestOne_less [of "InvertLowestOne (h - 1)"] show ?thesis
      by linarith
  qed
  with assms InvertLowestOne_less [of h] show "0 \<le> GetSkipHeight h" "GetSkipHeight h < h"
    by (auto simp: GetSkipHeight_def)
qed

function GetAncestor_loop :: "block_store \<Rightarrow> nat \<Rightarrow> ptr \<Rightarrow> int \<Rightarrow> failure + ptr" where
  "GetAncestor_loop st height pindexWalk heightWalk =
     (if heightWalk > int height then
        let heightSkip = GetSkipHeight heightWalk;
            heightSkipPrev = GetSkipHeight (heightWalk - 1)
        in case deref st pindexWalk of
             Inl e \<Rightarrow> Inl e
           | Inr b \<Rightarrow>
             if pskip b \<noteq> None \<and> (heightSkip = int height \<or>
                  (heightSkip > int height \<and> \<not> (heightSkipPrev < heightSkip - 2 \<and> heightSkipPrev \<ge> int height)))
             then GetAncestor_loop st height (the (pskip b)) heightSkip
             else if pprev b = None then Inl AssertionFailed
             else GetAncestor_loop st height (the (pprev b)) (heightWalk - 1)
      else Inr pindexWalk)"
  by pat_completeness auto

termination
  by (relation "measure (\<lambda>(st, height, p, heightWalk). nat heightWalk)") (auto simp: GetSkipHeight_less)

declare GetAncestor_loop.simps [simp del]

definition GetAncestor :: "block_store \<Rightarrow> ptr \<Rightarrow> int \<Rightarrow> failure + ptr option" where
  "GetAncestor st this height =
     and_then (deref st this) (\<lambda>b.
     if height > nHeight b \<or> height < 0 then Inr None
     else and_then (GetAncestor_loop st (nat height) this (nHeight b)) (\<lambda>p. Inr (Some p)))"

definition BuildSkip :: "block_store \<Rightarrow> CBlockIndex \<Rightarrow> failure + CBlockIndex" where
  "BuildSkip st b =
     (case pprev b of
        None \<Rightarrow> Inr b
      | Some q \<Rightarrow> and_then (GetAncestor st q (GetSkipHeight (nHeight b))) (\<lambda>s. Inr (b\<lparr>pskip := s\<rparr>)))"

section \<open>The active chain\<close>

record CChain =
  vChain :: "ptr option list"

definition chain_Genesis :: "CChain \<Rightarrow> ptr option" where
  "chain_Genesis c = (if length (vChain c) > 0 then vChain c ! 0 else None)"

definition chain_Tip :: "CChain \<Rightarrow> ptr option" where
  "chain_Tip c = (if length (vChain c) > 0 then vChain c ! (length (vChain c) - 1) else None)"

definition chain_at :: "CChain \<Rightarrow> int \<Rightarrow> ptr option" where
  "chain_at c h = (if h < 0 \<or> h \<ge> int (length (vChain c)) then None else vChain c ! nat h)"

definition chain_Contains :: "block_store \<Rightarrow> CChain \<Rightarrow> ptr \<Rightarrow> failure + bool" where
  "chain_Contains st c pindex = and_then (deref st pindex) (\<lambda>b. Inr (chain_at c (nHeight b) = Some pindex))"

definition chain_Next :: "block_store \<Rightarrow> CChain \<Rightarrow> ptr \<Rightarrow> failure + ptr option" where
  "chain_Next st c pindex =
     and_then (deref st pindex) (\<lambda>b.
     and_then (chain_Contains st c pindex) (\<lambda>contained.
     Inr (if contained then chain_at c (nHeight b + 1) else None)))"

definition chain_Height :: "CChain \<Rightarrow> int" where
  "chain_Height c = int (length (vChain c)) - 1"

definition vec_resize :: "'a option list \<Rightarrow> nat \<Rightarrow> 'a option list" where
  "vec_resize xs n = take n xs @ replicate (n - length xs) None"

text \<open>
  The loops below follow \<^verbatim>\<open>pprev\<close> pointers. Whether they end depends on the store, so they are partial functions: the
  value \<open>None\<close> means that the loop does not end.
\<close>

partial_function (option) SetTip_loop :: "block_store \<Rightarrow> ptr option \<Rightarrow> ptr option list \<Rightarrow> (failure + ptr option list) option"
where
  "SetTip_loop st pindex chain =
     (case pindex of
        None \<Rightarrow> Some (Inr chain)
      | Some p \<Rightarrow>
        (case deref st p of
           Inl e \<Rightarrow> Some (Inl e)
         | Inr b \<Rightarrow>
           if nHeight b < 0 \<or> nHeight b \<ge> int (length chain) then Some (Inl BadPointer)
           else if chain ! nat (nHeight b) = Some p then Some (Inr chain)
           else SetTip_loop st (pprev b) (chain[nat (nHeight b) := Some p])))"

definition SetTip :: "block_store \<Rightarrow> CChain \<Rightarrow> ptr option \<Rightarrow> (failure + CChain) option" where
  "SetTip st c pindex =
     (case pindex of
        None \<Rightarrow> Some (Inr (c\<lparr>vChain := []\<rparr>))
      | Some p \<Rightarrow>
        (case deref st p of
           Inl e \<Rightarrow> Some (Inl e)
         | Inr b \<Rightarrow> map_option (\<lambda>r. and_then r (\<lambda>chain. Inr (c\<lparr>vChain := chain\<rparr>)))
                      (SetTip_loop st pindex (vec_resize (vChain c) (nat (nHeight b + 1))))))"

partial_function (option) GetLocator_loop ::
  "block_store \<Rightarrow> CChain \<Rightarrow> ptr option \<Rightarrow> int \<Rightarrow> bytes list \<Rightarrow> (failure + bytes list) option"
where
  "GetLocator_loop st c pindex nStep vHave =
     (case pindex of
        None \<Rightarrow> Some (Inr vHave)
      | Some p \<Rightarrow>
        (case deref st p of
           Inl e \<Rightarrow> Some (Inl e)
         | Inr b \<Rightarrow>
           let vHave = vHave @ [phashBlock b]
           in if nHeight b = 0 then Some (Inr vHave)
              else let h = max (nHeight b - nStep) 0
                   in (case (if chain_at c (nHeight b) = Some p then Inr (chain_at c h) else GetAncestor st p h) of
                         Inl e \<Rightarrow> Some (Inl e)
                       | Inr q \<Rightarrow>
                         GetLocator_loop st c q (if length vHave > 10 then nStep * 2 else nStep) vHave)))"

definition GetLocator :: "block_store \<Rightarrow> CChain \<Rightarrow> ptr option \<Rightarrow> (failure + bytes list) option" where
  "GetLocator st c pindex =
     GetLocator_loop st c (if pindex = None then chain_Tip c else pindex) 1 []"

partial_function (option) FindFork_loop :: "block_store \<Rightarrow> CChain \<Rightarrow> ptr option \<Rightarrow> (failure + ptr option) option"
where
  "FindFork_loop st c pindex =
     (case pindex of
        None \<Rightarrow> Some (Inr None)
      | Some p \<Rightarrow>
        (case deref st p of
           Inl e \<Rightarrow> Some (Inl e)
         | Inr b \<Rightarrow> if chain_at c (nHeight b) = Some p then Some (Inr (Some p)) else FindFork_loop st c (pprev b)))"

definition FindFork :: "block_store \<Rightarrow> CChain \<Rightarrow> ptr \<Rightarrow> (failure + ptr option) option" where
  "FindFork st c pindex =
     (case and_then (deref st pindex) (\<lambda>b.
             if nHeight b > chain_Height c then GetAncestor st pindex (chain_Height c) else Inr (Some pindex)) of
        Inl e \<Rightarrow> Some (Inl e)
      | Inr q \<Rightarrow> FindFork_loop st c q)"

partial_function (option) LastCommonAncestor_loop ::
  "block_store \<Rightarrow> ptr option \<Rightarrow> ptr option \<Rightarrow> (failure + ptr option) option"
where
  "LastCommonAncestor_loop st pa pb =
     (if pa \<noteq> pb \<and> pa \<noteq> None \<and> pb \<noteq> None then
        (case deref st (the pa) of
           Inl e \<Rightarrow> Some (Inl e)
         | Inr a \<Rightarrow>
           (case deref st (the pb) of
              Inl e \<Rightarrow> Some (Inl e)
            | Inr b \<Rightarrow> LastCommonAncestor_loop st (pprev a) (pprev b)))
      else Some (if pa = pb then Inr pa else Inl AssertionFailed))"

definition LastCommonAncestor :: "block_store \<Rightarrow> ptr \<Rightarrow> ptr \<Rightarrow> (failure + ptr option) option" where
  "LastCommonAncestor st pa pb =
     (case and_then (deref st pa) (\<lambda>a. and_then (deref st pb) (\<lambda>b.
             if nHeight a > nHeight b then
               and_then (GetAncestor st pa (nHeight b)) (\<lambda>qa. Inr (qa, Some pb))
             else if nHeight b > nHeight a then
               and_then (GetAncestor st pb (nHeight a)) (\<lambda>qb. Inr (Some pa, qb))
             else Inr (Some pa, Some pb))) of
        Inl e \<Rightarrow> Some (Inl e)
      | Inr (qa, qb) \<Rightarrow> LastCommonAncestor_loop st qa qb)"

section \<open>The tree of blocks\<close>

text \<open>The reference for ancestors: follow \<^verbatim>\<open>pprev\<close> a number of times.\<close>

fun ancestor :: "block_store \<Rightarrow> nat \<Rightarrow> ptr \<Rightarrow> ptr option" where
  "ancestor st 0 p = Some p"
| "ancestor st (Suc n) p = (case st p of None \<Rightarrow> None | Some b \<Rightarrow>
     (case pprev b of None \<Rightarrow> None | Some q \<Rightarrow> ancestor st n q))"

definition entry_wf :: "block_store \<Rightarrow> ptr \<Rightarrow> CBlockIndex \<Rightarrow> bool" where
  "entry_wf st p b \<longleftrightarrow>
     (case pprev b of None \<Rightarrow> nHeight b = 0
      | Some q \<Rightarrow> (\<exists>qb. st q = Some qb \<and> 0 \<le> nHeight qb \<and> nHeight b = nHeight qb + 1)) \<and>
     (\<forall>s. pskip b = Some s \<longrightarrow> ancestor st (nat (nHeight b - GetSkipHeight (nHeight b))) p = Some s)"

definition tree_wf :: "block_store \<Rightarrow> bool" where
  "tree_wf st \<longleftrightarrow> (\<forall>p b. st p = Some b \<longrightarrow> entry_wf st p b)"

lemma tree_wf_parent:
  assumes "tree_wf st" "st p = Some b"
  obtains (genesis) "pprev b = None" "nHeight b = 0"
  | (child) q qb where "pprev b = Some q" "st q = Some qb" "0 \<le> nHeight qb" "nHeight b = nHeight qb + 1"
  using assms unfolding tree_wf_def entry_wf_def by (cases "pprev b") force+

lemma tree_wf_height: "tree_wf st \<Longrightarrow> st p = Some b \<Longrightarrow> 0 \<le> nHeight b"
  by (erule (1) tree_wf_parent) auto

lemma tree_wf_skip:
  "tree_wf st \<Longrightarrow> st p = Some b \<Longrightarrow> pskip b = Some s \<Longrightarrow>
   ancestor st (nat (nHeight b - GetSkipHeight (nHeight b))) p = Some s"
  by (simp add: tree_wf_def entry_wf_def)

lemma ancestor_add: "ancestor st (j + k) p = Option.bind (ancestor st j p) (ancestor st k)"
  by (induction j arbitrary: p) (auto split: option.splits)

lemma ancestor_exists:
  assumes "tree_wf st"
  shows "st p = Some b \<Longrightarrow> int k \<le> nHeight b \<Longrightarrow>
    \<exists>q qb. ancestor st k p = Some q \<and> st q = Some qb \<and> nHeight qb = nHeight b - int k"
proof (induction k arbitrary: p b)
  case (Suc k)
  from assms Suc.prems(1) show ?case
  proof (cases rule: tree_wf_parent)
    case (child q qb)
    with Suc.IH [of q qb] Suc.prems show ?thesis by auto
  qed (use Suc.prems in simp)
qed simp

lemma ancestor_None: "tree_wf st \<Longrightarrow> st p = Some b \<Longrightarrow> nHeight b < int k \<Longrightarrow> ancestor st k p = None"
proof (induction k arbitrary: p b)
  case 0
  with tree_wf_height [OF 0(1,2)] show ?case by simp
next
  case (Suc k)
  from Suc.prems(1,2) show ?case
  proof (cases rule: tree_wf_parent)
    case (child q qb)
    with Suc.IH [of q qb] Suc.prems show ?thesis by simp
  qed (use Suc.prems in simp)
qed

lemma GetAncestor_loop_ancestor:
  "tree_wf st \<Longrightarrow> st p = Some b \<Longrightarrow> nHeight b = hw \<Longrightarrow> int h \<le> hw \<Longrightarrow>
    \<exists>q. GetAncestor_loop st h p hw = Inr q \<and> ancestor st (nat (hw - int h)) p = Some q"
proof (induction st h p hw arbitrary: b rule: GetAncestor_loop.induct)
  case (1 st h p hw)
  note wf = "1.prems"(1) and p = "1.prems"(2) and hw = "1.prems"(3)
  have d: "deref st p = Inr b" using p by simp
  show ?case
  proof (cases "hw > int h")
    case False
    with "1.prems" show ?thesis by (subst GetAncestor_loop.simps) simp
  next
    case True
    let ?follow = "pskip b \<noteq> None \<and> (GetSkipHeight hw = int h \<or> (GetSkipHeight hw > int h \<and>
        \<not> (GetSkipHeight (hw - 1) < GetSkipHeight hw - 2 \<and> GetSkipHeight (hw - 1) \<ge> int h)))"
    show ?thesis
    proof (cases ?follow)
      case follow: True
      then obtain s where s: "pskip b = Some s" by auto
      have sh: "0 \<le> GetSkipHeight hw" "GetSkipHeight hw < hw" "int h \<le> GetSkipHeight hw"
        using True GetSkipHeight_less [of hw] follow by auto
      have a: "ancestor st (nat (hw - GetSkipHeight hw)) p = Some s"
        using tree_wf_skip [OF wf p s] hw by simp
      obtain sb where sb: "st s = Some sb" "nHeight sb = GetSkipHeight hw"
        using ancestor_exists [OF wf p, of "nat (hw - GetSkipHeight hw)"] a sh hw by auto
      obtain q where q: "GetAncestor_loop st h s (GetSkipHeight hw) = Inr q"
          "ancestor st (nat (GetSkipHeight hw - int h)) s = Some q"
        using "1.IH"(1) [OF True refl refl d follow] wf sb sh(3) s by auto
      have "nat (hw - int h) = nat (hw - GetSkipHeight hw) + nat (GetSkipHeight hw - int h)" using sh by simp
      then have "ancestor st (nat (hw - int h)) p = Some q" using a q(2) by (simp add: ancestor_add)
      moreover have "GetAncestor_loop st h p hw = Inr q"
        using q(1) True follow p s by (subst GetAncestor_loop.simps) (simp add: Let_def)
      ultimately show ?thesis by blast
    next
      case walk: False
      from wf p show ?thesis
      proof (cases rule: tree_wf_parent)
        case genesis
        with True hw show ?thesis by simp
      next
        case (child q0 qb)
        then obtain q where q: "GetAncestor_loop st h q0 (hw - 1) = Inr q"
            "ancestor st (nat (hw - 1 - int h)) q0 = Some q"
          using "1.IH"(2) [OF True refl refl d walk] wf hw True by auto
        have "nat (hw - int h) = Suc (nat (hw - 1 - int h))" using True by simp
        then have "ancestor st (nat (hw - int h)) p = Some q" using q(2) child p by simp
        moreover have "GetAncestor_loop st h p hw = Inr q"
          using q(1) True walk p child by (subst GetAncestor_loop.simps) (auto simp: Let_def)
        ultimately show ?thesis by blast
      qed
    qed
  qed
qed

lemma GetAncestor_ancestor:
  assumes "tree_wf st" "st p = Some b"
  shows "GetAncestor st p h = Inr (if 0 \<le> h \<and> h \<le> nHeight b then ancestor st (nat (nHeight b - h)) p else None)"
proof (cases "0 \<le> h \<and> h \<le> nHeight b")
  case True
  with GetAncestor_loop_ancestor [OF assms refl, of "nat h"] assms(2) show ?thesis
    by (auto simp: GetAncestor_def)
next
  case False
  with assms(2) show ?thesis by (auto simp: GetAncestor_def)
qed

text \<open>A small tree with a fork, for the witnesses: blocks 0, 1, 2 on one branch and 0, 3 on the other.\<close>

definition fork_tree :: block_store where
  "fork_tree = Map.empty(
     0 \<mapsto> CBlockIndex_SetNull\<lparr>phashBlock := [0]\<rparr>,
     Suc 0 \<mapsto> CBlockIndex_SetNull\<lparr>phashBlock := [1], pprev := Some 0, pskip := Some 0, nHeight := 1\<rparr>,
     2 \<mapsto> CBlockIndex_SetNull\<lparr>phashBlock := [2], pprev := Some 1, pskip := Some 0, nHeight := 2\<rparr>,
     3 \<mapsto> CBlockIndex_SetNull\<lparr>phashBlock := [3], pprev := Some 0, pskip := Some 0, nHeight := 1\<rparr>)"

lemma fork_tree_wf: "tree_wf fork_tree"
  unfolding tree_wf_def entry_wf_def fork_tree_def
  by (auto simp: CBlockIndex_SetNull_def GetSkipHeight_def InvertLowestOne_def eval_nat_numeral split: if_splits)

lemma fork_tree_entries:
  "fork_tree 0 = Some (CBlockIndex_SetNull\<lparr>phashBlock := [0]\<rparr>)"
  "fork_tree 1 = Some (CBlockIndex_SetNull\<lparr>phashBlock := [1], pprev := Some 0, pskip := Some 0, nHeight := 1\<rparr>)"
  "fork_tree 2 = Some (CBlockIndex_SetNull\<lparr>phashBlock := [2], pprev := Some 1, pskip := Some 0, nHeight := 2\<rparr>)"
  "fork_tree 3 = Some (CBlockIndex_SetNull\<lparr>phashBlock := [3], pprev := Some 0, pskip := Some 0, nHeight := 1\<rparr>)"
  by (simp_all add: fork_tree_def)

text \<open>C5: The skip list is an implementation of the plain walk: in every well-formed block tree \<^verbatim>\<open>GetAncestor\<close> returns
  without failure, and returns exactly the entry reached by following \<^verbatim>\<open>pprev\<close> down to the requested height, or the null
  pointer when the height is negative or above the block.\<close>

theorem GetAncestor_is_pprev_walk:
  assumes "tree_wf st" "st p = Some b"
  shows "(0 \<le> h \<and> h \<le> nHeight b \<longrightarrow>
      (\<exists>q qb. GetAncestor st p h = Inr (Some q) \<and> ancestor st (nat (nHeight b - h)) p = Some q \<and>
         st q = Some qb \<and> nHeight qb = h)) \<and>
    (h < 0 \<or> nHeight b < h \<longrightarrow> GetAncestor st p h = Inr None)"
  using ancestor_exists [OF assms, of "nat (nHeight b - h)"] by (auto simp: GetAncestor_ancestor [OF assms])

theorem GetAncestor_is_pprev_walk_witness:
  "\<exists>q qb. GetAncestor fork_tree 2 1 = Inr (Some q) \<and> ancestor fork_tree 1 2 = Some q \<and> fork_tree q = Some qb \<and> nHeight qb = 1"
  using GetAncestor_is_pprev_walk [OF fork_tree_wf fork_tree_entries(3), of 1] by simp

text \<open>A new entry that points at an existing one keeps the tree well-formed once its skip pointer is built.\<close>

lemma ancestor_upd:
  assumes "tree_wf st" "st n = None" "st p = Some b" "int k \<le> nHeight b"
  shows "ancestor (st(n \<mapsto> x)) k p = ancestor st k p"
  using assms
proof (induction k arbitrary: p b)
  case (Suc k)
  from Suc.prems(1,3) show ?case
  proof (cases rule: tree_wf_parent)
    case (child q qb)
    with Suc have "p \<noteq> n" by auto
    with child Suc.IH [of q qb] Suc.prems show ?thesis by simp
  qed (use Suc.prems in simp)
qed simp

lemma entry_wf_upd:
  assumes "tree_wf st" "st n = None" "st p = Some b"
  shows "entry_wf (st(n \<mapsto> x)) p b"
proof -
  have e: "entry_wf st p b" using assms by (simp add: tree_wf_def)
  have h0: "0 \<le> nHeight b" using tree_wf_height assms(1,3) .
  have "ancestor (st(n \<mapsto> x)) (nat (nHeight b - GetSkipHeight (nHeight b))) p = Some s" if "pskip b = Some s" for s
  proof -
    have "0 \<le> GetSkipHeight (nHeight b)" using GetSkipHeight_less(1) [of "nHeight b"] by (cases "0 < nHeight b") (auto simp: GetSkipHeight_def)
    then show ?thesis
      using ancestor_upd [OF assms, of "nat (nHeight b - GetSkipHeight (nHeight b))"] tree_wf_skip [OF assms(1,3) that] h0 by simp
  qed
  with e assms(2) show ?thesis unfolding entry_wf_def by (auto split: option.splits)
qed

lemma tree_wf_add:
  assumes "tree_wf st" "st n = None" "pprev b = Some q" "st q = Some qb" "nHeight b = nHeight qb + 1"
    and "BuildSkip st b = Inr b'"
  shows "tree_wf (st(n \<mapsto> b'))"
proof -
  let ?h = "nHeight qb + 1"
  have h0: "0 \<le> nHeight qb" using tree_wf_height assms(1,4) .
  have sh: "0 \<le> GetSkipHeight ?h" "GetSkipHeight ?h \<le> nHeight qb" using GetSkipHeight_less [of ?h] h0 by auto
  then obtain s where s: "ancestor st (nat (nHeight qb - GetSkipHeight ?h)) q = Some s"
    using ancestor_exists [OF assms(1,4), of "nat (nHeight qb - GetSkipHeight ?h)"] by auto
  have b': "b' = b\<lparr>pskip := Some s\<rparr>"
    using assms(3,5,6) sh s by (simp add: BuildSkip_def GetAncestor_ancestor [OF assms(1,4)])
  have "ancestor (st(n \<mapsto> b')) (nat (nHeight qb - GetSkipHeight ?h)) q = Some s"
    using ancestor_upd [OF assms(1,2,4), of _ b'] s sh by simp
  moreover have "nat (?h - GetSkipHeight ?h) = Suc (nat (nHeight qb - GetSkipHeight ?h))" using sh by simp
  moreover have "q \<noteq> n" using assms(2,4) by auto
  ultimately have "entry_wf (st(n \<mapsto> b')) n b'"
    using assms(3-5) h0 by (simp add: entry_wf_def b')
  moreover have "entry_wf (st(n \<mapsto> b')) p pb" if "st p = Some pb" for p pb
    using entry_wf_upd [OF assms(1,2) that] .
  ultimately show ?thesis by (auto simp: tree_wf_def)
qed

section \<open>The active chain is a branch of the tree\<close>

definition chain_of :: "block_store \<Rightarrow> ptr \<Rightarrow> CBlockIndex \<Rightarrow> ptr option list" where
  "chain_of st t tb = map (\<lambda>i. ancestor st (nat (nHeight tb) - i) t) [0 ..< Suc (nat (nHeight tb))]"

definition chain_wf :: "block_store \<Rightarrow> CChain \<Rightarrow> bool" where
  "chain_wf st c \<longleftrightarrow> vChain c = [] \<or> (\<exists>t tb. st t = Some tb \<and> vChain c = chain_of st t tb)"

lemma chain_of_nth: "i \<le> nat (nHeight tb) \<Longrightarrow> chain_of st t tb ! i = ancestor st (nat (nHeight tb) - i) t"
  unfolding chain_of_def by (subst nth_map) (simp_all del: upt_Suc)

lemma length_chain_of [simp]: "length (chain_of st t tb) = Suc (nat (nHeight tb))"
  by (simp add: chain_of_def)

text \<open>Below each of its entries, a vector that is consistent holds the ancestors of that entry.\<close>

definition consistent :: "block_store \<Rightarrow> ptr option list \<Rightarrow> nat \<Rightarrow> bool" where
  "consistent st xs n \<longleftrightarrow> (\<forall>i r. i < n \<and> xs ! i = Some r \<longrightarrow> (\<forall>k\<le>i. xs ! k = ancestor st (i - k) r))"

lemma consistent_chain:
  assumes "chain_wf st c"
  shows "consistent st (vec_resize (vChain c) n) n"
  unfolding consistent_def
proof (intro allI impI)
  fix i r k
  assume i: "i < n \<and> vec_resize (vChain c) n ! i = Some r" and k: "k \<le> i"
  have il: "i < length (vChain c)"
    using i by (auto simp: vec_resize_def nth_append split: if_splits)
  then obtain t tb where t: "st t = Some tb" "vChain c = chain_of st t tb"
    using assms by (auto simp: chain_wf_def)
  have eq: "vec_resize (vChain c) n ! j = chain_of st t tb ! j" if "j \<le> i" for j
    using that i il t(2) by (simp add: vec_resize_def nth_append)
  have "ancestor st (nat (nHeight tb) - i) t = Some r"
    using i eq [of i] il t(2) by (simp add: chain_of_nth)
  moreover have "nat (nHeight tb) - k = (nat (nHeight tb) - i) + (i - k)" using il t(2) k by simp
  ultimately have "ancestor st (nat (nHeight tb) - k) t = ancestor st (i - k) r" by (simp add: ancestor_add)
  then show "vec_resize (vChain c) n ! k = ancestor st (i - k) r"
    using eq [OF k] il t(2) k by (simp add: chain_of_nth)
qed

lemma SetTip_loop_path:
  assumes "tree_wf st"
  shows "st q = Some qb \<Longrightarrow> nHeight qb = int j \<Longrightarrow> j < length xs \<Longrightarrow> consistent st xs (Suc j) \<Longrightarrow>
    \<exists>ys. SetTip_loop st (Some q) xs = Some (Inr ys) \<and> length ys = length xs \<and>
      (\<forall>i\<le>j. ys ! i = ancestor st (j - i) q) \<and> (\<forall>i>j. ys ! i = xs ! i)"
proof (induction j arbitrary: q qb xs)
  case 0
  from assms 0(1) show ?case
  proof (cases rule: tree_wf_parent)
    case genesis
    with 0 show ?thesis
      by (auto simp: SetTip_loop.simps [of st "Some q"] SetTip_loop.simps [of st None])
  qed (use 0 in simp)
next
  case (Suc j)
  show ?case
  proof (cases "xs ! Suc j = Some q")
    case True
    with Suc.prems have "\<forall>i\<le>Suc j. xs ! i = ancestor st (Suc j - i) q" by (simp add: consistent_def)
    with True Suc.prems show ?thesis by (simp add: SetTip_loop.simps)
  next
    case False
    from assms Suc.prems(1) show ?thesis
    proof (cases rule: tree_wf_parent)
      case (child q' qb')
      let ?xs = "xs[Suc j := Some q]"
      have "consistent st ?xs (Suc j)" using Suc.prems(4) by (auto simp: consistent_def nth_list_update)
      then obtain ys where ys: "SetTip_loop st (Some q') ?xs = Some (Inr ys)" "length ys = length xs"
          "\<forall>i\<le>j. ys ! i = ancestor st (j - i) q'" "\<forall>i>j. ys ! i = ?xs ! i"
        using Suc.IH [of q' qb' ?xs] child Suc.prems by auto
      have "nat (int j + 1) = Suc j" by simp
      then have "SetTip_loop st (Some q) xs = Some (Inr ys)"
        using ys(1) Suc.prems child False by (subst SetTip_loop.simps) simp
      moreover have "ys ! i = ancestor st (Suc j - i) q" if "i \<le> Suc j" for i
        using that ys(3,4) Suc.prems child by (cases "i = Suc j") (simp_all add: Suc_diff_le)
      ultimately show ?thesis using ys(2,4) by (intro exI [of _ ys]) simp
    qed (use Suc.prems in simp)
  qed
qed

lemma SetTip_chain_of:
  assumes "tree_wf st" "chain_wf st c" "st p = Some b"
  shows "SetTip st c (Some p) = Some (Inr (c\<lparr>vChain := chain_of st p b\<rparr>))"
proof -
  have h: "0 \<le> nHeight b" using tree_wf_height assms(1,3) .
  let ?n = "nat (nHeight b + 1)" let ?xs = "vec_resize (vChain c) (nat (nHeight b + 1))"
  have len: "length ?xs = Suc (nat (nHeight b))" using h by (simp add: vec_resize_def)
  obtain ys where ys: "SetTip_loop st (Some p) ?xs = Some (Inr ys)" "length ys = length ?xs"
      "\<forall>i\<le>nat (nHeight b). ys ! i = ancestor st (nat (nHeight b) - i) p"
    using SetTip_loop_path [OF assms(1,3), of "nat (nHeight b)" ?xs] consistent_chain [OF assms(2), of ?n] len h
    by (auto simp: nat_add_distrib)
  have "ys = chain_of st p b"
    using ys(2,3) len by (intro nth_equalityI) (simp_all add: chain_of_nth)
  with ys(1) assms(3) show ?thesis by (simp add: SetTip_def)
qed

text \<open>C6: \<^verbatim>\<open>SetTip\<close>, which stops rewriting the vector at the first entry that already matches, always ends and leaves
  exactly the branch from the genesis block to the new tip: from any active chain, whatever the fork point, each
  height holds the ancestor of the new tip at that height.\<close>

theorem SetTip_makes_branch_of_tip:
  assumes "tree_wf st" "chain_wf st c" "st p = Some b"
  shows "\<exists>c'. SetTip st c (Some p) = Some (Inr c') \<and> chain_wf st c' \<and> chain_Tip c' = Some p \<and>
    chain_Height c' = nHeight b \<and>
    (\<forall>h. 0 \<le> h \<and> h \<le> nHeight b \<longrightarrow> chain_at c' h \<noteq> None \<and> GetAncestor st p h = Inr (chain_at c' h))"
proof -
  have h: "0 \<le> nHeight b" using tree_wf_height assms(1,3) .
  let ?c = "c\<lparr>vChain := chain_of st p b\<rparr>"
  have "chain_wf st ?c" using assms(3) by (auto simp: chain_wf_def)
  moreover have "chain_Tip ?c = Some p" by (simp add: chain_Tip_def chain_of_nth)
  moreover have "chain_Height ?c = nHeight b" using h by (simp add: chain_Height_def)
  moreover have "chain_at ?c k \<noteq> None \<and> GetAncestor st p k = Inr (chain_at ?c k)" if "0 \<le> k \<and> k \<le> nHeight b" for k
    using that h ancestor_exists [OF assms(1,3), of "nat (nHeight b - k)"]
    by (auto simp: GetAncestor_ancestor [OF assms(1,3)] chain_at_def chain_of_nth nat_diff_distrib)
  ultimately show ?thesis using SetTip_chain_of [OF assms] by blast
qed

theorem SetTip_makes_branch_of_tip_witness:
  "\<exists>c'. SetTip fork_tree \<lparr>vChain = chain_of fork_tree 2 (the (fork_tree 2))\<rparr> (Some 3) = Some (Inr c') \<and>
     chain_Tip c' = Some 3 \<and> chain_Height c' = 1"
proof -
  have "chain_wf fork_tree \<lparr>vChain = chain_of fork_tree 2 (the (fork_tree 2))\<rparr>"
    unfolding chain_wf_def using fork_tree_entries(3) by (intro disjI2 exI [of _ 2]) simp
  from SetTip_makes_branch_of_tip [OF fork_tree_wf this fork_tree_entries(4)] show ?thesis by auto
qed

section \<open>Forks\<close>

definition on_chain :: "block_store \<Rightarrow> CChain \<Rightarrow> ptr \<Rightarrow> bool" where
  "on_chain st c q \<longleftrightarrow> (\<exists>b. st q = Some b \<and> chain_at c (nHeight b) = Some q)"

definition fork_result :: "block_store \<Rightarrow> CChain \<Rightarrow> ptr \<Rightarrow> ptr option \<Rightarrow> bool" where
  "fork_result st c p r \<longleftrightarrow>
     (case r of
        Some q \<Rightarrow> (\<exists>k. ancestor st k p = Some q \<and> on_chain st c q \<and>
                     (\<forall>j<k. \<forall>q'. ancestor st j p = Some q' \<longrightarrow> \<not> on_chain st c q'))
      | None \<Rightarrow> (\<forall>k q. ancestor st k p = Some q \<longrightarrow> \<not> on_chain st c q))"

lemma fork_result_step:
  assumes "st p = Some b" "pprev b = Some q" "\<not> on_chain st c p" "fork_result st c q r"
  shows "fork_result st c p r"
proof (cases r)
  case None
  have "\<not> on_chain st c q'" if "ancestor st k p = Some q'" for k q'
    using that assms None by (cases k) (auto simp: fork_result_def)
  with None show ?thesis by (simp add: fork_result_def)
next
  case (Some q')
  then obtain k where k: "ancestor st k q = Some q'" "on_chain st c q'"
      "\<forall>j<k. \<forall>r. ancestor st j q = Some r \<longrightarrow> \<not> on_chain st c r"
    using assms(4) by (auto simp: fork_result_def)
  have "\<not> on_chain st c r" if "j < Suc k" "ancestor st j p = Some r" for j r
    using that assms(1-3) k(3) by (cases j) auto
  with k Some assms(1,2) show ?thesis
    by (auto simp: fork_result_def intro!: exI [of _ "Suc k"])
qed

lemma FindFork_loop_result:
  assumes "tree_wf st"
  shows "st p = Some b \<Longrightarrow> nHeight b = int n \<Longrightarrow> \<exists>r. FindFork_loop st c (Some p) = Some (Inr r) \<and> fork_result st c p r"
proof (induction n arbitrary: p b)
  case 0
  from assms 0(1) show ?case
  proof (cases rule: tree_wf_parent)
    case genesis
    have "ancestor st k p = Some q \<longleftrightarrow> k = 0 \<and> q = p" for k q
      using genesis 0(1) by (cases k) auto
    with genesis 0 show ?thesis
      by (auto simp: FindFork_loop.simps [of st c "Some p"] FindFork_loop.simps [of st c None] fork_result_def on_chain_def)
  qed (use 0 in simp)
next
  case (Suc n)
  show ?case
  proof (cases "on_chain st c p")
    case True
    with Suc.prems have "FindFork_loop st c (Some p) = Some (Inr (Some p))"
      by (subst FindFork_loop.simps) (simp add: on_chain_def)
    moreover have "fork_result st c p (Some p)"
      using True by (auto simp: fork_result_def intro!: exI [of _ 0])
    ultimately show ?thesis by blast
  next
    case False
    from assms Suc.prems(1) show ?thesis
    proof (cases rule: tree_wf_parent)
      case (child q qb)
      then obtain r where "FindFork_loop st c (Some q) = Some (Inr r)" "fork_result st c q r"
        using Suc.IH [of q qb] Suc.prems by auto
      moreover have "FindFork_loop st c (Some p) = FindFork_loop st c (Some q)"
        using False Suc.prems child by (subst FindFork_loop.simps) (auto simp: on_chain_def add.commute)
      ultimately show ?thesis
        using fork_result_step [OF Suc.prems(1) child(1) False] by auto
    qed (use Suc.prems in simp)
  qed
qed

lemma fork_result_above:
  assumes "tree_wf st"
  shows "st p = Some b \<Longrightarrow> ancestor st k p = Some q \<Longrightarrow> chain_Height c \<le> nHeight b - int k \<Longrightarrow>
    fork_result st c q r \<Longrightarrow> fork_result st c p r"
proof (induction k arbitrary: p b)
  case (Suc k)
  from assms Suc.prems(1) show ?case
  proof (cases rule: tree_wf_parent)
    case (child q' qb')
    then have "fork_result st c q' r" using Suc.IH [of q' qb'] Suc.prems by simp
    moreover have "\<not> on_chain st c p"
      using Suc.prems by (auto simp: on_chain_def chain_at_def chain_Height_def)
    ultimately show ?thesis using fork_result_step Suc.prems(1) child(1) by blast
  qed (use Suc.prems in simp)
qed simp

text \<open>C24: \<^verbatim>\<open>FindFork\<close> always ends without failure and finds the last common block of the active chain and a branch: the
  block it returns is an ancestor of the given block, lies on the chain, and no ancestor above it does; it returns
  the null pointer exactly when no ancestor lies on the chain.\<close>

theorem FindFork_is_last_common_block:
  assumes "tree_wf st" "st p = Some b"
  shows "\<exists>r. FindFork st c p = Some (Inr r) \<and> fork_result st c p r"
proof (cases "nHeight b > chain_Height c")
  case False
  with FindFork_loop_result [OF assms, of "nat (nHeight b)" c] tree_wf_height [OF assms] assms(2) show ?thesis
    by (simp add: FindFork_def)
next
  case True
  note G = GetAncestor_ancestor [OF assms, of "chain_Height c"]
  show ?thesis
  proof (cases "0 \<le> chain_Height c")
    case True': True
    let ?k = "nat (nHeight b - chain_Height c)"
    obtain q qb where q: "ancestor st ?k p = Some q" "st q = Some qb" "nHeight qb = chain_Height c"
      using ancestor_exists [OF assms, of ?k] True True' by auto
    obtain r where "FindFork_loop st c (Some q) = Some (Inr r)" "fork_result st c q r"
      using FindFork_loop_result [OF assms(1) q(2), of "nat (chain_Height c)"] q(3) True' by auto
    with fork_result_above [OF assms q(1), of c r] G q True True' assms(2) show ?thesis
      by (simp add: FindFork_def)
  next
    case False
    then have "vChain c = []" by (simp add: chain_Height_def)
    then have "chain_at c h = None" for h by (auto simp: chain_at_def)
    then have "fork_result st c p None" by (simp add: fork_result_def on_chain_def)
    with G True False assms(2) show ?thesis
      by (simp add: FindFork_def FindFork_loop.simps [of st c None])
  qed
qed

theorem FindFork_is_last_common_block_witness:
  "\<exists>r. FindFork fork_tree \<lparr>vChain = [Some 0, Some 1, Some 2]\<rparr> 3 = Some (Inr r) \<and>
     fork_result fork_tree \<lparr>vChain = [Some 0, Some 1, Some 2]\<rparr> 3 r"
  using FindFork_is_last_common_block [OF fork_tree_wf fork_tree_entries(4)] by blast

definition common_result :: "block_store \<Rightarrow> ptr \<Rightarrow> ptr \<Rightarrow> ptr option \<Rightarrow> bool" where
  "common_result st a b r \<longleftrightarrow>
     (case r of
        Some q \<Rightarrow> (\<exists>k. ancestor st k a = Some q \<and> ancestor st k b = Some q \<and> (\<forall>j<k. ancestor st j a \<noteq> ancestor st j b))
      | None \<Rightarrow> (\<forall>k. ancestor st k a = None \<and> ancestor st k b = None \<or> ancestor st k a \<noteq> ancestor st k b))"

lemma common_result_step:
  assumes "st a = Some ab" "st b = Some bb" "pprev ab = Some a'" "pprev bb = Some b'" "a \<noteq> b" "common_result st a' b' r"
  shows "common_result st a b r"
proof (cases r)
  case None
  have "ancestor st k a = None \<and> ancestor st k b = None \<or> ancestor st k a \<noteq> ancestor st k b" for k
    using assms None by (cases k) (auto simp: common_result_def)
  with None show ?thesis by (simp add: common_result_def)
next
  case (Some q)
  then obtain k where k: "ancestor st k a' = Some q" "ancestor st k b' = Some q" "\<forall>j<k. ancestor st j a' \<noteq> ancestor st j b'"
    using assms(6) by (auto simp: common_result_def)
  have "ancestor st j a \<noteq> ancestor st j b" if "j < Suc k" for j
    using that assms(1-5) k(3) by (cases j) auto
  with k Some assms(1-4) show ?thesis
    by (auto simp: common_result_def intro!: exI [of _ "Suc k"])
qed

lemma LastCommonAncestor_loop_result:
  assumes "tree_wf st"
  shows "st a = Some ab \<Longrightarrow> st b = Some bb \<Longrightarrow> nHeight ab = int n \<Longrightarrow> nHeight bb = int n \<Longrightarrow>
    \<exists>r. LastCommonAncestor_loop st (Some a) (Some b) = Some (Inr r) \<and> common_result st a b r"
proof (induction n arbitrary: a b ab bb)
  case 0
  have pa: "pprev ab = None" using assms 0(1,3) by (cases rule: tree_wf_parent) simp_all
  have pb: "pprev bb = None" using assms 0(2,4) by (cases rule: tree_wf_parent) simp_all
  have "ancestor st k a = (if k = 0 then Some a else None)" "ancestor st k b = (if k = 0 then Some b else None)" for k
    using pa pb 0(1,2) by (cases k; simp)+
  with 0 pa pb show ?case
    by (auto simp: LastCommonAncestor_loop.simps [of st "Some a"] LastCommonAncestor_loop.simps [of st None]
        common_result_def)
next
  case (Suc n)
  show ?case
  proof (cases "a = b")
    case True
    then have "LastCommonAncestor_loop st (Some a) (Some b) = Some (Inr (Some a))"
      by (subst LastCommonAncestor_loop.simps) simp
    with True show ?thesis by (auto simp: common_result_def intro!: exI [of _ 0])
  next
    case False
    obtain a' ab' where a': "pprev ab = Some a'" "st a' = Some ab'" "nHeight ab' = int n"
      using assms Suc.prems(1,3) by (cases rule: tree_wf_parent) auto
    obtain b' bb' where b': "pprev bb = Some b'" "st b' = Some bb'" "nHeight bb' = int n"
      using assms Suc.prems(2,4) by (cases rule: tree_wf_parent) auto
    obtain r where "LastCommonAncestor_loop st (Some a') (Some b') = Some (Inr r)" "common_result st a' b' r"
      using Suc.IH a' b' by blast
    moreover have "LastCommonAncestor_loop st (Some a) (Some b) = LastCommonAncestor_loop st (Some a') (Some b')"
      using False Suc.prems a' b' by (subst LastCommonAncestor_loop.simps) simp
    ultimately show ?thesis
      using common_result_step [OF Suc.prems(1,2) a'(1) b'(1) False] by auto
  qed
qed

definition common_ancestor :: "block_store \<Rightarrow> ptr \<Rightarrow> ptr \<Rightarrow> ptr \<Rightarrow> bool" where
  "common_ancestor st a b q \<longleftrightarrow> (\<exists>i j. ancestor st i a = Some q \<and> ancestor st j b = Some q)"

lemma ancestor_height:
  assumes "tree_wf st" "st p = Some b" "ancestor st k p = Some q"
  shows "\<exists>qb. st q = Some qb \<and> nHeight qb = nHeight b - int k \<and> int k \<le> nHeight b"
  using ancestor_exists [OF assms(1,2), of k] ancestor_None [OF assms(1,2), of k] assms(3)
  by (cases "int k \<le> nHeight b") auto

lemma common_ancestor_level:
  assumes wf: "tree_wf st" and a: "st a = Some ab" and b: "st b = Some bb"
    and a': "ancestor st i a = Some a'" and b': "ancestor st j b = Some b'"
    and h: "nHeight ab - int i = nHeight bb - int j" "i = 0 \<or> j = 0"
    and q: "common_ancestor st a b q"
  obtains m where "ancestor st m a' = Some q" "ancestor st m b' = Some q"
proof -
  obtain u v where uv: "ancestor st u a = Some q" "ancestor st v b = Some q"
    using q by (auto simp: common_ancestor_def)
  have "nHeight ab - int u = nHeight bb - int v"
    using ancestor_height [OF wf a uv(1)] ancestor_height [OF wf b uv(2)] by auto
  with h have le: "i \<le> u" "j \<le> v" "u - i = v - j" by auto
  have "ancestor st (u - i) a' = Some q"
    using uv(1) a' ancestor_add [of st i "u - i" a] le(1) by simp
  moreover have "ancestor st (u - i) b' = Some q"
    unfolding le(3) using uv(2) b' ancestor_add [of st j "v - j" b] le(2) by simp
  ultimately show thesis by (rule that)
qed

lemma common_result_ancestors:
  assumes wf: "tree_wf st" and a: "st a = Some ab" and b: "st b = Some bb"
    and a': "ancestor st i a = Some a'" and b': "ancestor st j b = Some b'"
    and h: "nHeight ab - int i = nHeight bb - int j" "i = 0 \<or> j = 0"
    and r: "common_result st a' b' r"
  shows "case r of
      Some q \<Rightarrow> common_ancestor st a b q \<and>
        (\<forall>q' qb qb'. common_ancestor st a b q' \<and> st q = Some qb \<and> st q' = Some qb' \<longrightarrow> nHeight qb' \<le> nHeight qb)
    | None \<Rightarrow> \<forall>q. \<not> common_ancestor st a b q"
proof (cases r)
  case None
  have False if q: "common_ancestor st a b q" for q
  proof -
    obtain m where "ancestor st m a' = Some q" "ancestor st m b' = Some q"
      using common_ancestor_level [OF wf a b a' b' h q] .
    with r None show False by (auto simp: common_result_def dest: spec [of _ m])
  qed
  then show ?thesis using None by auto
next
  case (Some q)
  then obtain k where k: "ancestor st k a' = Some q" "ancestor st k b' = Some q"
      "\<forall>j<k. ancestor st j a' \<noteq> ancestor st j b'"
    using r by (auto simp: common_result_def)
  obtain ab' where ab': "st a' = Some ab'" using ancestor_height [OF wf a a'] by auto
  have "common_ancestor st a b q"
    unfolding common_ancestor_def using ancestor_add [of st i k a] ancestor_add [of st j k b] a' b' k
    by (metis Option.bind.bind_lunit)
  moreover have "nHeight qb' \<le> nHeight qb" if q': "common_ancestor st a b q'" "st q = Some qb" "st q' = Some qb'" for q' qb qb'
  proof -
    obtain m where m: "ancestor st m a' = Some q'" "ancestor st m b' = Some q'"
      using common_ancestor_level [OF wf a b a' b' h q'(1)] .
    then have "k \<le> m" using k(3) not_less by (metis)
    with ancestor_height [OF wf ab' k(1)] ancestor_height [OF wf ab' m(1)] q'(2,3) show ?thesis by auto
  qed
  ultimately show ?thesis using Some by auto
qed

text \<open>C25: \<^verbatim>\<open>LastCommonAncestor\<close> always ends, its final assertion never fails, and it returns the highest block that both
  given blocks descend from (or are); it returns the null pointer exactly when they have no common ancestor.\<close>

theorem LastCommonAncestor_is_highest_common:
  assumes "tree_wf st" "st a = Some ab" "st b = Some bb"
  shows "\<exists>r. LastCommonAncestor st a b = Some (Inr r) \<and>
    (case r of
       Some q \<Rightarrow> common_ancestor st a b q \<and>
         (\<forall>q' qb qb'. common_ancestor st a b q' \<and> st q = Some qb \<and> st q' = Some qb' \<longrightarrow> nHeight qb' \<le> nHeight qb)
     | None \<Rightarrow> \<forall>q. \<not> common_ancestor st a b q)"
proof -
  have ha: "0 \<le> nHeight ab" and hb: "0 \<le> nHeight bb" using tree_wf_height assms by blast+
  define i j where "i = nat (nHeight ab - nHeight bb)" and "j = nat (nHeight bb - nHeight ab)"
  have ij: "nHeight ab - int i = nHeight bb - int j" "i = 0 \<or> j = 0" by (auto simp: i_def j_def)
  have i: "int i \<le> nHeight ab" and j: "int j \<le> nHeight bb" using ha hb by (auto simp: i_def j_def)
  obtain a' ab' where a': "ancestor st i a = Some a'" "st a' = Some ab'" "nHeight ab' = nHeight ab - int i"
    using ancestor_exists [OF assms(1,2) i] by auto
  obtain b' bb' where b': "ancestor st j b = Some b'" "st b' = Some bb'" "nHeight bb' = nHeight bb - int j"
    using ancestor_exists [OF assms(1,3) j] by auto
  obtain r where r: "LastCommonAncestor_loop st (Some a') (Some b') = Some (Inr r)" "common_result st a' b' r"
    using LastCommonAncestor_loop_result [OF assms(1) a'(2) b'(2), of "nat (nHeight ab - int i)"] a'(3) b'(3) ij(1) i by auto
  have "LastCommonAncestor st a b = LastCommonAncestor_loop st (Some a') (Some b')"
    using assms(2,3) a'(1) b'(1) ha hb
    by (auto simp: LastCommonAncestor_def GetAncestor_ancestor [OF assms(1,2)] GetAncestor_ancestor [OF assms(1,3)] i_def j_def)
  with r common_result_ancestors [OF assms a'(1) b'(1) ij r(2)] show ?thesis by auto
qed

theorem LastCommonAncestor_is_highest_common_witness:
  "\<exists>r. LastCommonAncestor fork_tree 2 3 = Some (Inr r) \<and>
    (case r of Some q \<Rightarrow> common_ancestor fork_tree 2 3 q | None \<Rightarrow> \<forall>q. \<not> common_ancestor fork_tree 2 3 q)"
  using LastCommonAncestor_is_highest_common [OF fork_tree_wf fork_tree_entries(3,4)] by (auto split: option.splits)

section \<open>Block locators\<close>

text \<open>The heights of a locator: ten single steps back, then steps of doubled size, down to the genesis block.\<close>

fun locator_heights :: "nat \<Rightarrow> nat \<Rightarrow> nat \<Rightarrow> nat list" where
  "locator_heights n s h =
     (if h = 0 then [0] else h # locator_heights (Suc n) (if Suc n > 10 then 2 * s + 1 else s) (h - Suc s))"

declare locator_heights.simps [simp del]

definition hash_at :: "block_store \<Rightarrow> ptr \<Rightarrow> CBlockIndex \<Rightarrow> nat \<Rightarrow> bytes" where
  "hash_at st p b h = phashBlock (the (st (the (ancestor st (nat (nHeight b) - h) p))))"

lemma chain_at_ancestor:
  assumes "tree_wf st" "chain_wf st c" "st p = Some b" "chain_at c (nHeight b) = Some p" "0 \<le> h" "h \<le> nHeight b"
  shows "chain_at c h = ancestor st (nat (nHeight b - h)) p"
proof -
  obtain t tb where t: "st t = Some tb" "vChain c = chain_of st t tb"
    using assms(2,4) by (auto simp: chain_wf_def chain_at_def split: if_splits)
  have le: "nHeight b \<le> nHeight tb" "0 \<le> nHeight tb"
    using assms(4-6) t(2) tree_wf_height [OF assms(1) t(1)] by (auto simp: chain_at_def split: if_splits)
  have p: "ancestor st (nat (nHeight tb) - nat (nHeight b)) t = Some p"
    using assms(4-6) le t(2) by (simp add: chain_at_def chain_of_nth)
  have e: "nat (nHeight tb) - nat h = (nat (nHeight tb) - nat (nHeight b)) + nat (nHeight b - h)"
    using le assms(5,6) by (simp add: nat_diff_distrib)
  have "ancestor st (nat (nHeight tb) - nat h) t = ancestor st (nat (nHeight b - h)) p"
    unfolding e ancestor_add p by simp
  with le assms(5,6) t(2) show ?thesis by (simp add: chain_at_def chain_of_nth)
qed

lemma GetLocator_loop_heights:
  assumes wf: "tree_wf st" "chain_wf st c" and p0: "st p0 = Some b0"
  shows "ancestor st (nat (nHeight b0) - h) p0 = Some p \<Longrightarrow> h \<le> nat (nHeight b0) \<Longrightarrow> length vHave = n \<Longrightarrow>
    GetLocator_loop st c (Some p) (int s + 1) vHave =
      Some (Inr (vHave @ map (hash_at st p0 b0) (locator_heights n s h)))"
proof (induction n s h arbitrary: p vHave rule: locator_heights.induct)
  case (1 n s h)
  have h0: "0 \<le> nHeight b0" using tree_wf_height wf(1) p0 .
  obtain b where b: "st p = Some b" "nHeight b = int h"
    using ancestor_height [OF wf(1) p0 "1.prems"(1)] "1.prems"(2) h0 by auto
  have hash: "hash_at st p0 b0 h = phashBlock b"
    using "1.prems"(1) b(1) by (simp add: hash_at_def)
  show ?case
  proof (cases "h = 0")
    case True
    with b hash show ?thesis
      by (subst GetLocator_loop.simps, subst locator_heights.simps) (simp add: Let_def)
  next
    case False
    define h' where "h' = h - Suc s"
    have max: "max (nHeight b - (int s + 1)) 0 = int h'" by (simp add: b(2) h'_def)
    have "ancestor st (nat (nHeight b0) - h') p0 = ancestor st (h - h') p"
      using ancestor_add [of st "nat (nHeight b0) - h" "h - h'" p0] "1.prems"(1,2) by (simp add: h'_def)
    moreover obtain q where q: "ancestor st (h - h') p = Some q"
      using ancestor_exists [OF wf(1) b(1), of "h - h'"] b(2) by auto
    ultimately have anc: "ancestor st (nat (nHeight b0) - h') p0 = Some q" by simp
    have nxt: "(if chain_at c (nHeight b) = Some p then Inr (chain_at c (int h')) else GetAncestor st p (int h')) = Inr (Some q)"
      using chain_at_ancestor [OF wf b(1), of "int h'"] GetAncestor_ancestor [OF wf(1) b(1), of "int h'"] q b(2)
      by (auto simp: h'_def nat_diff_distrib)
    have "GetLocator_loop st c (Some p) (int s + 1) vHave =
        GetLocator_loop st c (Some q) (int (if Suc n > 10 then 2 * s + 1 else s) + 1) (vHave @ [phashBlock b])"
      using b False nxt max "1.prems"(3) by (subst GetLocator_loop.simps) (simp add: Let_def algebra_simps)
    also have "\<dots> = Some (Inr ((vHave @ [phashBlock b]) @
        map (hash_at st p0 b0) (locator_heights (Suc n) (if Suc n > 10 then 2 * s + 1 else s) h')))"
      unfolding h'_def using "1.prems"(2,3) anc [unfolded h'_def] by (intro "1.IH" [OF False]) auto
    finally show ?thesis
      using False by (subst locator_heights.simps) (simp add: hash h'_def)
  qed
qed

lemma locator_doubling_length:
  "10 \<le> n \<Longrightarrow> h \<le> Suc s * (2 ^ k - 1) \<Longrightarrow> length (locator_heights n s h) \<le> Suc k"
proof (induction k arbitrary: n s h)
  case 0
  then show ?case by (simp add: locator_heights.simps)
next
  case (Suc k)
  show ?case
  proof (cases "h = 0")
    case False
    have "h - Suc s \<le> Suc (2 * s + 1) * (2 ^ k - 1)"
    proof -
      obtain m :: nat where m: "2 ^ k = Suc m" by (metis not0_implies_Suc power_eq_0_iff zero_neq_numeral)
      then show ?thesis using Suc.prems(2) by (simp add: algebra_simps)
    qed
    then have "length (locator_heights (Suc n) (2 * s + 1) (h - Suc s)) \<le> Suc k"
      using Suc.IH Suc.prems(1) by simp
    with False Suc.prems(1) show ?thesis by (subst locator_heights.simps) simp
  qed (simp add: locator_heights.simps)
qed

lemma locator_length:
  assumes "h < 2 ^ k"
  shows "n \<le> 10 \<Longrightarrow> length (locator_heights n 0 h) \<le> Suc k + (10 - n)"
  using assms
proof (induction "10 - n" arbitrary: n h)
  case 0
  then show ?case using locator_doubling_length [of n h 0 k] by simp
next
  case (Suc d)
  show ?case
  proof (cases "h = 0")
    case False
    have n: "n < 10" using Suc.hyps(2) by simp
    then have "length (locator_heights (Suc n) 0 (h - 1)) \<le> Suc k + (10 - Suc n)"
      using Suc.hyps(1) [of "Suc n" "h - 1"] Suc.hyps(2) Suc.prems by simp
    with False n show ?thesis by (subst locator_heights.simps) simp
  qed (simp add: locator_heights.simps)
qed

lemma locator_heights_ends: "hd (locator_heights n s h) = h \<and> last (locator_heights n s h) = 0 \<and> locator_heights n s h \<noteq> []"
proof (induction n s h rule: locator_heights.induct)
  case (1 n s h)
  then show ?case by (subst (1 2 3) locator_heights.simps) auto
qed

text \<open>C32: The block locator of any block is computed without failure, whether the chain index or the skip list is used for
  a step: it lists the hashes of the block's ancestors at the heights of ten single steps and then doubling steps,
  starts with the block itself, ends with its genesis block and, for heights of 31 bits, has at most 42 entries.\<close>

theorem GetLocator_lists_ancestors:
  assumes "tree_wf st" "chain_wf st c" "st p = Some b" "nHeight b < 2 ^ 31"
  shows "\<exists>vHave. GetLocator st c (Some p) = Some (Inr vHave) \<and>
    vHave = map (hash_at st p b) (locator_heights 0 0 (nat (nHeight b))) \<and>
    hd vHave = phashBlock b \<and> last vHave = hash_at st p b 0 \<and> length vHave \<le> 42"
proof -
  have h: "nat (nHeight b) < 2 ^ 31" using assms(4) by (simp add: nat_less_iff)
  have "GetLocator st c (Some p) = Some (Inr (map (hash_at st p b) (locator_heights 0 0 (nat (nHeight b)))))"
    using GetLocator_loop_heights [OF assms(1-3), of "nat (nHeight b)" p "[]" 0 0] by (simp add: GetLocator_def)
  moreover have "hash_at st p b (nat (nHeight b)) = phashBlock b" using assms(3) by (simp add: hash_at_def)
  ultimately show ?thesis
    using locator_heights_ends [of 0 0 "nat (nHeight b)"] locator_length [OF h, of 0] by (simp add: hd_map last_map)
qed

theorem GetLocator_lists_ancestors_witness:
  "\<exists>vHave. GetLocator fork_tree \<lparr>vChain = []\<rparr> (Some 2) = Some (Inr vHave) \<and> hd vHave = [2] \<and> length vHave \<le> 42"
  using GetLocator_lists_ancestors [OF fork_tree_wf _ fork_tree_entries(3), of "\<lparr>vChain = []\<rparr>"]
  by (simp add: chain_wf_def)

end
