(* ===== verification/Pow.thy ===== *)
theory Pow
  imports ChainParams Chain
begin

text \<open>
  Proof of work (\<^verbatim>\<open>pow.cpp\<close>): the next difficulty target, the check of a header's hash, the work of a block and its
  equivalent time, and the registration of headers in the block index (\<^verbatim>\<open>AddToBlockIndex\<close> of \<^verbatim>\<open>main.cpp\<close>), which
  accumulates the work along a branch. The hash of a header is a parameter of the model.

  The overloads that C++ selects are kept: \<open>bnNew *= nActualTimespan\<close> is the multiplication by a \<open>uint32_t\<close>, so the
  64-bit time span is truncated; divisors are converted through \<open>uint64_t\<close>.
\<close>

section \<open>Headers\<close>

record CBlockHeader =
  hdr_nVersion :: int
  hdr_hashPrevBlock :: bytes
  hdr_hashMerkleRoot :: bytes
  hdr_hashFinalSaplingRoot :: bytes
  hdr_nTime :: u32
  hdr_nBits :: u32
  hdr_nNonce :: bytes

definition header_GetBlockTime :: "CBlockHeader \<Rightarrow> int" where
  "header_GetBlockTime block = uint (hdr_nTime block)"

definition CBlockIndex_of :: "CBlockHeader \<Rightarrow> CBlockIndex" where
  "CBlockIndex_of block = CBlockIndex_SetNull\<lparr>nVersion := hdr_nVersion block, hashMerkleRoot := hdr_hashMerkleRoot block,
     hashFinalSaplingRoot := hdr_hashFinalSaplingRoot block, nTime := hdr_nTime block, nBits := hdr_nBits block,
     nNonce := hdr_nNonce block\<rparr>"

section \<open>Difficulty\<close>

definition CalculateNextWorkRequired :: "base_uint \<Rightarrow> int \<Rightarrow> int \<Rightarrow> Params \<Rightarrow> int \<Rightarrow> failure + u32" where
  "CalculateNextWorkRequired bnAvg nLastBlockTime nFirstBlockTime params nextHeight =
     and_then (AveragingWindowTimespan params nextHeight) (\<lambda>averagingWindowTimespan.
     and_then (MinActualTimespan params nextHeight) (\<lambda>minActualTimespan.
     and_then (MaxActualTimespan params nextHeight) (\<lambda>maxActualTimespan.
     let nActualTimespan = nLastBlockTime - nFirstBlockTime;
         nActualTimespan = averagingWindowTimespan + cdiv (nActualTimespan - averagingWindowTimespan) 4;
         nActualTimespan = (if nActualTimespan < minActualTimespan then minActualTimespan else nActualTimespan);
         nActualTimespan = (if nActualTimespan > maxActualTimespan then maxActualTimespan else nActualTimespan);
         bnPowLimit = UintToArith256 (powLimit params)
     in and_then (uint_div bnAvg (uint_of_u64 (u64_of averagingWindowTimespan))) (\<lambda>bnNew.
        let bnNew = uint_mul32 bnNew (word_of_int nActualTimespan);
            bnNew = (if CompareTo bnNew bnPowLimit > 0 then bnPowLimit else bnNew)
        in GetCompact bnNew False))))"

fun averaging_loop :: "block_store \<Rightarrow> nat \<Rightarrow> ptr option \<Rightarrow> base_uint \<Rightarrow> failure + ptr option \<times> base_uint" where
  "averaging_loop st 0 pindexFirst bnTot = Inr (pindexFirst, bnTot)"
| "averaging_loop st (Suc i) None bnTot = Inr (None, bnTot)"
| "averaging_loop st (Suc i) (Some p) bnTot =
     and_then (deref st p) (\<lambda>b.
     averaging_loop st i (pprev b) (uint_add bnTot (fst (SetCompact (nBits b)))))"

definition GetNextWorkRequired :: "block_store \<Rightarrow> ptr option \<Rightarrow> CBlockHeader option \<Rightarrow> Params \<Rightarrow> failure + u32" where
  "GetNextWorkRequired st pindexLast pblock params =
     and_then (GetCompact (UintToArith256 (powLimit params)) False) (\<lambda>nProofOfWorkLimit.
     case pindexLast of None \<Rightarrow> Inr nProofOfWorkLimit | Some plast \<Rightarrow>
     and_then (deref st plast) (\<lambda>b.
     and_then
       (case nPowAllowMinDifficultyBlocksAfterHeight params of
          None \<Rightarrow> Inr False
        | Some after \<Rightarrow>
          if (word_of_int (nHeight b) :: u32) \<ge> after then
            (case pblock of
               None \<Rightarrow> Inr False
             | Some block \<Rightarrow> and_then (PoWTargetSpacing params (nHeight b + 1)) (\<lambda>spacing.
                 Inr (header_GetBlockTime block > GetBlockTime b + spacing * 6)))
          else Inr False) (\<lambda>minDifficulty.
     if minDifficulty then Inr nProofOfWorkLimit else
     and_then (averaging_loop st (nat (nPowAveragingWindow params)) pindexLast (uint_of_u64 0)) (\<lambda>(pindexFirst, bnTot).
     case pindexFirst of None \<Rightarrow> Inr nProofOfWorkLimit | Some pfirst \<Rightarrow>
     and_then (uint_div bnTot (uint_of_u64 (u64_of (nPowAveragingWindow params)))) (\<lambda>bnAvg.
     and_then (GetMedianTimePast st plast) (\<lambda>lastTime.
     and_then (GetMedianTimePast st pfirst) (\<lambda>firstTime.
     CalculateNextWorkRequired bnAvg lastTime firstTime params (nHeight b + 1))))))))"

definition CheckProofOfWork :: "bytes \<Rightarrow> u32 \<Rightarrow> Params \<Rightarrow> bool" where
  "CheckProofOfWork hash bits params =
     (let (bnTarget, fNegative, fOverflow) = SetCompact bits
      in if fNegative \<or> EqualTo bnTarget 0 \<or> fOverflow \<or> CompareTo bnTarget (UintToArith256 (powLimit params)) > 0
         then False
         else if CompareTo (UintToArith256 hash) bnTarget > 0 then False
         else True)"

section \<open>Work\<close>

definition GetBlockProof :: "CBlockIndex \<Rightarrow> failure + base_uint" where
  "GetBlockProof block =
     (let (bnTarget, fNegative, fOverflow) = SetCompact (nBits block)
      in if fNegative \<or> fOverflow \<or> EqualTo bnTarget 0 then Inr (uint_of_u64 0)
         else and_then (uint_div (uint_not bnTarget) (uint_add bnTarget (uint_of_u64 1))) (\<lambda>q.
              Inr (uint_add q (uint_of_u64 1))))"

definition GetBlockProofEquivalentTime :: "CBlockIndex \<Rightarrow> CBlockIndex \<Rightarrow> CBlockIndex \<Rightarrow> Params \<Rightarrow> failure + int" where
  "GetBlockProofEquivalentTime to from tip params =
     (let larger = CompareTo (nChainWork to) (nChainWork from) > 0;
          r = (if larger then uint_sub (nChainWork to) (nChainWork from) else uint_sub (nChainWork from) (nChainWork to));
          sign = (if larger then 1 else - 1 :: int)
      in and_then (PoWTargetSpacing params (nHeight tip)) (\<lambda>spacing.
         and_then (GetBlockProof tip) (\<lambda>proof.
         and_then (uint_div (uint_mul r (uint_of_u64 (u64_of spacing))) proof) (\<lambda>r.
         Inr (if uint_bits r > 63 then sign * (2 ^ 63 - 1) else int64_of (u64_of sign * GetLow64 r))))))"

section \<open>Targets\<close>

definition limit_val :: "Params \<Rightarrow> nat" where
  "limit_val p = uval (UintToArith256 (powLimit p))"

lemma limit_wf [simp]: "uint_wf (UintToArith256 bs)"
  by simp

lemma main_limit_limbs:
  "UintToArith256 (uint256S ''0007ffffffffffffffffffffffffffffffffffffffffffffffffffffffffffff'') =
   \<lparr>pn = [0xffffffff, 0xffffffff, 0xffffffff, 0xffffffff, 0xffffffff, 0xffffffff, 0xffffffff, 0x0007ffff]\<rparr>"
  by code_simp

lemma regtest_limit_limbs:
  "UintToArith256 (uint256S ''0f0f0f0f0f0f0f0f0f0f0f0f0f0f0f0f0f0f0f0f0f0f0f0f0f0f0f0f0f0f0f0f'') =
   \<lparr>pn = [0x0f0f0f0f, 0x0f0f0f0f, 0x0f0f0f0f, 0x0f0f0f0f, 0x0f0f0f0f, 0x0f0f0f0f, 0x0f0f0f0f, 0x0f0f0f0f]\<rparr>"
  by code_simp

lemma main_limit: "limit_val CMainParams = 2 ^ 243 - 1"
  by (simp add: limit_val_def CMainParams_def main_limit_limbs uval_def)

lemma testnet_limit: "limit_val CTestNetParams = 2 ^ 243 - 1"
  by (simp add: limit_val_def CTestNetParams_def main_limit_limbs uval_def)

lemma regtest_limit: "limit_val CRegTestParams = 0x0f0f0f0f * (2 ^ 256 - 1) div 0xffffffff"
  by (simp add: limit_val_def CRegTestParams_def regtest_limit_limbs uval_def)

lemma CheckProofOfWork_iff:
  "CheckProofOfWork hash bits p \<longleftrightarrow>
    \<not> bit bits 23 \<and> 0 < compact_value bits \<and> compact_value bits \<le> limit_val p \<and>
    uval (UintToArith256 hash) \<le> compact_value bits"
proof -
  obtain t neg ovf where t: "SetCompact bits = (t, neg, ovf)" by (cases "SetCompact bits")
  note S = SetCompact_val [OF t]
  have limit: "limit_val p < 2 ^ 256" unfolding limit_val_def by (rule uval_less) simp
  show ?thesis
  proof (cases "2 ^ 256 \<le> compact_value bits")
    case True
    with t S(4) limit show ?thesis by (simp add: CheckProofOfWork_def)
  next
    case False
    then have v: "uval t = compact_value bits" using S(2) by simp
    have "ovf = False" using S(4) False by blast
    with t S(1,3) v show ?thesis
      by (auto simp: CheckProofOfWork_def EqualTo_val arith.cmp_gt limit_val_def not_less)
  qed
qed

lemma compact_value_not_max: "compact_value c < 2 ^ 256 \<Longrightarrow> compact_value c + 1 < 2 ^ 256"
proof -
  assume lt: "compact_value c < 2 ^ 256"
  have "compact_value c \<noteq> 2 ^ 256 - 1"
  proof (cases "compact_size c \<le> 3")
    case True
    have "compact_value c \<le> compact_mantissa c" using True by (simp add: compact_value_def)
    also have "\<dots> < 2 ^ 23" by (simp add: compact_mantissa_def)
    finally show ?thesis by simp
  next
    case False
    then obtain k where "compact_size c - 3 = Suc k" by (metis Suc_diff_Suc not_le)
    with False have "256 dvd compact_value c" by (simp add: compact_value_def)
    then show ?thesis by auto
  qed
  with lt show ?thesis by linarith
qed

lemma GetBlockProof_val:
  "\<exists>w. GetBlockProof b = Inr w \<and> uint_wf w \<and>
    uval w = (if compact_value (nBits b) = 0 \<or> bit (nBits b) 23 \<or> 2 ^ 256 \<le> compact_value (nBits b) then 0
              else 2 ^ 256 div (compact_value (nBits b) + 1))"
proof -
  obtain t neg ovf where t: "SetCompact (nBits b) = (t, neg, ovf)" by (cases "SetCompact (nBits b)")
  note S = SetCompact_val [OF t]
  show ?thesis
  proof (cases "compact_value (nBits b) = 0 \<or> bit (nBits b) 23 \<or> 2 ^ 256 \<le> compact_value (nBits b)")
    case True
    have "neg \<or> ovf \<or> EqualTo t 0"
    proof (cases "2 ^ 256 \<le> compact_value (nBits b)")
      case False
      then have "uval t = compact_value (nBits b)" using S(2) by simp
      with True False S(1,3) show ?thesis by (auto simp: EqualTo_val)
    qed (use S(4) in blast)
    then have "GetBlockProof b = Inr (uint_of_u64 0)" using t by (simp add: GetBlockProof_def)
    with True show ?thesis by (simp add: uval_of_u64)
  next
    case False
    then have v: "uval t = compact_value (nBits b)" using S(2) by (simp add: not_le)
    have no: "\<not> (neg \<or> ovf \<or> EqualTo t 0)" using False S v by (auto simp: EqualTo_val)
    have lt: "uval t + 1 < 2 ^ 256" using False v compact_value_not_max [of "nBits b"] by (simp only: not_le de_Morgan_disj)
    obtain q where q: "uint_div (uint_not t) (uint_add t (uint_of_u64 1)) = Inr q"
        "uint_wf (uint_add q (uint_of_u64 1))"
        "uval (uint_add q (uint_of_u64 1)) = 2 ^ 256 div (uval t + 1) mod 2 ^ 256"
      using arith.complement_quotient [OF S(1) lt] by blast
    have "2 ^ 256 div (uval t + 1) < 2 ^ 256"
      using False v by (intro div_less_dividend) auto
    with q no t False v show ?thesis by (auto simp: GetBlockProof_def)
  qed
qed

text \<open>C7: A header hash passes the proof-of-work check exactly when the compact target of the header is positive, without
  the sign bit, at most the limit of the network, and at least the hash, all compared as numbers.\<close>

theorem proof_of_work_check_exact:
  "CheckProofOfWork hash bits p \<longleftrightarrow>
    \<not> bit bits 23 \<and> 0 < compact_value bits \<and> compact_value bits \<le> uval (UintToArith256 (powLimit p)) \<and>
    uval (UintToArith256 hash) \<le> compact_value bits"
  using CheckProofOfWork_iff by (simp add: limit_val_def)

text \<open>C9: The work of a block never fails to compute and is the floor of \<open>2 ^ 256 / (target + 1)\<close>, although that dividend
  does not fit in 256 bits; a header with an invalid target has no work. So a block that passes the proof-of-work check
  has positive work.\<close>

theorem block_proof_is_expected_hashes:
  "\<exists>w. GetBlockProof b = Inr w \<and> uint_wf w \<and>
    uval w = (if compact_value (nBits b) = 0 \<or> bit (nBits b) 23 \<or> 2 ^ 256 \<le> compact_value (nBits b) then 0
              else 2 ^ 256 div (compact_value (nBits b) + 1)) \<and>
    (CheckProofOfWork hash (nBits b) p \<longrightarrow> 0 < uval w)"
proof -
  obtain w where w: "GetBlockProof b = Inr w" "uint_wf w"
    "uval w = (if compact_value (nBits b) = 0 \<or> bit (nBits b) 23 \<or> 2 ^ 256 \<le> compact_value (nBits b) then 0
              else 2 ^ 256 div (compact_value (nBits b) + 1))"
    using GetBlockProof_val by blast
  have "0 < uval w" if "CheckProofOfWork hash (nBits b) p"
  proof -
    have c: "\<not> bit (nBits b) 23" "0 < compact_value (nBits b)" "compact_value (nBits b) \<le> limit_val p"
      using that by (simp_all add: CheckProofOfWork_iff)
    have "limit_val p < 2 ^ 256" unfolding limit_val_def by (rule uval_less) simp
    with c have "compact_value (nBits b) < 2 ^ 256" by (simp only: le_less_trans)
    with c w(3) show ?thesis by (simp add: div_greater_zero_iff)
  qed
  with w show ?thesis by blast
qed

theorem block_proof_is_expected_hashes_witness:
  "\<exists>w. GetBlockProof (CBlockIndex_SetNull\<lparr>nBits := 0x1f07ffff\<rparr>) = Inr w \<and>
     CheckProofOfWork (replicate 32 0) 0x1f07ffff CMainParams \<and> 0 < uval w"
proof -
  have c: "compact_value 0x1f07ffff = 0x07ffff * 256 ^ 28" "\<not> bit (0x1f07ffff :: u32) 23"
    by (simp_all add: compact_value_def compact_size_def compact_mantissa_def)
  have "UintToArith256 (replicate 32 0) = uint_zero" by code_simp
  then have "uval (UintToArith256 (replicate 32 0)) = 0" using uval_of_u64 [of 0] by (simp add: uint_of_u64_def uint_zero_def uval_def WIDTH_def)
  then have "CheckProofOfWork (replicate 32 0) 0x1f07ffff CMainParams"
    using c by (simp add: CheckProofOfWork_iff main_limit)
  moreover have "nBits (CBlockIndex_SetNull\<lparr>nBits := 0x1f07ffff\<rparr>) = 0x1f07ffff" by simp
  ultimately show ?thesis
    using block_proof_is_expected_hashes [of "CBlockIndex_SetNull\<lparr>nBits := 0x1f07ffff\<rparr>" "replicate 32 0" CMainParams]
    by metis
qed

section \<open>Retargeting\<close>

text \<open>What the retargeting relies on; the last conditions are the assertion of the network constructors, that the sum of
  a window of targets fits, and its counterpart for the largest time span.\<close>

definition pow_params :: "Params \<Rightarrow> bool" where
  "pow_params p \<longleftrightarrow> params_wf p \<and> 0 < nPowAveragingWindow p \<and>
     0 < nPreBlossomPowTargetSpacing p \<and> 0 < nPostBlossomPowTargetSpacing p \<and>
     0 \<le> nPowMaxAdjustUp p \<and> nPowMaxAdjustUp p \<le> 100 \<and> 0 \<le> nPowMaxAdjustDown p \<and>
     nPowAveragingWindow p * nPreBlossomPowTargetSpacing p * (100 + nPowMaxAdjustDown p) < 100 * 2 ^ 32 \<and>
     nPowAveragingWindow p * nPostBlossomPowTargetSpacing p * (100 + nPowMaxAdjustDown p) < 100 * 2 ^ 32 \<and>
     nPowAveragingWindow p * int (limit_val p) < 2 ^ 256 \<and>
     (100 + nPowMaxAdjustDown p) * int (limit_val p) < 100 * 2 ^ 256"

lemma shipped_pow_fields:
  assumes "shipped p"
  shows "nPowAveragingWindow p = 17" "nPreBlossomPowTargetSpacing p = 60" "nPostBlossomPowTargetSpacing p = 60"
    "nPowMaxAdjustUp p = 16 \<or> nPowMaxAdjustUp p = 0" "nPowMaxAdjustDown p = 32 \<or> nPowMaxAdjustDown p = 0"
    "17 * limit_val p < 2 ^ 256"
  using assms unfolding shipped_def
  by (elim disjE; simp add: main_limit testnet_limit regtest_limit;
      simp add: CMainParams_def CTestNetParams_def CRegTestParams_def)+

lemma shipped_pow_params:
  assumes "shipped p"
  shows "pow_params p"
proof -
  have "int (17 * limit_val p) < int (2 ^ 256)" using shipped_pow_fields(6) [OF assms] by (simp only: of_nat_less_iff)
  with shipped_pow_fields(1-5) [OF assms] shipped_wf [OF assms] show ?thesis
    by (auto simp: pow_params_def)
qed

definition window_span :: "Params \<Rightarrow> int \<Rightarrow> int" where
  "window_span p h = nPowAveragingWindow p *
     (if upgrade_active p h 4 then nPostBlossomPowTargetSpacing p else nPreBlossomPowTargetSpacing p)"

definition min_span :: "Params \<Rightarrow> int \<Rightarrow> int" where
  "min_span p h = window_span p h * (100 - nPowMaxAdjustUp p) div 100"

definition max_span :: "Params \<Rightarrow> int \<Rightarrow> int" where
  "max_span p h = window_span p h * (100 + nPowMaxAdjustDown p) div 100"

definition damped_span :: "Params \<Rightarrow> int \<Rightarrow> int \<Rightarrow> int" where
  "damped_span p h t = min (max_span p h) (max (min_span p h) (window_span p h + cdiv (t - window_span p h) 4))"

lemma PoWTargetSpacing_val:
  "0 \<le> h \<Longrightarrow> PoWTargetSpacing p h =
    Inr (if upgrade_active p h 4 then nPostBlossomPowTargetSpacing p else nPreBlossomPowTargetSpacing p)"
  by (simp add: PoWTargetSpacing_def NetworkUpgradeActive_eq)

lemma spans:
  assumes "pow_params p" "0 \<le> h"
  shows "0 < window_span p h" "AveragingWindowTimespan p h = Inr (window_span p h)"
    "MinActualTimespan p h = Inr (min_span p h)" "MaxActualTimespan p h = Inr (max_span p h)"
    "0 \<le> min_span p h" "min_span p h \<le> window_span p h" "window_span p h \<le> max_span p h" "max_span p h < 2 ^ 32"
    "100 * max_span p h \<le> window_span p h * (100 + nPowMaxAdjustDown p)"
proof -
  show w: "0 < window_span p h" using assms by (simp add: pow_params_def window_span_def)
  show A: "AveragingWindowTimespan p h = Inr (window_span p h)"
    using assms by (simp add: AveragingWindowTimespan_def PoWTargetSpacing_val window_span_def)
  have up: "0 \<le> 100 - nPowMaxAdjustUp p" "100 - nPowMaxAdjustUp p \<le> 100" and down: "0 \<le> nPowMaxAdjustDown p"
    using assms(1) by (auto simp: pow_params_def)
  show "MinActualTimespan p h = Inr (min_span p h)" "MaxActualTimespan p h = Inr (max_span p h)"
    using w up down by (simp_all add: MinActualTimespan_def MaxActualTimespan_def A min_span_def max_span_def)
  show "0 \<le> min_span p h" using w up by (simp add: min_span_def pos_imp_zdiv_nonneg_iff)
  have "window_span p h * (100 - nPowMaxAdjustUp p) \<le> window_span p h * 100" using w up by (intro mult_left_mono) auto
  then show "min_span p h \<le> window_span p h" by (simp add: min_span_def)
  have "window_span p h * 100 \<le> window_span p h * (100 + nPowMaxAdjustDown p)" using w down by (intro mult_left_mono) auto
  then show "window_span p h \<le> max_span p h" by (simp add: max_span_def)
  have "window_span p h * (100 + nPowMaxAdjustDown p) < 100 * 2 ^ 32"
    using assms(1) by (auto simp: pow_params_def window_span_def)
  then show "max_span p h < 2 ^ 32" by (simp add: max_span_def)
  show "100 * max_span p h \<le> window_span p h * (100 + nPowMaxAdjustDown p)" by (simp add: max_span_def)
qed

lemma damped_span_bounds:
  assumes "pow_params p" "0 \<le> h"
  shows "min_span p h \<le> damped_span p h t" "damped_span p h t \<le> max_span p h"
  using spans(6,7) [OF assms] by (auto simp: damped_span_def)

text \<open>A compact value that encodes a number: it decodes without flags to the number rounded down.\<close>

definition encodes :: "u32 \<Rightarrow> nat \<Rightarrow> bool" where
  "encodes c v \<longleftrightarrow> (\<exists>t. SetCompact c = (t, False, False) \<and> uint_wf t \<and> uval t \<le> v \<and> 2 ^ 15 * (v - uval t) \<le> uval t)"

lemma GetCompact_encodes: "uint_wf a \<Longrightarrow> \<exists>c. GetCompact a False = Inr c \<and> encodes c (uval a)"
  using GetCompact_rounds_down [of a] unfolding encodes_def by blast

lemma unat_of_span: "0 \<le> s \<Longrightarrow> s < 2 ^ 32 \<Longrightarrow> unat (word_of_int s :: u32) = nat s"
  by (simp add: unat_eq_nat_uint uint_word_of_int)

lemma CalculateNextWorkRequired_val:
  fixes l f :: int
  assumes p: "pow_params p" "0 \<le> h" and wf: "uint_wf avg"
  defines "v \<equiv> min (nat (damped_span p h (l - f)) * (uval avg div nat (window_span p h)) mod 2 ^ 256) (limit_val p)"
  shows "\<exists>c. CalculateNextWorkRequired avg l f p h = Inr c \<and> encodes c v"
proof -
  define s where "s = damped_span p h (l - f)"
  note sp = spans [OF p]
  have s: "0 \<le> s" "s < 2 ^ 32"
    using damped_span_bounds [OF p, of "l - f"] sp(5,8) by (auto simp: s_def)
  have T: "0 < window_span p h" "window_span p h < 2 ^ 32" using sp(1,7,8) by auto
  have "unat (u64_of (window_span p h)) = nat (window_span p h)"
    using T by (simp add: unat_eq_nat_uint uint_word_of_int)
  then have d: "uval (uint_of_u64 (u64_of (window_span p h))) = nat (window_span p h)" by (simp add: uval_of_u64)
  obtain q where q: "uint_div avg (uint_of_u64 (u64_of (window_span p h))) = Inr q" "uint_wf q"
      "uval q = uval avg div nat (window_span p h)"
    using uint_div_val [OF wf, of "uint_of_u64 (u64_of (window_span p h))"] d T(1) by auto
  let ?m = "uint_mul32 q (word_of_int s)"
  have m: "uval ?m = nat s * (uval avg div nat (window_span p h)) mod 2 ^ 256"
    using q(2,3) s by (simp only: uval_mul32 unat_of_span)
  let ?n = "if CompareTo ?m (UintToArith256 (powLimit p)) > 0 then UintToArith256 (powLimit p) else ?m"
  have n: "uint_wf ?n" "uval ?n = v"
    using arith.clamp_above [of ?m "UintToArith256 (powLimit p)"] q(2) m
    unfolding v_def s_def limit_val_def by auto
  have eq: "(let a = window_span p h + cdiv (l - f - window_span p h) 4;
          a = if a < min_span p h then min_span p h else a in
        if a > max_span p h then max_span p h else a) = s"
    by (simp add: s_def damped_span_def Let_def min_def max_def)
  have "CalculateNextWorkRequired avg l f p h = GetCompact ?n False"
    using q(1) unfolding CalculateNextWorkRequired_def sp(2-4) and_then_simps Let_def eq [unfolded Let_def, symmetric]
    by simp
  with GetCompact_encodes [OF n(1)] n(2) show ?thesis by simp
qed

lemma retarget_no_overflow:
  assumes p: "pow_params p" "0 \<le> h" and a: "a \<le> limit_val p"
  shows "nat (damped_span p h t) * (a div nat (window_span p h)) < 2 ^ 256"
proof -
  let ?s = "damped_span p h t" let ?T = "window_span p h"
  note sp = spans [OF p]
  have s: "0 \<le> ?s" "?s \<le> max_span p h" using damped_span_bounds [OF p, of t] sp(5) by auto
  have "100 * (?s * (int a div ?T)) \<le> 100 * max_span p h * (int a div ?T)"
    using s sp(1) by (simp add: mult_right_mono pos_imp_zdiv_nonneg_iff)
  also have "\<dots> \<le> ?T * (100 + nPowMaxAdjustDown p) * (int a div ?T)"
    using sp(1,9) by (intro mult_right_mono) (simp_all add: pos_imp_zdiv_nonneg_iff)
  also have "\<dots> = (100 + nPowMaxAdjustDown p) * (?T * (int a div ?T))" by (simp add: mult.commute mult.left_commute)
  also have "\<dots> \<le> (100 + nPowMaxAdjustDown p) * int (limit_val p)"
  proof (rule mult_left_mono)
    have "?T * (int a div ?T) \<le> int a" using sp(1) by (simp add: minus_mod_eq_mult_div [symmetric])
    also have "\<dots> \<le> int (limit_val p)" using a by simp
    finally show "?T * (int a div ?T) \<le> int (limit_val p)" .
  qed (use p(1) in \<open>simp add: pow_params_def\<close>)
  also have "\<dots> < 100 * 2 ^ 256" using p(1) by (simp add: pow_params_def)
  finally have "?s * (int a div ?T) < 2 ^ 256" by simp
  moreover have "int (nat ?s * (a div nat ?T)) = ?s * (int a div ?T)"
    using s(1) sp(1) by (simp add: zdiv_int)
  ultimately have "int (nat ?s * (a div nat ?T)) < int (2 ^ 256)" by (simp only: of_nat_power of_nat_numeral)
  then show ?thesis by (simp only: of_nat_less_iff)
qed

text \<open>The sum of the targets of a block and its predecessors.\<close>

fun target_sum :: "block_store \<Rightarrow> nat \<Rightarrow> ptr \<Rightarrow> nat" where
  "target_sum st 0 p = 0"
| "target_sum st (Suc n) p = (case st p of None \<Rightarrow> 0 | Some b \<Rightarrow>
     uval (fst (SetCompact (nBits b))) + (case pprev b of None \<Rightarrow> 0 | Some q \<Rightarrow> target_sum st n q))"

lemma SetCompact_wf: "uint_wf (fst (SetCompact c))"
  by (metis SetCompact_val(1) prod.collapse)

lemma averaging_loop_val:
  assumes "tree_wf st"
  shows "st p = Some b \<Longrightarrow> uint_wf t \<Longrightarrow>
    \<exists>t'. averaging_loop st n (Some p) t = Inr (ancestor st n p, t') \<and> uint_wf t' \<and>
      uval t' = (uval t + target_sum st n p) mod 2 ^ 256"
proof (induction n arbitrary: p b t)
  case 0
  then show ?case using uval_less [of t] by simp
next
  case (Suc n)
  let ?t = "uint_add t (fst (SetCompact (nBits b)))"
  have wf: "uint_wf ?t" using Suc.prems(2) SetCompact_wf by simp
  have v: "uval ?t = (uval t + uval (fst (SetCompact (nBits b)))) mod 2 ^ 256"
    using Suc.prems(2) SetCompact_wf by (rule uval_add)
  from assms Suc.prems(1) show ?case
  proof (cases rule: tree_wf_parent)
    case genesis
    have "averaging_loop st n None ?t = Inr (None, ?t)" by (cases n) simp_all
    with genesis Suc.prems wf v show ?thesis by simp
  next
    case (child q qb)
    obtain t' where "averaging_loop st n (Some q) ?t = Inr (ancestor st n q, t')" "uint_wf t'"
        "uval t' = (uval ?t + target_sum st n q) mod 2 ^ 256"
      using Suc.IH [OF child(2) wf] by blast
    with child Suc.prems(1) v show ?thesis
      by (simp add: mod_add_left_eq add.assoc del: numeral_power_eq_of_nat_cancel_iff)
  qed
qed

lemma median_times_total:
  assumes "tree_wf st"
  shows "st p = Some b \<Longrightarrow> \<exists>ts. median_times st n (Some p) = Inr ts \<and> (0 < n \<longrightarrow> ts \<noteq> [])"
proof (induction n arbitrary: p b)
  case (Suc n)
  from assms Suc.prems show ?case
  proof (cases rule: tree_wf_parent)
    case genesis
    have "median_times st n None = Inr []" by (cases n) simp_all
    with genesis Suc.prems show ?thesis by simp
  next
    case (child q qb)
    with Suc.IH [OF child(2)] Suc.prems show ?thesis by auto
  qed
qed simp

lemma GetMedianTimePast_total: "tree_wf st \<Longrightarrow> st p = Some b \<Longrightarrow> \<exists>t. GetMedianTimePast st p = Inr t"
  using median_times_total [of st p b nMedianTimeSpan] by (auto simp: GetMedianTimePast_def Let_def)

lemma target_sum_le:
  assumes "tree_wf st" "st p = Some b"
    and "\<And>i q qb. i < n \<Longrightarrow> ancestor st i p = Some q \<Longrightarrow> st q = Some qb \<Longrightarrow> uval (fst (SetCompact (nBits qb))) \<le> m"
  shows "target_sum st n p \<le> n * m"
  using assms(2,3)
proof (induction n arbitrary: p b)
  case (Suc n)
  have "uval (fst (SetCompact (nBits b))) \<le> m" using Suc.prems(2) [of 0 p b] Suc.prems(1) by simp
  with assms(1) Suc.prems(1) show ?case
  proof (cases rule: tree_wf_parent)
    case (child q qb)
    have "target_sum st n q \<le> n * m"
    proof (rule Suc.IH [OF child(2)])
      fix i r rb assume "i < n" "ancestor st i q = Some r" "st r = Some rb"
      with Suc.prems(2) [of "Suc i" r rb] Suc.prems(1) child(1) show "uval (fst (SetCompact (nBits rb))) \<le> m" by simp
    qed
    with child Suc.prems(1) \<open>uval _ \<le> m\<close> show ?thesis by simp
  qed (use Suc.prems in simp)
qed simp

lemma window_average:
  assumes "tree_wf st" "st p = Some b" "0 < n" "n < 2 ^ 63"
  shows "\<exists>t avg. averaging_loop st n (Some p) (uint_of_u64 0) = Inr (ancestor st n p, t) \<and>
    uint_div t (uint_of_u64 (u64_of (int n))) = Inr avg \<and> uint_wf avg \<and>
    uval avg = target_sum st n p mod 2 ^ 256 div n"
proof -
  obtain t where t: "averaging_loop st n (Some p) (uint_of_u64 0) = Inr (ancestor st n p, t)" "uint_wf t"
      "uval t = target_sum st n p mod 2 ^ 256"
    using averaging_loop_val [OF assms(1,2), of "uint_of_u64 0" n] by (auto simp: uval_of_u64)
  have "uval (uint_of_u64 (u64_of (int n))) = n"
    using assms(4) by (simp add: uval_of_u64 unat_of_nat)
  with uint_div_val [OF t(2), of "uint_of_u64 (u64_of (int n))"] assms(3) t show ?thesis by auto
qed

definition min_difficulty_allowed :: "CBlockIndex \<Rightarrow> CBlockHeader option \<Rightarrow> Params \<Rightarrow> bool" where
  "min_difficulty_allowed b pblock p \<longleftrightarrow>
     (\<exists>after block. nPowAllowMinDifficultyBlocksAfterHeight p = Some after \<and> after \<le> word_of_int (nHeight b) \<and>
        pblock = Some block \<and> GetBlockTime b + 6 *
          (if upgrade_active p (nHeight b + 1) 4 then nPostBlossomPowTargetSpacing p else nPreBlossomPowTargetSpacing p)
        < header_GetBlockTime block)"

lemma GetNextWorkRequired_cases:
  assumes wf: "tree_wf st" and b: "st pl = Some b" and p: "pow_params p"
  defines "W \<equiv> nat (nPowAveragingWindow p)"
  shows "\<exists>c. GetNextWorkRequired st (Some pl) pblock p = Inr c \<and>
    (if min_difficulty_allowed b pblock p \<or> ancestor st W pl = None then encodes c (limit_val p)
     else \<exists>pfirst l f avg. ancestor st W pl = Some pfirst \<and> GetMedianTimePast st pl = Inr l \<and>
            GetMedianTimePast st pfirst = Inr f \<and> uint_wf avg \<and> uval avg = target_sum st W pl mod 2 ^ 256 div W \<and>
            CalculateNextWorkRequired avg l f p (nHeight b + 1) = Inr c)"
proof -
  have h: "0 \<le> nHeight b" using tree_wf_height wf b .
  have W: "0 < nPowAveragingWindow p" "int W = nPowAveragingWindow p"
    using p by (simp_all add: pow_params_def W_def)
  have W63: "W < 2 ^ 63"
  proof -
    have "nPowAveragingWindow p * 1 * 1 \<le> nPowAveragingWindow p * nPreBlossomPowTargetSpacing p * (100 + nPowMaxAdjustDown p)"
      using p by (intro mult_mono) (auto simp: pow_params_def)
    also have "\<dots> < 429496729600" using p by (simp add: pow_params_def)
    finally have "int W < 429496729600" unfolding W(2) by simp
    then show ?thesis by simp
  qed
  obtain lim where lim: "GetCompact (UintToArith256 (powLimit p)) False = Inr lim" "encodes lim (limit_val p)"
    using GetCompact_encodes [of "UintToArith256 (powLimit p)"] by (auto simp: limit_val_def)
  obtain t avg where A: "averaging_loop st W (Some pl) (uint_of_u64 0) = Inr (ancestor st W pl, t)"
      "uint_div t (uint_of_u64 (u64_of (int W))) = Inr avg" "uint_wf avg" "uval avg = target_sum st W pl mod 2 ^ 256 div W"
    using window_average [OF wf b _ W63] W by auto
  obtain l where l: "GetMedianTimePast st pl = Inr l" using GetMedianTimePast_total wf b by blast
  have md: "(case nPowAllowMinDifficultyBlocksAfterHeight p of
          None \<Rightarrow> Inr False
        | Some after \<Rightarrow>
          if (word_of_int (nHeight b) :: u32) \<ge> after then
            (case pblock of
               None \<Rightarrow> Inr False
             | Some block \<Rightarrow> and_then (PoWTargetSpacing p (nHeight b + 1)) (\<lambda>spacing.
                 Inr (header_GetBlockTime block > GetBlockTime b + spacing * 6)))
          else Inr False) = (Inr (min_difficulty_allowed b pblock p) :: failure + bool)"
    using h by (auto simp: min_difficulty_allowed_def PoWTargetSpacing_val mult.commute split: option.split)
  have d: "deref st pl = Inr b" using b by simp
  have eq: "GetNextWorkRequired st (Some pl) pblock p =
     (if min_difficulty_allowed b pblock p then Inr lim else
      case ancestor st W pl of None \<Rightarrow> Inr lim | Some pfirst \<Rightarrow>
      and_then (uint_div t (uint_of_u64 (u64_of (nPowAveragingWindow p)))) (\<lambda>bnAvg.
      and_then (GetMedianTimePast st pl) (\<lambda>lastTime.
      and_then (GetMedianTimePast st pfirst) (\<lambda>firstTime.
      CalculateNextWorkRequired bnAvg lastTime firstTime p (nHeight b + 1)))))"
    unfolding GetNextWorkRequired_def W_def [symmetric]
    by (simp only: lim(1) and_then_simps option.case d md A(1) prod.case)
  show ?thesis
  proof (cases "min_difficulty_allowed b pblock p \<or> ancestor st W pl = None")
    case True
    then have "GetNextWorkRequired st (Some pl) pblock p = Inr lim"
      unfolding eq by auto
    with True lim(2) show ?thesis by simp
  next
    case False
    then obtain pfirst where f: "ancestor st W pl = Some pfirst" by auto
    then obtain fb where fb: "st pfirst = Some fb" using ancestor_height wf b by blast
    obtain f' where f': "GetMedianTimePast st pfirst = Inr f'" using GetMedianTimePast_total wf fb by blast
    obtain c where c: "CalculateNextWorkRequired avg l f' p (nHeight b + 1) = Inr c"
      using CalculateNextWorkRequired_val [OF p _ A(3), of "nHeight b + 1" l f'] h by auto
    have "GetNextWorkRequired st (Some pl) pblock p = Inr c"
      using A(2) f f' l c False W(2) unfolding eq by simp
    with False f f' l c A show ?thesis by auto
  qed
qed

lemma target_sum_ge:
  assumes "tree_wf st" "st p = Some b" "ancestor st n p \<noteq> None"
    and "\<And>i q qb. i < n \<Longrightarrow> ancestor st i p = Some q \<Longrightarrow> st q = Some qb \<Longrightarrow> m \<le> uval (fst (SetCompact (nBits qb)))"
  shows "n * m \<le> target_sum st n p"
  using assms(2-4)
proof (induction n arbitrary: p b)
  case (Suc n)
  have "m \<le> uval (fst (SetCompact (nBits b)))" using Suc.prems(3) [of 0 p b] Suc.prems(1) by simp
  with assms(1) Suc.prems(1) show ?case
  proof (cases rule: tree_wf_parent)
    case (child q qb)
    have "n * m \<le> target_sum st n q"
    proof (rule Suc.IH [OF child(2)])
      show "ancestor st n q \<noteq> None" using Suc.prems(1,2) child(1) by simp
      fix i r rb assume "i < n" "ancestor st i q = Some r" "st r = Some rb"
      with Suc.prems(3) [of "Suc i" r rb] Suc.prems(1) child(1) show "m \<le> uval (fst (SetCompact (nBits rb)))" by simp
    qed
    with child Suc.prems(1) \<open>m \<le> _\<close> show ?thesis by simp
  qed (use Suc.prems in simp)
qed simp

lemma encodes_pos: "encodes c v \<Longrightarrow> SetCompact c = (t, neg, ovf) \<Longrightarrow> 0 < v \<Longrightarrow> 0 < uval t"
  unfolding encodes_def by force

text \<open>C2: The next difficulty can always be computed, and the compact target a new block must carry is valid: it decodes
  without the negative or the overflow flag, to at most the proof-of-work limit, whatever the targets, the times and the
  number of the blocks before. It is positive if no target of the averaging window is above the limit or below the planned number of seconds
  of the window; a smaller mean is rounded to zero, a target that no block can meet.\<close>

theorem next_work_is_valid_target:
  assumes "tree_wf st" "st pl = Some b" "pow_params p"
  shows "\<exists>c t. GetNextWorkRequired st (Some pl) pblock p = Inr c \<and> SetCompact c = (t, False, False) \<and>
    uval t \<le> limit_val p \<and>
    (0 < limit_val p \<and> 0 < min_span p (nHeight b + 1) \<and>
     (\<forall>i q qb. i < nat (nPowAveragingWindow p) \<longrightarrow> ancestor st i pl = Some q \<longrightarrow> st q = Some qb \<longrightarrow>
        nat (window_span p (nHeight b + 1)) \<le> uval (fst (SetCompact (nBits qb))) \<and> uval (fst (SetCompact (nBits qb))) \<le> limit_val p) \<longrightarrow>
     0 < uval t)"
proof -
  define W where "W = nat (nPowAveragingWindow p)"
  define h where "h = nHeight b + 1"
  have h: "0 \<le> h" using tree_wf_height [OF assms(1,2)] by (simp add: h_def)
  have W: "0 < W" "int W = nPowAveragingWindow p" using assms(3) by (simp_all add: pow_params_def W_def)
  obtain c where c: "GetNextWorkRequired st (Some pl) pblock p = Inr c"
    "if min_difficulty_allowed b pblock p \<or> ancestor st W pl = None then encodes c (limit_val p)
     else \<exists>pfirst l f avg. ancestor st W pl = Some pfirst \<and> GetMedianTimePast st pl = Inr l \<and> GetMedianTimePast st pfirst = Inr f \<and> uint_wf avg \<and>
       uval avg = target_sum st W pl mod 2 ^ 256 div W \<and> CalculateNextWorkRequired avg l f p h = Inr c"
    using GetNextWorkRequired_cases [OF assms, of pblock] unfolding W_def h_def by blast
  have conclude: ?thesis if v: "encodes c v" "v \<le> limit_val p" and pos: "0 < limit_val p \<and> 0 < min_span p h \<and>
     (\<forall>i q qb. i < W \<longrightarrow> ancestor st i pl = Some q \<longrightarrow> st q = Some qb \<longrightarrow>
        nat (window_span p h) \<le> uval (fst (SetCompact (nBits qb))) \<and> uval (fst (SetCompact (nBits qb))) \<le> limit_val p) \<Longrightarrow> 0 < v" for v
  proof -
    obtain t where t: "SetCompact c = (t, False, False)" "uval t \<le> v" using v(1) unfolding encodes_def by blast
    then show ?thesis using c(1) v encodes_pos [OF v(1) t(1)] pos unfolding W_def h_def by (meson le_trans)
  qed
  show ?thesis
  proof (cases "min_difficulty_allowed b pblock p \<or> ancestor st W pl = None")
    case True
    with c(2) conclude [of "limit_val p"] show ?thesis by simp
  next
    case False
    then obtain pfirst l f avg where a: "ancestor st W pl = Some pfirst" "uint_wf avg" "uval avg = target_sum st W pl mod 2 ^ 256 div W"
      "CalculateNextWorkRequired avg l f p h = Inr c"
      using c(2) by auto
    let ?v = "min (nat (damped_span p h (l - f)) * (uval avg div nat (window_span p h)) mod 2 ^ 256) (limit_val p)"
    have enc: "encodes c ?v" using CalculateNextWorkRequired_val [OF assms(3) h a(2), of l f] a(4) by auto
    show ?thesis
    proof (rule conclude [OF enc])
      assume pos: "0 < limit_val p \<and> 0 < min_span p h \<and> (\<forall>i q qb. i < W \<longrightarrow> ancestor st i pl = Some q \<longrightarrow> st q = Some qb \<longrightarrow>
        nat (window_span p h) \<le> uval (fst (SetCompact (nBits qb))) \<and> uval (fst (SetCompact (nBits qb))) \<le> limit_val p)"
      have le: "target_sum st W pl \<le> W * limit_val p" using target_sum_le [OF assms(1,2)] pos by blast
      have ge: "W * nat (window_span p h) \<le> target_sum st W pl" using target_sum_ge [OF assms(1,2)] pos a(1) by blast
      have "int (W * limit_val p) < int (2 ^ 256)" using assms(3) W(2) by (simp add: pow_params_def)
      then have "W * limit_val p < 2 ^ 256" by (simp only: of_nat_less_iff)
      with le have avg: "uval avg = target_sum st W pl div W" using a(3) by (simp only: le_less_trans mod_less)
      have avg_le: "uval avg \<le> limit_val p" using le W(1) unfolding avg by (metis div_le_mono nonzero_mult_div_cancel_left not_gr_zero)
      have "nat (window_span p h) \<le> uval avg" using ge W(1) unfolding avg by (metis div_le_mono nonzero_mult_div_cancel_left not_gr_zero)
      then have "0 < uval avg div nat (window_span p h)" using spans(1) [OF assms(3) h] by (simp add: div_greater_zero_iff)
      moreover have "0 < nat (damped_span p h (l - f))" using damped_span_bounds(1) [OF assms(3) h, of "l - f"] pos by simp
      ultimately show "0 < ?v" using pos retarget_no_overflow [OF assms(3) h avg_le, of "l - f"] by simp
    qed simp
  qed
qed
text \<open>C8: Once a full averaging window of valid blocks exists (and the minimum-difficulty rule of the test networks does not
  apply), the next target is the mean of the window's targets, divided by the planned time span of the window and
  multiplied by the actual one (the difference of the median times, damped by four and clamped to the allowed range),
  rounded down to its compact form and capped by the limit. No sum or product wraps around.\<close>

theorem next_work_is_damped_average:
  assumes "tree_wf st" "st pl = Some b" "pow_params p" "nPowAveragingWindow p \<le> nHeight b"
    and "\<not> min_difficulty_allowed b pblock p"
    and "\<And>i q qb. i < nat (nPowAveragingWindow p) \<Longrightarrow> ancestor st i pl = Some q \<Longrightarrow> st q = Some qb \<Longrightarrow>
      uval (fst (SetCompact (nBits qb))) \<le> limit_val p"
  shows "\<exists>c pfirst l f s. GetNextWorkRequired st (Some pl) pblock p = Inr c \<and>
    ancestor st (nat (nPowAveragingWindow p)) pl = Some pfirst \<and>
    GetMedianTimePast st pl = Inr l \<and> GetMedianTimePast st pfirst = Inr f \<and>
    s = damped_span p (nHeight b + 1) (l - f) \<and>
    min_span p (nHeight b + 1) \<le> s \<and> s \<le> max_span p (nHeight b + 1) \<and>
    encodes c (min (nat s * (target_sum st (nat (nPowAveragingWindow p)) pl div nat (nPowAveragingWindow p)
                             div nat (window_span p (nHeight b + 1)))) (limit_val p))"
proof -
  define W where "W = nat (nPowAveragingWindow p)"
  define h where "h = nHeight b + 1"
  have h: "0 \<le> h" using tree_wf_height [OF assms(1,2)] by (simp add: h_def)
  have W: "0 < W" "int W = nPowAveragingWindow p" using assms(3) by (simp_all add: pow_params_def W_def)
  have "ancestor st W pl \<noteq> None"
    using ancestor_exists [OF assms(1,2), of W] assms(4) W(2) by auto
  then obtain c pfirst l f avg where c: "GetNextWorkRequired st (Some pl) pblock p = Inr c"
      "ancestor st W pl = Some pfirst" "GetMedianTimePast st pl = Inr l" "GetMedianTimePast st pfirst = Inr f"
      "uint_wf avg" "uval avg = target_sum st W pl mod 2 ^ 256 div W" "CalculateNextWorkRequired avg l f p h = Inr c"
    using GetNextWorkRequired_cases [OF assms(1-3), of pblock] assms(5) unfolding W_def h_def by auto
  have sum: "target_sum st W pl \<le> W * limit_val p"
    using target_sum_le [OF assms(1,2)] assms(6) unfolding W_def by blast
  have "int (W * limit_val p) < int (2 ^ 256)" using assms(3) W(2) by (simp add: pow_params_def)
  then have "W * limit_val p < 2 ^ 256" by (simp only: of_nat_less_iff)
  with sum have avg: "uval avg = target_sum st W pl div W" using c(6) by (simp only: le_less_trans mod_less)
  have le: "uval avg \<le> limit_val p"
    using sum W(1) unfolding avg by (metis div_le_mono nonzero_mult_div_cancel_left not_gr_zero)
  have "encodes c (min (nat (damped_span p h (l - f)) * (uval avg div nat (window_span p h)) mod 2 ^ 256) (limit_val p))"
    using CalculateNextWorkRequired_val [OF assms(3) h c(5), of l f] c(7) by auto
  then have "encodes c (min (nat (damped_span p h (l - f)) * (uval avg div nat (window_span p h))) (limit_val p))"
    using retarget_no_overflow [OF assms(3) h le, of "l - f"] by (simp only: mod_less)
  then show ?thesis
    using c(1-4) damped_span_bounds [OF assms(3) h, of "l - f"] unfolding avg W_def h_def by blast
qed

text \<open>C33: The equivalent time of a difference in work never fails for a tip with a valid target: it is the difference
  of the work times the block spacing, divided by the work of the tip, with the sign of the difference, and it saturates at
  the bounds of a signed 64-bit number.\<close>

theorem equivalent_time_saturates:
  assumes "uint_wf (nChainWork to)" "uint_wf (nChainWork from)" "0 \<le> nHeight tip"
    and "PoWTargetSpacing p (nHeight tip) = Inr spacing" "0 \<le> spacing" "spacing < 2 ^ 63"
    and "GetBlockProof tip = Inr w" "0 < uval w"
    and "\<bar>int (uval (nChainWork to)) - int (uval (nChainWork from))\<bar> * spacing < 2 ^ 256"
  shows "\<exists>d. d = \<bar>int (uval (nChainWork to)) - int (uval (nChainWork from))\<bar> * spacing div int (uval w) \<and>
    GetBlockProofEquivalentTime to from tip p =
      Inr ((if uval (nChainWork from) < uval (nChainWork to) then 1 else - 1) * min d (2 ^ 63 - 1))"
proof -
  let ?to = "nChainWork to" let ?from = "nChainWork from"
  define larger where "larger \<longleftrightarrow> CompareTo ?to ?from > 0"
  have L: "larger \<longleftrightarrow> uval ?from < uval ?to" using assms(1,2) by (simp add: larger_def arith.cmp_gt)
  define r where "r = (if larger then uint_sub ?to ?from else uint_sub ?from ?to)"
  have r: "uint_wf r" "int (uval r) = \<bar>int (uval ?to) - int (uval ?from)\<bar>"
    using arith.abs_diff [OF assms(1,2)] unfolding r_def larger_def by auto
  define n where "n = uint_of_u64 (u64_of spacing)"
  have n: "uint_wf n" "int (uval n) = spacing"
    using assms(5,6) by (simp_all add: n_def uval_of_u64 unat_eq_nat_uint uint_word_of_int)
  have ww: "uint_wf w" using GetBlockProof_val [of tip] assms(7) by auto
  have "int (uval r * uval n) < int (2 ^ 256)" using assms(9) r(2) n(2) by (simp only: of_nat_mult of_nat_power of_nat_numeral)
  then have "uval r * uval n < 2 ^ 256" by (simp only: of_nat_less_iff)
  then have m: "uval (uint_mul r n) = uval r * uval n" using r(1) n(1) by (simp only: uval_mul mod_less)
  obtain q where q: "uint_div (uint_mul r n) w = Inr q" "uint_wf q" "uval q = uval r * uval n div uval w"
    using uint_div_val [of "uint_mul r n" w] r(1) n(1) ww assms(8) m by auto
  have E: "GetBlockProofEquivalentTime to from tip p =
      Inr (if uint_bits q > 63 then (if larger then 1 else - 1) * (2 ^ 63 - 1)
           else int64_of (u64_of (if larger then 1 else - 1) * GetLow64 q))"
    using assms(4,7) q(1) unfolding GetBlockProofEquivalentTime_def Let_def larger_def [symmetric] r_def [symmetric] n_def
    by simp
  have iq: "int (uval q) = \<bar>int (uval ?to) - int (uval ?from)\<bar> * spacing div int (uval w)"
    using q(3) r(2) n(2) by (simp add: zdiv_int)
  show ?thesis
  proof (cases "uint_bits q > 63")
    case True
    have "(2::nat) ^ 63 \<le> 2 ^ (uint_bits q - 1)" using True by (intro power_increasing) auto
    also have "\<dots> \<le> uval q"
      using uint_bits_bounds(3) [OF q(2)] uint_bits_zero [OF q(2)] True by auto
    finally have "min (int (uval q)) (2 ^ 63 - 1) = 2 ^ 63 - 1" by simp
    with True E L iq show ?thesis by auto
  next
    case False
    have lt: "uval q < 2 ^ 63"
    proof (cases "uval q = 0")
      case False
      have "uval q < 2 ^ uint_bits q" using uint_bits_bounds(4) [OF q(2) False] .
      also have "\<dots> \<le> 2 ^ 63" using \<open>\<not> uint_bits q > 63\<close> by (intro power_increasing) auto
      finally show ?thesis .
    qed simp
    have "unat (GetLow64 q) = uval q" using GetLow64_val [OF q(2)] lt by simp
    then have low: "GetLow64 q = u64_of (int (uval q))" using lt by (simp add: word_unat_eq_iff unat_of_nat)
    have "int64_of (u64_of (if larger then 1 else - 1) * GetLow64 q) = (if larger then 1 else - 1) * int (uval q)"
      using lt int64_of_u64_of [of "int (uval q)"] int64_of_u64_of [of "- int (uval q)"]
      by (simp add: low in_int64_def)
    moreover have "min (int (uval q)) (2 ^ 63 - 1) = int (uval q)" using lt by simp
    ultimately show ?thesis using False E L iq by auto
  qed
qed


text \<open>A chain of twenty blocks at the easiest difficulty, one minute apart, for the witnesses.\<close>

definition line_tree :: block_store where
  "line_tree = (\<lambda>p. if p < 20 then Some (CBlockIndex_SetNull\<lparr>phashBlock := [of_nat p],
     pprev := (if p = 0 then None else Some (p - 1)), nHeight := int p, nTime := of_nat (60 * p), nBits := 0x1f07ffff,
     nChainWork := uint_of_u64 (of_nat p)\<rparr>) else None)"

lemma line_tree_wf: "tree_wf line_tree"
  by (auto simp: tree_wf_def entry_wf_def line_tree_def CBlockIndex_SetNull_def split: if_splits)

lemma easiest_target: "uval (fst (SetCompact 0x1f07ffff)) = 0x07ffff * 256 ^ 28"
proof -
  obtain t neg ovf where t: "SetCompact 0x1f07ffff = (t, neg, ovf)" by (cases "SetCompact 0x1f07ffff")
  have c: "compact_value 0x1f07ffff = 0x07ffff * 256 ^ 28"
    by (simp add: compact_value_def compact_size_def compact_mantissa_def)
  show ?thesis using SetCompact_val(2) [OF t] t by (simp add: c)
qed

lemma line_tree_bits: "line_tree q = Some qb \<Longrightarrow> nBits qb = 0x1f07ffff"
  by (auto simp: line_tree_def split: if_splits)

theorem next_work_is_damped_average_witness:
  "\<exists>c s v. GetNextWorkRequired line_tree (Some 19) None CMainParams = Inr c \<and> encodes c v \<and>
     min_span CMainParams 20 \<le> s \<and> s \<le> max_span CMainParams 20"
proof -
  have p: "pow_params CMainParams" and s: "shipped CMainParams" using shipped_pow_params by (simp_all add: shipped_def)
  define b where "b = the (line_tree 19)"
  have b: "line_tree 19 = Some b" "nHeight b = 19" by (simp_all add: b_def line_tree_def)
  have m: "\<not> min_difficulty_allowed b None CMainParams" by (simp add: min_difficulty_allowed_def)
  have v: "uval (fst (SetCompact (nBits qb))) \<le> limit_val CMainParams" if "line_tree q = Some qb" for q qb
    unfolding line_tree_bits [OF that] easiest_target main_limit by simp
  have "nPowAveragingWindow CMainParams \<le> nHeight b" using shipped_pow_fields(1) [OF s] b(2) by simp
  from next_work_is_damped_average [OF line_tree_wf b(1) p this m] v b(2) show ?thesis by auto
qed

theorem equivalent_time_saturates_witness:
  "\<exists>w. GetBlockProof (the (line_tree 19)) = Inr w \<and>
    GetBlockProofEquivalentTime (the (line_tree 19)) (the (line_tree 9)) (the (line_tree 19)) CMainParams =
      Inr (min (600 div int (uval w)) (2 ^ 63 - 1))"
proof -
  define t f where "t = the (line_tree 19)" and "f = the (line_tree 9)"
  have t: "nChainWork t = uint_of_u64 19" "nHeight t = 19" "nBits t = 0x1f07ffff" by (simp_all add: t_def line_tree_def)
  have f: "nChainWork f = uint_of_u64 9" by (simp add: f_def line_tree_def)
  have s: "shipped CMainParams" by (simp add: shipped_def)
  have sp: "PoWTargetSpacing CMainParams (nHeight t) = Inr 60"
    using shipped_pow_fields(2,3) [OF s] t(2) by (simp add: PoWTargetSpacing_val)
  have c: "compact_value 0x1f07ffff = 0x07ffff * 256 ^ 28" "\<not> bit (0x1f07ffff :: u32) 23"
    by (simp_all add: compact_value_def compact_size_def compact_mantissa_def)
  obtain w where w: "GetBlockProof t = Inr w" "0 < uval w"
    using GetBlockProof_val [of t] unfolding t(3) c(1) using c(2) by auto
  have v: "uint_wf (nChainWork t)" "uint_wf (nChainWork f)" "uval (nChainWork t) = 19" "uval (nChainWork f) = 9"
    using t(1) f by (simp_all add: uval_of_u64)
  from equivalent_time_saturates [OF v(1,2) _ sp _ _ w, unfolded v(3,4)] t(2) w(1)
  show ?thesis unfolding t_def [symmetric] f_def [symmetric] by auto
qed

theorem next_work_is_valid_target_witness:
  "\<exists>c t. GetNextWorkRequired line_tree (Some 19) None CMainParams = Inr c \<and> SetCompact c = (t, False, False) \<and>
    uval t \<le> limit_val CMainParams \<and> 0 < uval t"
proof -
  have p: "pow_params CMainParams" and s: "shipped CMainParams" using shipped_pow_params by (simp_all add: shipped_def)
  define b where "b = the (line_tree 19)"
  have b: "line_tree 19 = Some b" "nHeight b = 19" by (simp_all add: b_def line_tree_def)
  have w: "window_span CMainParams 20 = 1020" using shipped_pow_fields(1-3) [OF s] by (simp add: window_span_def)
  have m: "0 < min_span CMainParams 20" by (simp add: min_span_def w) (simp add: CMainParams_def)
  have v: "1020 \<le> uval (fst (SetCompact (nBits qb))) \<and> uval (fst (SetCompact (nBits qb))) \<le> limit_val CMainParams" if "line_tree q = Some qb" for q qb
    unfolding line_tree_bits [OF that] easiest_target main_limit by simp
  have "0 < limit_val CMainParams" by (simp add: main_limit)
  then show ?thesis using next_work_is_valid_target [OF line_tree_wf b(1) p, of None] v m w b(2) by auto
qed

end
