(* ===== verification/BlockIndex.thy ===== *)
theory BlockIndex
  imports Pow
begin

text \<open>
  The registration of block headers (\<^verbatim>\<open>AddToBlockIndex\<close> of \<^verbatim>\<open>main.cpp\<close>): the map from hashes to index entries, the best
  header and the set of entries to be written to disk. The hash of a header is a parameter; all that is assumed of
  it is that no header names its own hash as that of its predecessor. Reachable states are those built by registering
  headers one after the other from the empty index.
\<close>

record block_db =
  heap :: block_store
  next_ptr :: ptr
  mapBlockIndex :: "bytes \<Rightarrow> ptr option"
  pindexBestHeader :: "ptr option"
  setDirtyBlockIndex :: "ptr set"

definition empty_db :: block_db where
  "empty_db = \<lparr>heap = Map.empty, next_ptr = 0, mapBlockIndex = Map.empty, pindexBestHeader = None,
     setDirtyBlockIndex = {}\<rparr>"

definition AddToBlockIndex :: "(CBlockHeader \<Rightarrow> bytes) \<Rightarrow> block_db \<Rightarrow> CBlockHeader \<Rightarrow> failure + block_db \<times> ptr" where
  "AddToBlockIndex GetHash db block =
     (let hash = GetHash block in
      case mapBlockIndex db hash of
        Some p \<Rightarrow> Inr (db, p)
      | None \<Rightarrow>
        let pindexNew = next_ptr db;
            entry = (CBlockIndex_of block)\<lparr>nSequenceId := 0, phashBlock := hash\<rparr>;
            blocks = (mapBlockIndex db)(hash \<mapsto> pindexNew);
            st = (heap db)(pindexNew \<mapsto> entry)
        in and_then
             (case blocks (hdr_hashPrevBlock block) of
                None \<Rightarrow> Inr entry
              | Some q \<Rightarrow> and_then (deref st q) (\<lambda>qb.
                  let e = entry\<lparr>pprev := Some q, nHeight := nHeight qb + 1\<rparr>
                  in BuildSkip (st(pindexNew \<mapsto> e)) e)) (\<lambda>entry.
           and_then (case pprev entry of
                       None \<Rightarrow> Inr (uint_of_u64 0)
                     | Some q \<Rightarrow> and_then (deref (st(pindexNew \<mapsto> entry)) q) (\<lambda>qb. Inr (nChainWork qb))) (\<lambda>work.
           and_then (GetBlockProof entry) (\<lambda>proof.
           and_then (RaiseValidity (entry\<lparr>nChainWork := uint_add work proof\<rparr>) BLOCK_VALID_TREE) (\<lambda>(entry, _).
           let st = st(pindexNew \<mapsto> entry)
           in and_then (case pindexBestHeader db of
                          None \<Rightarrow> Inr True
                        | Some best \<Rightarrow> and_then (deref st best) (\<lambda>bb.
                            Inr (CompareTo (nChainWork bb) (nChainWork entry) < 0))) (\<lambda>better.
              Inr (db\<lparr>heap := st, next_ptr := Suc pindexNew, mapBlockIndex := blocks,
                      pindexBestHeader := (if better then Some pindexNew else pindexBestHeader db),
                      setDirtyBlockIndex := insert pindexNew (setDirtyBlockIndex db)\<rparr>, pindexNew)))))))"

section \<open>Invariant\<close>

text \<open>The accumulated work of an entry is the work of its predecessor plus its own, in 256-bit arithmetic.\<close>

definition work_wf :: "block_store \<Rightarrow> CBlockIndex \<Rightarrow> bool" where
  "work_wf st b \<longleftrightarrow> uint_wf (nChainWork b) \<and>
     (\<exists>w. GetBlockProof b = Inr w \<and> uval (nChainWork b) =
        ((case pprev b of None \<Rightarrow> 0 | Some q \<Rightarrow> uval (nChainWork (the (st q)))) + uval w) mod 2 ^ 256)"

definition db_wf :: "block_db \<Rightarrow> bool" where
  "db_wf db \<longleftrightarrow> tree_wf (heap db) \<and>
     (\<forall>p b. heap db p = Some b \<longrightarrow> p < next_ptr db \<and> mapBlockIndex db (phashBlock b) = Some p \<and> work_wf (heap db) b) \<and>
     (\<forall>h p. mapBlockIndex db h = Some p \<longrightarrow> (\<exists>b. heap db p = Some b \<and> phashBlock b = h)) \<and>
     (case pindexBestHeader db of
        None \<Rightarrow> heap db = Map.empty
      | Some best \<Rightarrow> \<exists>bb. heap db best = Some bb \<and>
          (\<forall>p b. heap db p = Some b \<longrightarrow> uval (nChainWork b) \<le> uval (nChainWork bb)))"

lemma empty_db_wf: "db_wf empty_db"
  by (simp add: db_wf_def empty_db_def tree_wf_def)

lemma tree_wf_genesis:
  assumes "tree_wf st" "st n = None" "pprev b = None" "nHeight b = 0" "pskip b = None"
  shows "tree_wf (st(n \<mapsto> b))"
  using assms entry_wf_upd [OF assms(1,2)] by (auto simp: tree_wf_def entry_wf_def [of _ n b])

lemma RaiseValidity_total: "\<exists>s f. RaiseValidity b BLOCK_VALID_TREE = Inr (b\<lparr>nStatus := s\<rparr>, f)"
proof -
  have "BLOCK_VALID_TREE AND NOT BLOCK_VALID_MASK = 0" by simp
  then show ?thesis by (auto simp: RaiseValidity_def intro: exI [of _ "nStatus b"])
qed

text \<open>Well-formedness of the tree looks at the links and the heights only.\<close>

lemma ancestor_cong:
  assumes "\<And>p. map_option pprev (st p) = map_option pprev (st' p)"
  shows "ancestor st k p = ancestor st' k p"
proof (induction k arbitrary: p)
  case (Suc k)
  then show ?case using assms [of p] by (auto split: option.splits)
qed simp

lemma tree_wf_cong:
  assumes "tree_wf (st(n \<mapsto> b))" "pprev b' = pprev b" "pskip b' = pskip b" "nHeight b' = nHeight b"
  shows "tree_wf (st(n \<mapsto> b'))"
proof -
  have anc: "ancestor (st(n \<mapsto> b')) k p = ancestor (st(n \<mapsto> b)) k p" for k p
    by (rule ancestor_cong) (simp add: assms(2))
  have "entry_wf (st(n \<mapsto> b')) p e'" if pe: "(st(n \<mapsto> b')) p = Some e'" for p e'
  proof -
    obtain e where e: "(st(n \<mapsto> b)) p = Some e" "pprev e' = pprev e" "pskip e' = pskip e" "nHeight e' = nHeight e"
      using pe assms(2-4) by (cases "p = n") auto
    then have "entry_wf (st(n \<mapsto> b)) p e" using assms(1) by (simp add: tree_wf_def)
    then show ?thesis
      unfolding entry_wf_def anc e(2-4) using assms(4) by (auto split: option.splits if_splits)
  qed
  then show ?thesis by (simp add: tree_wf_def)
qed

lemma linked_entry:
  assumes "tree_wf st" "st n = None" "st q = Some qb" "pprev e = Some q" "nHeight e = nHeight qb + 1" "pskip e = None"
  shows "\<exists>s. BuildSkip (st(n \<mapsto> e)) e = Inr (e\<lparr>pskip := s\<rparr>) \<and> tree_wf (st(n \<mapsto> e\<lparr>pskip := s\<rparr>))"
proof -
  define st' where "st' = st(n \<mapsto> e)"
  have "entry_wf st' n e"
    using assms tree_wf_height [OF assms(1,3)] by (auto simp: entry_wf_def st'_def)
  then have wf: "tree_wf st'"
    using entry_wf_upd [OF assms(1,2)] by (auto simp: tree_wf_def st'_def)
  have q: "st' q = Some qb" using assms(2,3) by (auto simp: st'_def)
  have h: "0 \<le> nHeight qb" using tree_wf_height [OF assms(1,3)] .
  let ?h = "GetSkipHeight (nHeight e)"
  have sh: "0 \<le> ?h" "?h \<le> nHeight qb" using GetSkipHeight_less [of "nHeight e"] h assms(5) by auto
  obtain s where s: "ancestor st (nat (nHeight qb - ?h)) q = Some s"
    using ancestor_exists [OF assms(1,3), of "nat (nHeight qb - ?h)"] sh by auto
  have same: "ancestor st' (nat (nHeight qb - ?h)) q = Some s"
    using ancestor_upd [OF assms(1-3), of "nat (nHeight qb - ?h)" e] s sh by (simp add: st'_def)
  have "BuildSkip st' e = Inr (e\<lparr>pskip := Some s\<rparr>)"
    using GetAncestor_ancestor [OF wf q, of ?h] same sh assms(4) by (simp add: BuildSkip_def)
  moreover have "BuildSkip st e = Inr (e\<lparr>pskip := Some s\<rparr>)"
    using GetAncestor_ancestor [OF assms(1,3), of ?h] s sh assms(4) by (simp add: BuildSkip_def)
  then have "tree_wf (st(n \<mapsto> e\<lparr>pskip := Some s\<rparr>))"
    using tree_wf_add assms by blast
  ultimately show ?thesis unfolding st'_def by blast
qed

lemma GetBlockProof_cong: "nBits b = nBits b' \<Longrightarrow> GetBlockProof b = GetBlockProof b'"
  by (simp add: GetBlockProof_def)

lemma work_wf_upd: "tree_wf st \<Longrightarrow> st n = None \<Longrightarrow> st p = Some b \<Longrightarrow> work_wf st b \<Longrightarrow> work_wf (st(n \<mapsto> x)) b"
  by (erule (1) tree_wf_parent) (auto simp: work_wf_def)

text \<open>Adding an entry whose links and work are right keeps the index well-formed.\<close>

lemma db_wf_insert:
  assumes db: "db_wf db" and n: "n = next_ptr db" and hash: "mapBlockIndex db (phashBlock e) = None"
    and tree: "tree_wf ((heap db)(n \<mapsto> e))" and work: "work_wf ((heap db)(n \<mapsto> e)) e"
    and better: "better \<longleftrightarrow> (case pindexBestHeader db of None \<Rightarrow> True
      | Some best \<Rightarrow> uval (nChainWork (the (heap db best))) < uval (nChainWork e))"
  shows "db_wf (db\<lparr>heap := (heap db)(n \<mapsto> e), next_ptr := Suc n, mapBlockIndex := (mapBlockIndex db)(phashBlock e \<mapsto> n),
    pindexBestHeader := (if better then Some n else pindexBestHeader db), setDirtyBlockIndex := D\<rparr>)"
proof -
  have fresh: "heap db n = None" using db n unfolding db_wf_def by (metis less_irrefl not_None_eq)
  have old: "p < n" "mapBlockIndex db (phashBlock b) = Some p" "work_wf (heap db) b" if "heap db p = Some b" for p b
    using db that n unfolding db_wf_def by blast+
  have map: "\<exists>b. heap db p = Some b \<and> phashBlock b = h" if "mapBlockIndex db h = Some p" for h p
    using db that unfolding db_wf_def by blast
  have tr: "tree_wf (heap db)" using db by (simp add: db_wf_def)
  let ?st = "(heap db)(n \<mapsto> e)"
  have entries: "p < Suc n \<and> ((mapBlockIndex db)(phashBlock e \<mapsto> n)) (phashBlock b) = Some p \<and> work_wf ?st b"
    if "?st p = Some b" for p b
  proof (cases "p = n")
    case False
    then have hb: "heap db p = Some b" using that by simp
    then have "phashBlock b \<noteq> phashBlock e" using old(2) hash by force
    with old [OF hb] work_wf_upd [OF tr fresh hb] show ?thesis by auto
  qed (use that work in auto)
  have blocks: "\<exists>b. ?st p = Some b \<and> phashBlock b = h" if "((mapBlockIndex db)(phashBlock e \<mapsto> n)) h = Some p" for h p
    using that map [of h p] fresh by (auto split: if_splits)
  have best: "case (if better then Some n else pindexBestHeader db) of None \<Rightarrow> ?st = Map.empty
      | Some best \<Rightarrow> \<exists>bb. ?st best = Some bb \<and> (\<forall>p b. ?st p = Some b \<longrightarrow> uval (nChainWork b) \<le> uval (nChainWork bb))"
  proof (cases "pindexBestHeader db")
    case None
    then have "heap db = Map.empty" using db by (simp add: db_wf_def)
    with None better show ?thesis by simp
  next
    case (Some best)
    then obtain bb where bb: "heap db best = Some bb" "\<And>p b. heap db p = Some b \<Longrightarrow> uval (nChainWork b) \<le> uval (nChainWork bb)"
      using db by (auto simp: db_wf_def)
    show ?thesis
    proof (cases better)
      case True
      with better Some bb have "uval (nChainWork bb) < uval (nChainWork e)" by simp
      with True bb(2) show ?thesis by (auto dest: bb(2))
    next
      case False
      with better Some bb have "uval (nChainWork e) \<le> uval (nChainWork bb)" by simp
      with False Some bb fresh show ?thesis by auto
    qed
  qed
  show ?thesis unfolding db_wf_def using tree entries blocks best by (simp cong: option.case_cong split del: if_split)
qed

lemma AddToBlockIndex_new:
  assumes db: "db_wf db" and new: "mapBlockIndex db (GetHash block) = None" and prev: "hdr_hashPrevBlock block \<noteq> GetHash block"
  shows "\<exists>db'. AddToBlockIndex GetHash db block = Inr (db', next_ptr db) \<and> db_wf db' \<and>
    mapBlockIndex db' = (mapBlockIndex db)(GetHash block \<mapsto> next_ptr db) \<and>
    (\<exists>e. heap db' = (heap db)(next_ptr db \<mapsto> e) \<and> phashBlock e = GetHash block \<and> nBits e = hdr_nBits block \<and>
       pprev e = mapBlockIndex db (hdr_hashPrevBlock block))"
proof -
  define n where "n = next_ptr db"
  define hash where "hash = GetHash block"
  define e0 where "e0 = (CBlockIndex_of block)\<lparr>nSequenceId := 0, phashBlock := hash\<rparr>"
  define st0 where "st0 = (heap db)(n \<mapsto> e0)"
  have e0: "pprev e0 = None" "pskip e0 = None" "nHeight e0 = 0" "nBits e0 = hdr_nBits block" "phashBlock e0 = hash"
    by (simp_all add: e0_def CBlockIndex_of_def CBlockIndex_SetNull_def)
  have tr: "tree_wf (heap db)" using db by (simp add: db_wf_def)
  have fresh: "heap db n = None" using db unfolding db_wf_def n_def by (metis less_irrefl not_None_eq)
  define q where "q = mapBlockIndex db (hdr_hashPrevBlock block)"
  have prevq: "((mapBlockIndex db)(hash \<mapsto> n)) (hdr_hashPrevBlock block) = q"
    using prev by (simp add: q_def hash_def)
  have qb: "\<exists>qb. heap db p = Some qb \<and> st0 p = Some qb \<and> p \<noteq> n" if qp: "q = Some p" for p
  proof -
    obtain qb where "heap db p = Some qb" using db qp unfolding db_wf_def q_def by blast
    with fresh show ?thesis by (auto simp: st0_def)
  qed
  obtain e where link: "(case q of None \<Rightarrow> Inr e0
        | Some p \<Rightarrow> and_then (deref st0 p) (\<lambda>qb. let e = e0\<lparr>pprev := Some p, nHeight := nHeight qb + 1\<rparr>
            in BuildSkip (st0(n \<mapsto> e)) e)) = Inr e"
    and e: "tree_wf ((heap db)(n \<mapsto> e))" "pprev e = q" "nBits e = hdr_nBits block" "phashBlock e = hash"
  proof (cases q)
    case None
    have "tree_wf ((heap db)(n \<mapsto> e0))" using tree_wf_genesis [OF tr fresh] e0 by simp
    with None e0 show thesis by (intro that [of e0]) auto
  next
    case (Some p)
    obtain qb where p: "heap db p = Some qb" "st0 p = Some qb" using qb [OF Some] by blast
    define e1 where "e1 = e0\<lparr>pprev := Some p, nHeight := nHeight qb + 1\<rparr>"
    obtain s where "BuildSkip ((heap db)(n \<mapsto> e1)) e1 = Inr (e1\<lparr>pskip := s\<rparr>)" "tree_wf ((heap db)(n \<mapsto> e1\<lparr>pskip := s\<rparr>))"
      using linked_entry [OF tr fresh p(1), of e1] e0 by (auto simp: e1_def)
    with Some p e0 show thesis
      by (intro that [of "e1\<lparr>pskip := s\<rparr>"]) (simp_all add: e1_def st0_def)
  qed
  obtain w where w: "GetBlockProof e = Inr w" "uint_wf w" using GetBlockProof_val [of e] by blast
  define work where "work = (case q of None \<Rightarrow> uint_of_u64 0 | Some p \<Rightarrow> nChainWork (the (heap db p)))"
  have work: "(case pprev e of None \<Rightarrow> Inr (uint_of_u64 0)
      | Some p \<Rightarrow> and_then (deref (st0(n \<mapsto> e)) p) (\<lambda>qb. Inr (nChainWork qb))) = Inr work"
    using e(2) qb by (auto simp: work_def st0_def split: option.split)
  have workwf: "uint_wf work"
    using qb db unfolding work_def db_wf_def work_wf_def by (auto split: option.split)
  obtain s f where raise: "RaiseValidity (e\<lparr>nChainWork := uint_add work w\<rparr>) BLOCK_VALID_TREE =
      Inr (e\<lparr>nChainWork := uint_add work w, nStatus := s\<rparr>, f)"
    using RaiseValidity_total [of "e\<lparr>nChainWork := uint_add work w\<rparr>"] by auto
  define e' where "e' = e\<lparr>nChainWork := uint_add work w, nStatus := s\<rparr>"
  have tree': "tree_wf ((heap db)(n \<mapsto> e'))"
    by (rule tree_wf_cong [OF e(1)]) (simp_all add: e'_def)
  have work': "work_wf ((heap db)(n \<mapsto> e')) e'"
  proof -
    have "GetBlockProof e' = Inr w" using w(1) GetBlockProof_cong [of e' e] by (simp add: e'_def)
    moreover have "(case pprev e' of None \<Rightarrow> 0 | Some p \<Rightarrow> uval (nChainWork (the (((heap db)(n \<mapsto> e')) p)))) = uval work"
      using e(2) qb by (auto simp: e'_def work_def uval_of_u64 split: option.split)
    moreover have "nChainWork e' = uint_add work w" by (simp add: e'_def)
    ultimately show ?thesis using workwf w(2) by (simp add: work_wf_def uval_add)
  qed
  define better where "better \<longleftrightarrow> (case pindexBestHeader db of None \<Rightarrow> True
      | Some best \<Rightarrow> uval (nChainWork (the (heap db best))) < uval (nChainWork e'))"
  have best: "(case pindexBestHeader db of None \<Rightarrow> Inr True
      | Some best \<Rightarrow> and_then (deref ((heap db)(n \<mapsto> e')) best) (\<lambda>bb. Inr (CompareTo (nChainWork bb) (nChainWork e') < 0)))
      = (Inr better :: failure + bool)"
  proof (cases "pindexBestHeader db")
    case (Some bp)
    then obtain bb where bb: "heap db bp = Some bb" using db by (auto simp: db_wf_def)
    then have ne: "bp \<noteq> n" using fresh by auto
    from bb have "uint_wf (nChainWork bb)" "uint_wf (nChainWork e')"
      using db work' unfolding db_wf_def work_wf_def by blast+
    with Some bb ne show ?thesis by (simp add: better_def CompareTo_val)
  qed (simp add: better_def)
  define db' where "db' = db\<lparr>heap := (heap db)(n \<mapsto> e'), next_ptr := Suc n, mapBlockIndex := (mapBlockIndex db)(hash \<mapsto> n),
    pindexBestHeader := (if better then Some n else pindexBestHeader db),
    setDirtyBlockIndex := insert n (setDirtyBlockIndex db)\<rparr>"
  have h': "phashBlock e' = hash" using e(4) by (simp add: e'_def)
  have "db_wf db'"
    using db_wf_insert [OF db n_def _ tree' work' better_def, of "insert n (setDirtyBlockIndex db)"] new h'
    by (simp add: db'_def hash_def)
  moreover have st: "st0(n \<mapsto> x) = (heap db)(n \<mapsto> x)" for x by (simp add: st0_def)
  have "AddToBlockIndex GetHash db block = Inr (db', n)"
    unfolding AddToBlockIndex_def Let_def hash_def [symmetric] n_def [symmetric] e0_def [symmetric] st0_def [symmetric] prevq
    by (simp only: new [folded hash_def] link [unfolded Let_def st] option.case and_then_simps work [unfolded st] w(1) raise
        e'_def [symmetric] prod.case st best db'_def)
  ultimately show ?thesis
    using h' e(2,3) unfolding n_def [symmetric] hash_def [symmetric] q_def [symmetric]
    by (intro exI [of _ db'] conjI exI [of _ e']) (simp_all add: db'_def e'_def)
qed

inductive indexed :: "(CBlockHeader \<Rightarrow> bytes) \<Rightarrow> block_db \<Rightarrow> bool" for GetHash where
  start: "indexed GetHash empty_db"
| add: "indexed GetHash db \<Longrightarrow> hdr_hashPrevBlock block \<noteq> GetHash block \<Longrightarrow>
    AddToBlockIndex GetHash db block = Inr (db', p) \<Longrightarrow> indexed GetHash db'"

lemma AddToBlockIndex_wf:
  assumes "db_wf db" "hdr_hashPrevBlock block \<noteq> GetHash block"
  shows "\<exists>db' p. AddToBlockIndex GetHash db block = Inr (db', p) \<and> db_wf db' \<and> mapBlockIndex db' (GetHash block) = Some p"
proof (cases "mapBlockIndex db (GetHash block)")
  case None
  with AddToBlockIndex_new [of db GetHash block] assms show ?thesis by auto
next
  case (Some p)
  with assms(1) show ?thesis by (simp add: AddToBlockIndex_def)
qed

text \<open>C3: However headers are registered, in whatever order and with whatever forks, the block index stays well-formed:
  every entry is filed under its hash, links to its predecessor one height below with a correct skip pointer, carries the
  work of its whole branch, and the best header is one with the most work. Registration never fails.\<close>

theorem block_index_invariant:
  assumes "indexed GetHash db"
  shows "db_wf db \<and> (\<forall>block. hdr_hashPrevBlock block \<noteq> GetHash block \<longrightarrow>
    (\<exists>db' p. AddToBlockIndex GetHash db block = Inr (db', p) \<and> mapBlockIndex db' (GetHash block) = Some p))"
proof -
  from assms have "db_wf db"
  proof (induction rule: indexed.induct)
    case start
    show ?case by (rule empty_db_wf)
  next
    case (add db block db' p)
    with AddToBlockIndex_wf [of db block GetHash] show ?case by auto
  qed
  with AddToBlockIndex_wf [of db _ GetHash] show ?thesis by blast
qed

theorem block_index_invariant_witness:
  "\<exists>db p. AddToBlockIndex (\<lambda>b. hdr_nNonce b) empty_db \<lparr>hdr_nVersion = 4, hdr_hashPrevBlock = [], hdr_hashMerkleRoot = [],
     hdr_hashFinalSaplingRoot = [], hdr_nTime = 1, hdr_nBits = 0x1f07ffff, hdr_nNonce = [7]\<rparr> = Inr (db, p) \<and>
     mapBlockIndex db [7] = Some p"
proof -
  define block where "block = \<lparr>hdr_nVersion = 4, hdr_hashPrevBlock = [], hdr_hashMerkleRoot = [],
     hdr_hashFinalSaplingRoot = [], hdr_nTime = 1, hdr_nBits = 0x1f07ffff, hdr_nNonce = [7]\<rparr>"
  have n: "hdr_nNonce block = [7]" "hdr_hashPrevBlock block = []" by (simp_all add: block_def)
  have "\<exists>db' p. AddToBlockIndex (\<lambda>b. hdr_nNonce b) empty_db block = Inr (db', p) \<and> mapBlockIndex db' (hdr_nNonce block) = Some p"
    using conjunct2 [OF block_index_invariant [OF indexed.start [of "\<lambda>b. hdr_nNonce b"]]] n by (metis list.distinct(1))
  then show ?thesis by (simp add: n block_def [symmetric])
qed

end
