(* ===== verification/Endian.thy ===== *)
theory Endian
  imports ArithUint256
begin

unbundle bit_operations_syntax

text \<open>
  The byte-order helpers of \<^verbatim>\<open>crypto/common.h\<close>: reading and writing 16, 32 and 64 bit integers in little and
  big endian byte order (the 32 bit little endian pair is in \<open>ArithUint256\<close>). A pointer into a buffer is the
  list of the bytes from there on. Reading back what was written, and writing back what was read, are identities.
\<close>

definition ReadLE16 :: "bytes \<Rightarrow> u16" where
  "ReadLE16 ptr = ucast (ptr ! 0) OR push_bit 8 (ucast (ptr ! 1))"

definition ReadLE64 :: "bytes \<Rightarrow> u64" where
  "ReadLE64 ptr = ucast (ReadLE32 ptr) OR push_bit 32 (ucast (ReadLE32 (drop 4 ptr)))"

definition WriteLE16 :: "u16 \<Rightarrow> bytes" where
  "WriteLE16 x = [ucast x, ucast (drop_bit 8 x)]"

definition WriteLE64 :: "u64 \<Rightarrow> bytes" where
  "WriteLE64 x = WriteLE32 (ucast x) @ WriteLE32 (ucast (drop_bit 32 x))"

definition ReadBE32 :: "bytes \<Rightarrow> u32" where
  "ReadBE32 ptr = ReadLE32 (rev (take 4 ptr))"

definition ReadBE64 :: "bytes \<Rightarrow> u64" where
  "ReadBE64 ptr = ReadLE64 (rev (take 8 ptr))"

definition WriteBE32 :: "u32 \<Rightarrow> bytes" where
  "WriteBE32 x = rev (WriteLE32 x)"

definition WriteBE64 :: "u64 \<Rightarrow> bytes" where
  "WriteBE64 x = rev (WriteLE64 x)"

section \<open>Lengths and round trips\<close>

lemma length_Write [simp]:
  "length (WriteLE16 x) = 2" "length (WriteLE64 y) = 8" "length (WriteBE32 z) = 4" "length (WriteBE64 y) = 8"
  by (simp_all add: WriteLE16_def WriteLE64_def WriteBE32_def WriteBE64_def)

lemma ReadLE16_WriteLE16 [simp]: "ReadLE16 (WriteLE16 x @ bs) = x"
proof (rule bit_word_eqI)
  fix n :: nat
  assume n: "n < LENGTH(16)"
  consider "n < 8" | "8 \<le> n" by linarith
  then show "bit (ReadLE16 (WriteLE16 x @ bs)) n \<longleftrightarrow> bit x n"
    using n by cases (auto simp: ReadLE16_def WriteLE16_def bit_or_iff bit_push_bit_iff bit_ucast_iff bit_drop_bit_eq)
qed

lemma WriteLE16_ReadLE16: "WriteLE16 (ReadLE16 (b0 # b1 # bs)) = [b0, b1]"
proof -
  let ?r = "ReadLE16 (b0 # b1 # bs)"
  have r: "bit ?r n \<longleftrightarrow> n < 16 \<and> (if n < 8 then bit b0 n else bit b1 (n - 8))" for n
  proof -
    consider "n < 8" | "8 \<le> n" by linarith
    then show ?thesis
      by cases (auto simp: ReadLE16_def bit_or_iff bit_push_bit_iff bit_ucast_iff bit_u8_ge)
  qed
  have "ucast ?r = b0" "ucast (drop_bit 8 ?r) = b1"
    by (rule bit_word_eqI; simp add: bit_ucast_iff bit_drop_bit_eq r)+
  then show ?thesis by (simp add: WriteLE16_def)
qed

lemma bit_u32_ge: "32 \<le> n \<Longrightarrow> \<not> bit (b :: u32) n"
  by (rule bit_word_ge) simp

lemma u64_halves: "ucast (ucast x :: u32) OR push_bit 32 (ucast (ucast (drop_bit 32 x) :: u32)) = (x :: u64)"
proof (rule bit_word_eqI)
  fix n :: nat
  assume n: "n < LENGTH(64)"
  consider "n < 32" | "32 \<le> n" by linarith
  then show "bit (ucast (ucast x :: u32) OR push_bit 32 (ucast (ucast (drop_bit 32 x) :: u32)) :: u64) n \<longleftrightarrow> bit x n"
    using n by cases (auto simp: bit_or_iff bit_push_bit_iff bit_ucast_iff bit_drop_bit_eq)
qed

lemma u64_low: "ucast (ucast a OR push_bit 32 (ucast b) :: u64) = (a :: u32)" for b :: u32
  by (rule bit_word_eqI) (auto simp: bit_or_iff bit_push_bit_iff bit_ucast_iff)

lemma u64_high: "ucast (drop_bit 32 (ucast a OR push_bit 32 (ucast b) :: u64)) = (b :: u32)" for a :: u32
  by (rule bit_word_eqI) (auto simp: bit_or_iff bit_push_bit_iff bit_ucast_iff bit_drop_bit_eq bit_u32_ge)

lemma ReadLE64_WriteLE64 [simp]: "ReadLE64 (WriteLE64 x @ bs) = x"
  by (simp add: ReadLE64_def WriteLE64_def drop_append u64_halves)

lemma WriteLE64_ReadLE64:
  assumes "8 \<le> length bs"
  shows "WriteLE64 (ReadLE64 bs) = take 8 bs"
proof -
  have "WriteLE64 (ReadLE64 bs) = take 4 bs @ take 4 (drop 4 bs)"
    unfolding ReadLE64_def WriteLE64_def u64_low u64_high using assms by (simp add: WriteLE32_ReadLE32_drop)
  then show ?thesis by (simp flip: take_add)
qed

lemma ReadBE32_WriteBE32 [simp]: "ReadBE32 (WriteBE32 x @ bs) = x"
  using ReadLE32_WriteLE32 [of x "[]"] by (simp add: ReadBE32_def WriteBE32_def)

lemma ReadBE64_WriteBE64 [simp]: "ReadBE64 (WriteBE64 x @ bs) = x"
  using ReadLE64_WriteLE64 [of x "[]"] by (simp add: ReadBE64_def WriteBE64_def)

lemma WriteBE32_ReadBE32: "4 \<le> length bs \<Longrightarrow> WriteBE32 (ReadBE32 bs) = take 4 bs"
  by (simp add: ReadBE32_def WriteBE32_def WriteLE32_ReadLE32_drop)

lemma WriteBE64_ReadBE64: "8 \<le> length bs \<Longrightarrow> WriteBE64 (ReadBE64 bs) = take 8 bs"
  by (simp add: ReadBE64_def WriteBE64_def WriteLE64_ReadLE64)

end
