(* ===== verification/Hasher.thy ===== *)
theory Hasher
  imports Endian
begin

unbundle bit_operations_syntax

text \<open>
  The buffered hashers of \<^verbatim>\<open>crypto/sha1.cpp\<close>, \<^verbatim>\<open>sha256.cpp\<close>, \<^verbatim>\<open>sha512.cpp\<close> and \<^verbatim>\<open>ripemd160.cpp\<close>. The four classes have
  the same members and the same \<open>Write\<close>, up to the size of a block and the transformation of a block;
  \<open>md_Write\<close> is that code, with both as arguments.

  The locale \<open>stream_hash\<close> is the contract of a hasher that its clients (double hashes, HMAC, serialisation)
  rely on: what comes out depends only on the concatenation of what was written. The locale \<open>block_hash\<close> holds
  the proof that the buffering keeps that contract, for every block size and transformation.
\<close>

section \<open>The code\<close>

record 'w hasher =
  h_s :: "'w list"
  h_buf :: bytes
  h_bytes :: u64

definition memcpy :: "bytes \<Rightarrow> nat \<Rightarrow> bytes \<Rightarrow> bytes" where
  "memcpy dst off src = take off dst @ src @ drop (off + length src) dst"

function chunk_loop :: "nat \<Rightarrow> ('w list \<Rightarrow> bytes \<Rightarrow> 'w list) \<Rightarrow> 'w hasher \<Rightarrow> bytes \<Rightarrow> 'w hasher \<times> bytes" where
  "chunk_loop block transform h data = (if 0 < block \<and> block \<le> length data
     then chunk_loop block transform
            (h\<lparr>h_s := transform (h_s h) (take block data), h_bytes := h_bytes h + of_nat block\<rparr>) (drop block data)
     else (h, data))"
  by pat_completeness auto
termination
  by (relation "measure (\<lambda>(block, transform, h, data). length data)") auto

declare chunk_loop.simps [simp del]

definition md_Write :: "nat \<Rightarrow> ('w list \<Rightarrow> bytes \<Rightarrow> 'w list) \<Rightarrow> 'w hasher \<Rightarrow> bytes \<Rightarrow> 'w hasher" where
  "md_Write block transform h data = (let
     bufsize = unat (h_bytes h) mod block;
     (h, data, bufsize) =
       (if bufsize \<noteq> 0 \<and> block \<le> bufsize + length data then
          let n = block - bufsize; buf = memcpy (h_buf h) bufsize (take n data)
          in (h\<lparr>h_buf := buf, h_bytes := h_bytes h + of_nat n, h_s := transform (h_s h) buf\<rparr>, drop n data, 0)
        else (h, data, bufsize));
     (h, data) = chunk_loop block transform h data
     in if data \<noteq> []
        then h\<lparr>h_buf := memcpy (h_buf h) bufsize data, h_bytes := h_bytes h + of_nat (length data)\<rparr>
        else h)"

section \<open>The contract of a hasher\<close>

locale stream_hash =
  fixes init :: 'h
    and put :: "'h \<Rightarrow> bytes \<Rightarrow> 'h"
    and finalize :: "'h \<Rightarrow> bytes"
    and digest :: "bytes \<Rightarrow> bytes"
    and size :: nat
  assumes finalize_writes: "finalize (foldl put init ms) = digest (concat ms)"
    and length_digest: "length (digest m) = size"
begin

lemma finalize_write: "finalize (put init m) = digest m"
  using finalize_writes [of "[m]"] by simp

lemma finalize_write2: "finalize (put (put init a) b) = digest (a @ b)"
  using finalize_writes [of "[a, b]"] by simp

lemma regrouping: "concat ms = concat ms' \<Longrightarrow> finalize (foldl put init ms) = finalize (foldl put init ms')"
  by (simp add: finalize_writes)

end

section \<open>Iterated block transformation\<close>

text \<open>\<open>process\<close> applies the transformation to the whole blocks of a message in order.\<close>

function process :: "nat \<Rightarrow> ('w list \<Rightarrow> bytes \<Rightarrow> 'w list) \<Rightarrow> 'w list \<Rightarrow> bytes \<Rightarrow> 'w list" where
  "process block transform s m = (if 0 < block \<and> block \<le> length m
     then process block transform (transform s (take block m)) (drop block m) else s)"
  by pat_completeness auto
termination
  by (relation "measure (\<lambda>(block, transform, s, m). length m)") auto

declare process.simps [simp del]

lemma process_short [simp]: "length m < block \<Longrightarrow> process block transform s m = s"
  by (subst process.simps) simp

lemma process_block:
  "0 < block \<Longrightarrow> length b = block \<Longrightarrow> process block transform s (b @ m) = process block transform (transform s b) m"
  by (subst process.simps) simp

lemma process_append:
  assumes "block dvd length a" "0 < block"
  shows "process block transform s (a @ b) = process block transform (process block transform s a) b"
  using assms
proof (induction "length a" arbitrary: a s rule: less_induct)
  case less
  show ?case
  proof (cases "a = []")
    case False
    then have len: "block \<le> length a" using less.prems by (auto dest: dvd_imp_le)
    have "process block transform s (take block a @ drop block a @ b)
        = process block transform (transform s (take block a)) (drop block a @ b)"
      using len less.prems by (intro process_block) auto
    also have "\<dots> = process block transform (process block transform (transform s (take block a)) (drop block a)) b"
      using less.hyps [of "drop block a" "transform s (take block a)"] len less.prems by (auto simp: dvd_diff_nat)
    also have "process block transform (transform s (take block a)) (drop block a)
        = process block transform s (take block a @ drop block a)"
      using len less.prems by (intro process_block [symmetric]) auto
    finally show ?thesis by (metis append.assoc append_take_drop_id)
  qed (use less.prems in simp)
qed

text \<open>\<open>whole block m\<close> is the number of bytes of \<open>m\<close> in whole blocks; the rest of \<open>m\<close> waits in the buffer.\<close>

definition whole :: "nat \<Rightarrow> bytes \<Rightarrow> nat" where
  "whole block m = length m div block * block"

definition absorbed :: "nat \<Rightarrow> ('w list \<Rightarrow> bytes \<Rightarrow> 'w list) \<Rightarrow> 'w list \<Rightarrow> bytes \<Rightarrow> 'w hasher \<Rightarrow> bool" where
  "absorbed block transform iv m h \<longleftrightarrow> h_bytes h = of_nat (length m) \<and> length (h_buf h) = block \<and>
     take (length m mod block) (h_buf h) = drop (whole block m) m \<and> h_s h = process block transform iv m"

lemma whole_le: "whole block m \<le> length m"
  by (simp add: whole_def)

lemma length_rest: "length (drop (whole block m) m) = length m mod block"
  by (simp add: whole_def minus_div_mult_eq_mod)

lemma dvd_whole: "block dvd length (take (whole block m) m)"
  using whole_le [of block m] by (simp add: min_absorb2) (simp add: whole_def)

lemma process_whole: "0 < block \<Longrightarrow> process block transform s (take (whole block m) m) = process block transform s m"
proof -
  assume b: "0 < block"
  have "process block transform s (take (whole block m) m @ drop (whole block m) m)
      = process block transform (process block transform s (take (whole block m) m)) (drop (whole block m) m)"
    by (rule process_append [OF dvd_whole b])
  moreover have "length (drop (whole block m) m) < block" using b unfolding length_rest by simp
  ultimately show ?thesis by simp
qed

locale block_hash =
  fixes block :: nat
    and transform :: "'w list \<Rightarrow> bytes \<Rightarrow> 'w list"
  assumes block_dvd: "block dvd 2 ^ 64"
begin

lemma block_pos: "0 < block"
  using block_dvd by (auto intro!: gr0I)

lemma buffered: "unat (of_nat (length m) :: u64) mod block = length m mod block"
  using block_dvd by (simp add: unat_of_nat mod_mod_cancel)

lemma chunk_loop_absorbs:
  assumes "h_bytes h = of_nat (length m)" "length (h_buf h) = block" "block dvd length m"
    "h_s h = process block transform iv m"
  obtains h' rest where "chunk_loop block transform h data = (h', rest)" "length rest < block"
    "rest = drop (whole block (m @ data)) (m @ data)"
    "h_bytes h' + of_nat (length rest) = of_nat (length m + length data)" "h_buf h' = h_buf h"
    "h_s h' = process block transform iv (m @ data)"
  using assms
proof (induction "length data" arbitrary: data h m thesis rule: less_induct)
  case less
  show ?case
  proof (cases "block \<le> length data")
    case True
    define b where "b = take block data"
    define d where "d = drop block data"
    have data: "data = b @ d" "length b = block" using True by (auto simp: b_def d_def)
    let ?h = "h\<lparr>h_s := transform (h_s h) b, h_bytes := h_bytes h + of_nat block\<rparr>"
    have "transform (h_s h) b = process block transform iv (m @ b)"
      using less.prems data block_pos process_block [of block b transform _ "[]"]
      by (simp add: process_append)
    moreover have "length d < length data" using data block_pos by simp
    ultimately obtain h' rest where *: "chunk_loop block transform ?h d = (h', rest)" "length rest < block"
      "rest = drop (whole block ((m @ b) @ d)) ((m @ b) @ d)"
      "h_bytes h' + of_nat (length rest) = of_nat (length (m @ b) + length d)" "h_buf h' = h_buf ?h"
      "h_s h' = process block transform iv ((m @ b) @ d)"
      using less.hyps [of d ?h "m @ b"] less.prems data by (auto simp: dvd_add)
    have "chunk_loop block transform h data = (h', rest)"
      using * True block_pos by (subst chunk_loop.simps) (simp add: b_def d_def)
    with * less.prems(1) [of h' rest] data show ?thesis by (simp add: add.assoc)
  next
    case False
    obtain k where "length m = block * k" by (rule dvdE [OF less.prems(4)])
    then have w: "whole block (m @ data) = length m"
      using False by (simp add: whole_def)
    have "process block transform iv (m @ data) = h_s h"
      using less.prems False block_pos by (simp add: process_append)
    with False w less.prems(1) [of h data] less.prems show ?thesis
      by (simp add: chunk_loop.simps [of _ _ _ data])
  qed
qed

lemma memcpy_rest:
  assumes "length buf = block" "off + length src \<le> block"
  shows "length (memcpy buf off src) = block" "take (off + length src) (memcpy buf off src) = take off buf @ src"
  using assms by (auto simp: memcpy_def)

text \<open>The tail of \<open>Write\<close>: what is left of the data after the last whole block goes to the start of the buffer.\<close>

lemma finish_absorbs:
  assumes "length rest < block" "rest = drop (whole block m) m" "h_bytes h + of_nat (length rest) = of_nat (length m)"
    "length (h_buf h) = block" "h_s h = process block transform iv m"
  shows "absorbed block transform iv m (if rest \<noteq> []
    then h\<lparr>h_buf := memcpy (h_buf h) 0 rest, h_bytes := h_bytes h + of_nat (length rest)\<rparr> else h)"
proof -
  have len: "length rest = length m mod block" using assms(2) length_rest [of block m] by metis
  have mc: "length (memcpy (h_buf h) 0 rest) = block" "take (length rest) (memcpy (h_buf h) 0 rest) = rest"
    using assms memcpy_rest [of "h_buf h" 0 rest] by auto
  show ?thesis
  proof (cases "rest = []")
    case True
    with assms len show ?thesis unfolding absorbed_def by simp
  next
    case False
    with assms len mc show ?thesis unfolding absorbed_def by simp
  qed
qed

lemma write_aligned:
  assumes "h_bytes h = of_nat (length m)" "length (h_buf h) = block" "block dvd length m"
    "h_s h = process block transform iv m" "chunk_loop block transform h data = (h', rest)"
  shows "absorbed block transform iv (m @ data) (if rest \<noteq> []
    then h'\<lparr>h_buf := memcpy (h_buf h') 0 rest, h_bytes := h_bytes h' + of_nat (length rest)\<rparr> else h')"
proof -
  obtain h1 r1 where *: "chunk_loop block transform h data = (h1, r1)" "length r1 < block"
    "r1 = drop (whole block (m @ data)) (m @ data)" "h_bytes h1 + of_nat (length r1) = of_nat (length m + length data)"
    "h_buf h1 = h_buf h" "h_s h1 = process block transform iv (m @ data)"
    using chunk_loop_absorbs [OF assms(1-4)] .
  then have "h1 = h'" "r1 = rest" using assms(5) by auto
  with * assms(2) show ?thesis by (intro finish_absorbs) auto
qed

lemma md_Write_fill:
  assumes "absorbed block transform iv m h" "length m mod block \<noteq> 0" "block \<le> length m mod block + length data"
  shows "absorbed block transform iv (m @ data) (md_Write block transform h data)"
proof -
  define bufsize where "bufsize = length m mod block"
  define n where "n = block - bufsize"
  define buf where "buf = memcpy (h_buf h) bufsize (take n data)"
  define h1 where "h1 = h\<lparr>h_buf := buf, h_bytes := h_bytes h + of_nat n, h_s := transform (h_s h) buf\<rparr>"
  let ?m = "m @ take n data"
  have h: "h_bytes h = of_nat (length m)" "length (h_buf h) = block"
    "take bufsize (h_buf h) = drop (whole block m) m" "h_s h = process block transform iv m"
    using assms(1) by (auto simp: absorbed_def bufsize_def)
  have bs: "bufsize < block" "bufsize \<noteq> 0" using block_pos assms(2) by (simp_all add: bufsize_def)
  have n: "n \<le> length data" "bufsize + n = block" using assms(3) bs by (auto simp: n_def bufsize_def)
  then have buf: "length buf = block" "buf = drop (whole block m) m @ take n data"
    using memcpy_rest [of "h_buf h" bufsize "take n data"] h by (auto simp: buf_def)
  have split: "?m = take (whole block m) m @ buf" using buf by simp
  have dvd: "block dvd length ?m"
    unfolding split length_append buf(1) by (intro dvd_add dvd_whole dvd_refl)
  have s: "h_s h1 = process block transform iv ?m"
    unfolding split using buf(1) h block_pos process_block [of block buf transform _ "[]"]
    by (simp add: process_append [OF dvd_whole] process_whole h1_def)
  obtain h' rest where cl: "chunk_loop block transform h1 (drop n data) = (h', rest)" by fastforce
  have "md_Write block transform h data =
      (if rest \<noteq> [] then h'\<lparr>h_buf := memcpy (h_buf h') 0 rest, h_bytes := h_bytes h' + of_nat (length rest)\<rparr> else h')"
    using assms(3) bs h cl by (simp add: md_Write_def buffered Let_def n_def buf_def h1_def flip: bufsize_def)
  moreover have "h_bytes h1 = of_nat (length ?m)" "length (h_buf h1) = block" using h n buf by (simp_all add: h1_def)
  ultimately show ?thesis using write_aligned [OF _ _ dvd s cl] by simp
qed

lemma md_Write_small:
  assumes "absorbed block transform iv m h" "length m mod block + length data < block" "data \<noteq> []"
  shows "absorbed block transform iv (m @ data)
    (h\<lparr>h_buf := memcpy (h_buf h) (length m mod block) data, h_bytes := h_bytes h + of_nat (length data)\<rparr>)"
proof -
  define r where "r = length m mod block + length data"
  have h: "h_bytes h = of_nat (length m)" "length (h_buf h) = block"
    "take (length m mod block) (h_buf h) = drop (whole block m) m" "h_s h = process block transform iv m"
    using assms(1) by (auto simp: absorbed_def)
  have len: "length m + length data = block * (length m div block) + r" by (simp add: r_def)
  have r: "r < block" using assms(2) by (simp add: r_def)
  have md: "(length m + length data) mod block = r" unfolding len using r by simp
  have w: "whole block (m @ data) = whole block m"
    unfolding whole_def length_append len using r by simp
  have "process block transform iv (m @ data) = process block transform iv (take (whole block (m @ data)) (m @ data))"
    by (rule process_whole [OF block_pos, symmetric])
  also have "\<dots> = process block transform iv (take (whole block m) m)" using whole_le [of block m] by (simp add: w)
  also have "\<dots> = h_s h" using h by (simp add: process_whole [OF block_pos])
  finally have p: "process block transform iv (m @ data) = h_s h" .
  have "length (memcpy (h_buf h) (length m mod block) data) = block"
    "take r (memcpy (h_buf h) (length m mod block) data) = drop (whole block m) m @ data"
    using memcpy_rest [of "h_buf h" "length m mod block" data] h assms(2) by (simp_all add: r_def)
  then show ?thesis using h p w md whole_le [of block m] unfolding absorbed_def by simp
qed

lemma md_Write_absorbs:
  assumes "absorbed block transform iv m h"
  shows "absorbed block transform iv (m @ data) (md_Write block transform h data)"
proof -
  have h: "h_bytes h = of_nat (length m)" "length (h_buf h) = block" "h_s h = process block transform iv m"
    using assms by (auto simp: absorbed_def)
  obtain h' rest where cl: "chunk_loop block transform h data = (h', rest)" by fastforce
  consider (fill) "length m mod block \<noteq> 0" "block \<le> length m mod block + length data" | (aligned) "block dvd length m"
    | (small) "length m mod block \<noteq> 0" "length m mod block + length data < block"
    by (auto simp: mod_eq_0_iff_dvd) linarith
  then show ?thesis
  proof cases
    case fill
    with assms show ?thesis by (rule md_Write_fill)
  next
    case aligned
    moreover have "md_Write block transform h data =
        (if rest \<noteq> [] then h'\<lparr>h_buf := memcpy (h_buf h') 0 rest, h_bytes := h_bytes h' + of_nat (length rest)\<rparr> else h')"
      using aligned h cl by (simp add: md_Write_def buffered)
    ultimately show ?thesis using write_aligned [OF h(1,2) _ h(3) cl] by simp
  next
    case small
    have "chunk_loop block transform h data = (h, data)" using small by (subst chunk_loop.simps) simp
    then show ?thesis
      using small h assms md_Write_small [OF assms small(2)]
      by (cases "data = []") (simp_all add: md_Write_def buffered)
  qed
qed

lemma writes_absorb:
  assumes "absorbed block transform iv m h"
  shows "absorbed block transform iv (m @ concat ms) (foldl (md_Write block transform) h ms)"
  using assms
proof (induction ms arbitrary: m h)
  case (Cons d ms)
  then show ?case using Cons.IH [OF md_Write_absorbs [OF Cons.prems, of d]] by simp
qed simp

end

section \<open>Registers that change roles\<close>

text \<open>
  The unrolled rounds of the sources permute the names of \<open>n\<close> registers cyclically instead of moving their contents:
  the first call passes the registers in order, and each next call starts one register earlier. \<open>reg n i j\<close> is the
  register in position \<open>j\<close> of round \<open>i\<close>, and \<open>role_view n i\<close> lists the registers in the order of round \<open>i\<close>.
\<close>

definition reg :: "nat \<Rightarrow> nat \<Rightarrow> nat \<Rightarrow> nat" where
  "reg n i j = (j + (n - 1) * i) mod n"

definition role_view :: "nat \<Rightarrow> nat \<Rightarrow> 'a list \<Rightarrow> 'a list" where
  "role_view n i r = map (\<lambda>j. r ! reg n i j) [0 ..< n]"

lemma reg_less [simp]: "0 < n \<Longrightarrow> reg n i j < n"
  by (simp add: reg_def)

lemma reg_cancel: "0 < n \<Longrightarrow> (reg n i j + i) mod n = j mod n"
proof -
  assume n: "0 < n"
  then have "(j + (n - 1) * i) + i = j + n * i" by (cases n) simp_all
  then show ?thesis unfolding reg_def by (metis mod_add_left_eq mod_mult_self2)
qed

lemma reg_inj: "j < n \<Longrightarrow> k < n \<Longrightarrow> reg n i j = reg n i k \<longleftrightarrow> j = k"
  using reg_cancel [of n i j] reg_cancel [of n i k] by (metis gr_implies_not0 mod_less neq0_conv)

lemma reg_Suc:
  "0 < n \<Longrightarrow> reg n (Suc i) 0 = reg n i (n - 1)"
  "0 < n \<Longrightarrow> reg n (Suc i) (Suc j) = reg n i j"
proof -
  assume "0 < n"
  then have "Suc j + (n - 1) * Suc i = (j + (n - 1) * i) + n" by simp
  then show "reg n (Suc i) (Suc j) = reg n i j" unfolding reg_def by (metis mod_add_self2)
qed (simp add: reg_def add.commute)

lemma reg_period: "n dvd i \<Longrightarrow> j < n \<Longrightarrow> reg n i j = j"
  unfolding reg_def by (elim dvdE, hypsubst, subst mult.left_commute) simp

lemma role_view_period: "length r = n \<Longrightarrow> n dvd i \<Longrightarrow> role_view n i r = r"
  by (rule nth_equalityI) (simp_all add: role_view_def reg_period)

lemma upt_5: "[0 ..< 5] = [0, 1, 2, 3, 4 :: nat]"
  by (simp add: upt_rec)

lemma upt_8: "[0 ..< 8] = [0, 1, 2, 3, 4, 5, 6, 7 :: nat]"
  by (simp add: upt_rec)

lemma reg_Suc_numeral:
  assumes "0 < n"
  shows "reg n (Suc i) (Suc 0) = reg n i 0" "reg n (Suc i) 2 = reg n i (Suc 0)" "reg n (Suc i) 3 = reg n i 2"
    "reg n (Suc i) 4 = reg n i 3" "reg n (Suc i) 5 = reg n i 4" "reg n (Suc i) 6 = reg n i 5" "reg n (Suc i) 7 = reg n i 6"
  using assms by (simp_all add: numeral_eq_Suc reg_Suc(2))

section \<open>A schedule in sixteen slots\<close>

text \<open>Word \<open>t\<close> of a schedule is kept in slot \<open>t mod 16\<close> until word \<open>t + 16\<close> replaces it.\<close>

definition slots_hold :: "(nat \<Rightarrow> 'a) \<Rightarrow> nat \<Rightarrow> 'a list \<Rightarrow> bool" where
  "slots_hold W i w \<longleftrightarrow> length w = 16 \<and> (\<forall>t < i. i \<le> t + 16 \<longrightarrow> w ! (t mod 16) = W t)"

lemma slots_holdD:
  assumes "slots_hold W i w" "t < i" "i \<le> t + 16"
  shows "w ! (t mod 16) = W t"
  using assms by (auto simp: slots_hold_def)

text \<open>The slot of word \<open>i - k\<close>, written as the sources do with a positive offset.\<close>

lemma slot_back:
  assumes "slots_hold W i w" "16 \<le> i" "k + d = 16" "0 < k"
  shows "w ! ((i + d) mod 16) = W (i - k)"
proof -
  have "i + d = (i - k) + 16" using assms by simp
  then have "(i + d) mod 16 = (i - k) mod 16" by (simp only: mod_add_self2)
  then show ?thesis using slots_holdD [OF assms(1), of "i - k"] assms by simp
qed

lemma slots_hold_step:
  assumes "slots_hold W i w"
  shows "slots_hold W (Suc i) (w[i mod 16 := W i])"
proof -
  have len: "length w = 16" using assms by (simp add: slots_hold_def)
  have "w[i mod 16 := W i] ! (t mod 16) = W t" if t: "t < Suc i" "Suc i \<le> t + 16" for t
  proof (cases "t = i")
    case False
    have "t mod 16 \<noteq> i mod 16"
    proof
      assume "t mod 16 = i mod 16"
      then have "16 dvd i - t" using t mod_eq_dvd_iff_nat [of t i 16] by simp
      then have "16 \<le> i - t" using t False by (intro dvd_imp_le) auto
      then show False using t by simp
    qed
    then show ?thesis using assms t False by (simp add: slots_hold_def)
  qed (use len in simp)
  then show ?thesis using len by (simp add: slots_hold_def)
qed

section \<open>Padding and shared facts\<close>

lemma rotr_shifts:
  fixes x :: "'a::len word"
  assumes "0 < n" "n < LENGTH('a)"
  shows "drop_bit n x OR push_bit (LENGTH('a) - n) x = word_rotr n x"
proof (rule bit_word_eqI)
  fix m assume m: "m < LENGTH('a)"
  consider "m + n < LENGTH('a)" | "LENGTH('a) \<le> m + n" by linarith
  then show "bit (drop_bit n x OR push_bit (LENGTH('a) - n) x) m \<longleftrightarrow> bit (word_rotr n x) m"
  proof cases
    case 1
    then show ?thesis using m assms
      by (auto simp: bit_word_rotr_iff bit_or_iff bit_drop_bit_eq bit_push_bit_iff add.commute)
  next
    case 2
    then have "(n + m) mod LENGTH('a) = m - (LENGTH('a) - n)" "(m + n) mod LENGTH('a) = m - (LENGTH('a) - n)"
      using m assms by (auto simp: le_mod_geq add.commute)
    with 2 show ?thesis using m assms bit_word_ge [of "n + m" x]
      by (auto simp: bit_word_rotr_iff bit_or_iff bit_drop_bit_eq bit_push_bit_iff)
  qed
qed

lemma rotl_shifts:
  fixes x :: "'a::len word"
  assumes "0 < n" "n < LENGTH('a)"
  shows "push_bit n x OR drop_bit (LENGTH('a) - n) x = word_rotl n x"
proof -
  have "word_rotl n x = word_rotr (LENGTH('a) - n) x"
    by (rule bit_word_eqI) (use assms in \<open>auto simp: bit_word_rotl_iff bit_word_rotr_iff\<close>)
  then show ?thesis using rotr_shifts [of "LENGTH('a) - n" x] assms by (simp add: or.commute)
qed

lemma push_bit_3_of_nat: "push_bit 3 (of_nat n :: u64) = of_nat (8 * n)"
  by (simp add: push_bit_eq_mult)

lemma pad_length:
  assumes "0 < B"
  shows "nat ((int c - int n) mod int B) = (c + B - n mod B) mod B"
proof -
  have le: "n mod B \<le> c + B" using mod_less_divisor [OF assms, of n] by simp
  have "(int c - int n) mod int B = (int c - int (n mod B)) mod int B"
    by (simp add: zmod_int mod_diff_right_eq)
  also have "\<dots> = (int c - int (n mod B) + int B) mod int B" by (rule mod_add_self2 [symmetric])
  also have "int c - int (n mod B) + int B = int (c + B - n mod B)" using le by simp
  finally show ?thesis by (simp flip: zmod_int)
qed

lemma process_cong_length:
  assumes "\<And>s b. length s = n \<Longrightarrow> f s b = g s b \<and> length (f s b) = n" "length s = n"
  shows "process block f s m = process block g s m \<and> length (process block g s m) = n"
  using assms(2)
proof (induction "length m" arbitrary: m s rule: less_induct)
  case less
  show ?case
  proof (cases "0 < block \<and> block \<le> length m")
    case True
    then have "length (drop block m) < length m" by auto
    moreover have "f s (take block m) = g s (take block m)" "length (g s (take block m)) = n"
      using assms(1) [OF less.prems, of "take block m"] by auto
    ultimately show ?thesis using less.hyps [of "drop block m" "g s (take block m)"] True
      by (simp add: process.simps [of block _ s m])
  next
    case False
    then show ?thesis using less.prems by (auto simp: process.simps [of block _ s m])
  qed
qed

lemma length_concat_Write:
  "length (concat (map WriteBE32 ws)) = 4 * length ws" "length (concat (map WriteBE64 vs)) = 8 * length vs"
  "length (concat (map WriteLE32 ws)) = 4 * length ws"
  by (simp_all add: length_concat sum_list_triv o_def)

section \<open>Constants of the standards\<close>

text \<open>The standards take their constants from roots: FIPS 180-4 from the first bits of the fractional parts of the square and
  cube roots of the first primes, SHA-1 and RIPEMD-160 from roots that are scaled by \<open>2 ^ 30\<close>. \<open>root_bits k w p\<close> is the
  \<open>k\<close>-th root of \<open>p\<close> times \<open>2 ^ w\<close>, rounded down; as a word of \<open>w\<close> bits it loses its integer part.\<close>

fun root_loop :: "nat \<Rightarrow> nat \<Rightarrow> nat \<Rightarrow> nat \<Rightarrow> nat" where
  "root_loop k n 0 r = r"
| "root_loop k n (Suc i) r = root_loop k n i (if (r + 2 ^ i) ^ k \<le> n then r + 2 ^ i else r)"

definition root_bits :: "nat \<Rightarrow> nat \<Rightarrow> nat \<Rightarrow> nat" where
  "root_bits k w p = root_loop k (p * 2 ^ (k * w)) (w + 5) 0"

definition primes :: "nat list" where
  "primes = [2, 3, 5, 7, 11, 13, 17, 19, 23, 29, 31, 37, 41, 43, 47, 53, 59, 61, 67, 71, 73, 79, 83, 89, 97, 101, 103, 107, 109, 113,
    127, 131, 137, 139, 149, 151, 157, 163, 167, 173, 179, 181, 191, 193, 197, 199, 211, 223, 227, 229, 233, 239, 241, 251, 257, 263, 269,
    271, 277, 281, 283, 293, 307, 311, 313, 317, 331, 337, 347, 349, 353, 359, 367, 373, 379, 383, 389, 397, 401, 409]"

definition root_words :: "nat \<Rightarrow> nat \<Rightarrow> 'a::len word list" where
  "root_words k n = map (\<lambda>p. of_nat (root_bits k LENGTH('a) p)) (take n primes)"

lemma root_loop_bounds:
  assumes "0 < k" "r ^ k \<le> n" "n < (r + 2 ^ i) ^ k"
  shows "root_loop k n i r ^ k \<le> n \<and> n < (root_loop k n i r + 1) ^ k"
  using assms
proof (induction i arbitrary: r)
  case (Suc i)
  then show ?case using Suc.IH [of "r + 2 ^ i"] Suc.IH [of r] by (simp add: not_le add.assoc mult_2)
qed simp

lemma root_bits_unique:
  assumes "0 < k" "p < 32 ^ k" "r ^ k \<le> p * 2 ^ (k * w)" "p * 2 ^ (k * w) < (r + 1) ^ k"
  shows "root_bits k w p = r"
proof -
  have "(32 * 2 ^ w) ^ k = (32 ^ k * 2 ^ (k * w) :: nat)" by (simp add: power_mult_distrib power_mult [symmetric] mult.commute)
  then have "p * 2 ^ (k * w) < (0 + 2 ^ (w + 5)) ^ k" using assms(2) by (simp add: power_add mult.commute)
  moreover have "(0 :: nat) ^ k \<le> p * 2 ^ (k * w)" using assms(1) by (simp add: zero_power)
  ultimately have b: "root_bits k w p ^ k \<le> p * 2 ^ (k * w)" "p * 2 ^ (k * w) < (root_bits k w p + 1) ^ k"
    using root_loop_bounds [OF assms(1)] unfolding root_bits_def by blast+
  have "root_bits k w p < r + 1" using power_less_imp_less_base [of "root_bits k w p" k "r + 1"] b(1) assms(4) by linarith
  moreover have "r < root_bits k w p + 1" using power_less_imp_less_base [of r k "root_bits k w p + 1"] b(2) assms(3) by linarith
  ultimately show ?thesis by simp
qed

fun is_root :: "nat \<Rightarrow> nat \<times> nat \<Rightarrow> 'a::len word \<Rightarrow> bool" where
  "is_root k (p, i) c \<longleftrightarrow> p < 32 ^ k \<and> (let r = i * 2 ^ LENGTH('a) + unat c in r ^ k \<le> p * 2 ^ (k * LENGTH('a)) \<and> p * 2 ^ (k * LENGTH('a)) < (r + 1) ^ k)"

lemma is_root_bits:
  fixes c :: "'a::len word"
  assumes "is_root k (p, i) c" "0 < k"
  shows "of_nat (root_bits k LENGTH('a) p) = c"
proof -
  have "root_bits k LENGTH('a) p = i * 2 ^ LENGTH('a) + unat c" using assms by (intro root_bits_unique) (simp_all add: Let_def)
  moreover have "(2 ^ LENGTH('a) :: 'a word) = 0" by simp
  ultimately show ?thesis by (simp add: of_nat_power [symmetric] del: of_nat_power)
qed

lemma root_words_eq:
  fixes cs :: "'a::len word list"
  assumes "list_all2 (is_root k) (zip (take n primes) parts) cs" "length parts = length (take n primes)" "0 < k"
  shows "root_words k n = cs"
proof (rule nth_equalityI)
  show len: "length (root_words k n :: 'a word list) = length cs" using assms(1,2) by (auto simp: root_words_def dest: list_all2_lengthD)
  show "(root_words k n :: 'a word list) ! j = cs ! j" if "j < length (root_words k n :: 'a word list)" for j
  proof -
    have "j < length (zip (take n primes) parts)" using that assms(2) by (simp add: root_words_def)
    from list_all2_nthD [OF assms(1) this] have "is_root k (primes ! j, parts ! j) (cs ! j)" using that assms(2) by (simp add: root_words_def del: is_root.simps)
    then show ?thesis using that is_root_bits [OF _ assms(3)] by (simp add: root_words_def del: is_root.simps)
  qed
qed

end
