(* ===== verification/Sha2.thy ===== *)
theory Sha2
  imports Hasher
begin

unbundle bit_operations_syntax

text \<open>
  The hashers \<open>CSHA256\<close> (\<^verbatim>\<open>crypto/sha256.cpp\<close>) and \<open>CSHA512\<close> (\<^verbatim>\<open>crypto/sha512.cpp\<close>). The two transformations have one
  shape: an unrolled sequence of rounds on eight registers whose names rotate from round to round, and on sixteen
  schedule words that are updated in place. \<open>sha2_step\<close> is one such round, the register that plays role \<open>j\<close> in
  round \<open>i\<close> being \<open>reg 8 i j\<close>, and the word width, the rotations, the constants and the number of rounds are
  arguments (the last two rounds of the source do not store their schedule word, which nothing reads).

  The reference is FIPS 180-4: a padded message, an expanded schedule of 64 (80) words, and working variables that
  shift by one place per round. Both classes are proved to compute it, for any way of splitting the message into writes.
\<close>

section \<open>The code\<close>

definition sha2_Ch :: "'a::len word \<Rightarrow> 'a word \<Rightarrow> 'a word \<Rightarrow> 'a word" where
  "sha2_Ch x y z = z XOR (x AND (y XOR z))"

definition sha2_Maj :: "'a::len word \<Rightarrow> 'a word \<Rightarrow> 'a word \<Rightarrow> 'a word" where
  "sha2_Maj x y z = (x AND y) OR (z AND (x OR y))"

definition sha256_Sigma0 :: "u32 \<Rightarrow> u32" where
  "sha256_Sigma0 x = (drop_bit 2 x OR push_bit 30 x) XOR (drop_bit 13 x OR push_bit 19 x) XOR (drop_bit 22 x OR push_bit 10 x)"

definition sha256_Sigma1 :: "u32 \<Rightarrow> u32" where
  "sha256_Sigma1 x = (drop_bit 6 x OR push_bit 26 x) XOR (drop_bit 11 x OR push_bit 21 x) XOR (drop_bit 25 x OR push_bit 7 x)"

definition sha256_sigma0 :: "u32 \<Rightarrow> u32" where
  "sha256_sigma0 x = (drop_bit 7 x OR push_bit 25 x) XOR (drop_bit 18 x OR push_bit 14 x) XOR drop_bit 3 x"

definition sha256_sigma1 :: "u32 \<Rightarrow> u32" where
  "sha256_sigma1 x = (drop_bit 17 x OR push_bit 15 x) XOR (drop_bit 19 x OR push_bit 13 x) XOR drop_bit 10 x"

definition sha512_Sigma0 :: "u64 \<Rightarrow> u64" where
  "sha512_Sigma0 x = (drop_bit 28 x OR push_bit 36 x) XOR (drop_bit 34 x OR push_bit 30 x) XOR (drop_bit 39 x OR push_bit 25 x)"

definition sha512_Sigma1 :: "u64 \<Rightarrow> u64" where
  "sha512_Sigma1 x = (drop_bit 14 x OR push_bit 50 x) XOR (drop_bit 18 x OR push_bit 46 x) XOR (drop_bit 41 x OR push_bit 23 x)"

definition sha512_sigma0 :: "u64 \<Rightarrow> u64" where
  "sha512_sigma0 x = (drop_bit 1 x OR push_bit 63 x) XOR (drop_bit 8 x OR push_bit 56 x) XOR drop_bit 7 x"

definition sha512_sigma1 :: "u64 \<Rightarrow> u64" where
  "sha512_sigma1 x = (drop_bit 19 x OR push_bit 45 x) XOR (drop_bit 61 x OR push_bit 3 x) XOR drop_bit 6 x"

text \<open>\<open>Round\<close> returns the new values of the two registers it takes by reference, \<open>d\<close> and \<open>h\<close>.\<close>

definition sha2_Round :: "('a::len word \<Rightarrow> 'a word) \<Rightarrow> ('a word \<Rightarrow> 'a word) \<Rightarrow> 'a word \<Rightarrow> 'a word \<Rightarrow> 'a word \<Rightarrow> 'a word \<Rightarrow>
    'a word \<Rightarrow> 'a word \<Rightarrow> 'a word \<Rightarrow> 'a word \<Rightarrow> 'a word \<Rightarrow> 'a word \<Rightarrow> 'a word \<times> 'a word" where
  "sha2_Round Sigma0 Sigma1 a b c d e f g h k w = (let
     t1 = h + Sigma1 e + sha2_Ch e f g + k + w;
     t2 = Sigma0 a + sha2_Maj a b c
     in (d + t1, t1 + t2))"

definition sha2_step :: "('a::len word \<Rightarrow> 'a word) \<Rightarrow> ('a word \<Rightarrow> 'a word) \<Rightarrow> ('a word \<Rightarrow> 'a word) \<Rightarrow> ('a word \<Rightarrow> 'a word) \<Rightarrow>
    'a word list \<Rightarrow> (nat \<Rightarrow> 'a word) \<Rightarrow> 'a word list \<times> 'a word list \<Rightarrow> nat \<Rightarrow> 'a word list \<times> 'a word list" where
  "sha2_step Sigma0 Sigma1 sigma0 sigma1 K chunk rw i = (let
     (r, w) = rw;
     wi = (if i < 16 then chunk i
           else w ! (i mod 16) + (sigma1 (w ! ((i + 14) mod 16)) + w ! ((i + 9) mod 16) + sigma0 (w ! ((i + 1) mod 16))));
     v = (\<lambda>j. r ! reg 8 i j);
     (d, h) = sha2_Round Sigma0 Sigma1 (v 0) (v 1) (v 2) (v 3) (v 4) (v 5) (v 6) (v 7) (K ! i) wi
     in (r[reg 8 i 3 := d, reg 8 i 7 := h], w[i mod 16 := wi]))"

text \<open>The constants of the calls, one row for each full turn of the eight registers.\<close>

definition sha256_K :: "u32 list" where
  "sha256_K = concat
    [[0x428a2f98, 0x71374491, 0xb5c0fbcf, 0xe9b5dba5, 0x3956c25b, 0x59f111f1, 0x923f82a4, 0xab1c5ed5],
     [0xd807aa98, 0x12835b01, 0x243185be, 0x550c7dc3, 0x72be5d74, 0x80deb1fe, 0x9bdc06a7, 0xc19bf174],
     [0xe49b69c1, 0xefbe4786, 0x0fc19dc6, 0x240ca1cc, 0x2de92c6f, 0x4a7484aa, 0x5cb0a9dc, 0x76f988da],
     [0x983e5152, 0xa831c66d, 0xb00327c8, 0xbf597fc7, 0xc6e00bf3, 0xd5a79147, 0x06ca6351, 0x14292967],
     [0x27b70a85, 0x2e1b2138, 0x4d2c6dfc, 0x53380d13, 0x650a7354, 0x766a0abb, 0x81c2c92e, 0x92722c85],
     [0xa2bfe8a1, 0xa81a664b, 0xc24b8b70, 0xc76c51a3, 0xd192e819, 0xd6990624, 0xf40e3585, 0x106aa070],
     [0x19a4c116, 0x1e376c08, 0x2748774c, 0x34b0bcb5, 0x391c0cb3, 0x4ed8aa4a, 0x5b9cca4f, 0x682e6ff3],
     [0x748f82ee, 0x78a5636f, 0x84c87814, 0x8cc70208, 0x90befffa, 0xa4506ceb, 0xbef9a3f7, 0xc67178f2]]"

definition sha512_K :: "u64 list" where
  "sha512_K = concat
    [[0x428a2f98d728ae22, 0x7137449123ef65cd, 0xb5c0fbcfec4d3b2f, 0xe9b5dba58189dbbc,
      0x3956c25bf348b538, 0x59f111f1b605d019, 0x923f82a4af194f9b, 0xab1c5ed5da6d8118],
     [0xd807aa98a3030242, 0x12835b0145706fbe, 0x243185be4ee4b28c, 0x550c7dc3d5ffb4e2,
      0x72be5d74f27b896f, 0x80deb1fe3b1696b1, 0x9bdc06a725c71235, 0xc19bf174cf692694],
     [0xe49b69c19ef14ad2, 0xefbe4786384f25e3, 0x0fc19dc68b8cd5b5, 0x240ca1cc77ac9c65,
      0x2de92c6f592b0275, 0x4a7484aa6ea6e483, 0x5cb0a9dcbd41fbd4, 0x76f988da831153b5],
     [0x983e5152ee66dfab, 0xa831c66d2db43210, 0xb00327c898fb213f, 0xbf597fc7beef0ee4,
      0xc6e00bf33da88fc2, 0xd5a79147930aa725, 0x06ca6351e003826f, 0x142929670a0e6e70],
     [0x27b70a8546d22ffc, 0x2e1b21385c26c926, 0x4d2c6dfc5ac42aed, 0x53380d139d95b3df,
      0x650a73548baf63de, 0x766a0abb3c77b2a8, 0x81c2c92e47edaee6, 0x92722c851482353b],
     [0xa2bfe8a14cf10364, 0xa81a664bbc423001, 0xc24b8b70d0f89791, 0xc76c51a30654be30,
      0xd192e819d6ef5218, 0xd69906245565a910, 0xf40e35855771202a, 0x106aa07032bbd1b8],
     [0x19a4c116b8d2d0c8, 0x1e376c085141ab53, 0x2748774cdf8eeb99, 0x34b0bcb5e19b48a8,
      0x391c0cb3c5c95a63, 0x4ed8aa4ae3418acb, 0x5b9cca4f7763e373, 0x682e6ff3d6b2b8a3],
     [0x748f82ee5defb2fc, 0x78a5636f43172f60, 0x84c87814a1f0ab72, 0x8cc702081a6439ec,
      0x90befffa23631e28, 0xa4506cebde82bde9, 0xbef9a3f7b2c67915, 0xc67178f2e372532b],
     [0xca273eceea26619c, 0xd186b8c721c0c207, 0xeada7dd6cde0eb1e, 0xf57d4f7fee6ed178,
      0x06f067aa72176fba, 0x0a637dc5a2c898a6, 0x113f9804bef90dae, 0x1b710b35131c471b],
     [0x28db77f523047d84, 0x32caab7b40c72493, 0x3c9ebe0a15c9bebc, 0x431d67c49c100d4c,
      0x4cc5d4becb3e42b6, 0x597f299cfc657e2a, 0x5fcb6fab3ad6faec, 0x6c44198c4a475817]]"

definition sha256_Initialize :: "u32 list" where
  "sha256_Initialize = [0x6a09e667, 0xbb67ae85, 0x3c6ef372, 0xa54ff53a, 0x510e527f, 0x9b05688c, 0x1f83d9ab, 0x5be0cd19]"

definition sha512_Initialize :: "u64 list" where
  "sha512_Initialize = [0x6a09e667f3bcc908, 0xbb67ae8584caa73b, 0x3c6ef372fe94f82b, 0xa54ff53a5f1d36f1,
     0x510e527fade682d1, 0x9b05688c2b3e6c1f, 0x1f83d9abfb41bd6b, 0x5be0cd19137e2179]"

definition sha256_Transform :: "u32 list \<Rightarrow> bytes \<Rightarrow> u32 list" where
  "sha256_Transform s chunk = map2 (+) s (fst (foldl
     (sha2_step sha256_Sigma0 sha256_Sigma1 sha256_sigma0 sha256_sigma1 sha256_K (\<lambda>i. ReadBE32 (drop (4 * i) chunk)))
     (s, replicate 16 0) [0 ..< 64]))"

definition sha512_Transform :: "u64 list \<Rightarrow> bytes \<Rightarrow> u64 list" where
  "sha512_Transform s chunk = map2 (+) s (fst (foldl
     (sha2_step sha512_Sigma0 sha512_Sigma1 sha512_sigma0 sha512_sigma1 sha512_K (\<lambda>i. ReadBE64 (drop (8 * i) chunk)))
     (s, replicate 16 0) [0 ..< 80]))"

definition CSHA256 :: "u32 hasher" where
  "CSHA256 = \<lparr>h_s = sha256_Initialize, h_buf = replicate 64 0, h_bytes = 0\<rparr>"

definition CSHA256_Write :: "u32 hasher \<Rightarrow> bytes \<Rightarrow> u32 hasher" where
  "CSHA256_Write = md_Write 64 sha256_Transform"

definition CSHA256_FinalizeNoPadding :: "u32 hasher \<Rightarrow> bool \<Rightarrow> failure + bytes" where
  "CSHA256_FinalizeNoPadding h enforce_compression = (if enforce_compression \<and> h_bytes h \<noteq> 64
     then Inl (Thrown ''SHA256Compress should be invoked with a 512-bit block'')
     else Inr (concat (map WriteBE32 (h_s h))))"

definition CSHA256_Finalize :: "u32 hasher \<Rightarrow> bytes" where
  "CSHA256_Finalize h = (let
     pad = 0x80 # replicate 63 0;
     sizedesc = WriteBE64 (push_bit 3 (h_bytes h));
     h = CSHA256_Write h (take (1 + (119 - unat (h_bytes h) mod 64) mod 64) pad);
     h = CSHA256_Write h sizedesc
     in projr (CSHA256_FinalizeNoPadding h False))"

definition CSHA256_Reset :: "u32 hasher \<Rightarrow> u32 hasher" where
  "CSHA256_Reset h = h\<lparr>h_bytes := 0, h_s := sha256_Initialize\<rparr>"

definition CSHA512 :: "u64 hasher" where
  "CSHA512 = \<lparr>h_s = sha512_Initialize, h_buf = replicate 128 0, h_bytes = 0\<rparr>"

definition CSHA512_Write :: "u64 hasher \<Rightarrow> bytes \<Rightarrow> u64 hasher" where
  "CSHA512_Write = md_Write 128 sha512_Transform"

definition CSHA512_Finalize :: "u64 hasher \<Rightarrow> bytes" where
  "CSHA512_Finalize h = (let
     pad = 0x80 # replicate 127 0;
     sizedesc = replicate 8 0 @ WriteBE64 (push_bit 3 (h_bytes h));
     h = CSHA512_Write h (take (1 + (239 - unat (h_bytes h) mod 128) mod 128) pad);
     h = CSHA512_Write h sizedesc
     in concat (map WriteBE64 (h_s h)))"

definition CSHA512_Reset :: "u64 hasher \<Rightarrow> u64 hasher" where
  "CSHA512_Reset h = h\<lparr>h_bytes := 0, h_s := sha512_Initialize\<rparr>"

section \<open>The standard\<close>

text \<open>Section 4.1 and 6 of FIPS 180-4: the functions, the message schedule, the working variables and the padding.\<close>

definition fips_Ch :: "'a::len word \<Rightarrow> 'a word \<Rightarrow> 'a word \<Rightarrow> 'a word" where
  "fips_Ch x y z = (x AND y) XOR (NOT x AND z)"

definition fips_Maj :: "'a::len word \<Rightarrow> 'a word \<Rightarrow> 'a word \<Rightarrow> 'a word" where
  "fips_Maj x y z = (x AND y) XOR (x AND z) XOR (y AND z)"

definition fips_Sigma :: "nat \<Rightarrow> nat \<Rightarrow> nat \<Rightarrow> 'a::len word \<Rightarrow> 'a word" where
  "fips_Sigma p q r x = word_rotr p x XOR word_rotr q x XOR word_rotr r x"

definition fips_sigma :: "nat \<Rightarrow> nat \<Rightarrow> nat \<Rightarrow> 'a::len word \<Rightarrow> 'a word" where
  "fips_sigma p q r x = word_rotr p x XOR word_rotr q x XOR drop_bit r x"

fun fips_W :: "('a::len word \<Rightarrow> 'a word) \<Rightarrow> ('a word \<Rightarrow> 'a word) \<Rightarrow> (nat \<Rightarrow> 'a word) \<Rightarrow> nat \<Rightarrow> 'a word" where
  "fips_W sigma0 sigma1 M t = (if t < 16 then M t
     else sigma1 (fips_W sigma0 sigma1 M (t - 2)) + fips_W sigma0 sigma1 M (t - 7)
          + sigma0 (fips_W sigma0 sigma1 M (t - 15)) + fips_W sigma0 sigma1 M (t - 16))"

declare fips_W.simps [simp del]

fun fips_round :: "('a::len word \<Rightarrow> 'a word) \<Rightarrow> ('a word \<Rightarrow> 'a word) \<Rightarrow> 'a word list \<Rightarrow> (nat \<Rightarrow> 'a word) \<Rightarrow>
    'a word list \<Rightarrow> nat \<Rightarrow> 'a word list" where
  "fips_round Sigma0 Sigma1 K W [a, b, c, d, e, f, g, h] t =
     (let T1 = h + Sigma1 e + fips_Ch e f g + K ! t + W t; T2 = Sigma0 a + fips_Maj a b c
      in [T1 + T2, a, b, c, d + T1, e, f, g])"
| "fips_round _ _ _ _ vs _ = vs"

definition fips_sha256_block :: "u32 list \<Rightarrow> bytes \<Rightarrow> u32 list" where
  "fips_sha256_block H block = map2 (+) H (foldl (fips_round (fips_Sigma 2 13 22) (fips_Sigma 6 11 25) (root_words 3 64)
     (fips_W (fips_sigma 7 18 3) (fips_sigma 17 19 10) (\<lambda>i. ReadBE32 (drop (4 * i) block)))) H [0 ..< 64])"

definition fips_sha512_block :: "u64 list \<Rightarrow> bytes \<Rightarrow> u64 list" where
  "fips_sha512_block H block = map2 (+) H (foldl (fips_round (fips_Sigma 28 34 39) (fips_Sigma 14 18 41) (root_words 3 80)
     (fips_W (fips_sigma 1 8 7) (fips_sigma 19 61 6) (\<lambda>i. ReadBE64 (drop (8 * i) block)))) H [0 ..< 80])"

text \<open>The length field is that of the messages the standard admits, of fewer than \<open>2 ^ 64\<close> bits.\<close>

definition fips_pad64 :: "bytes \<Rightarrow> bytes" where
  "fips_pad64 m = 0x80 # replicate (nat ((55 - int (length m)) mod 64)) 0 @ WriteBE64 (of_nat (8 * length m))"

definition fips_pad128 :: "bytes \<Rightarrow> bytes" where
  "fips_pad128 m = 0x80 # replicate (nat ((111 - int (length m)) mod 128)) 0 @ replicate 8 0 @ WriteBE64 (of_nat (8 * length m))"

text \<open>The standard gives the length of a message for SHA-512 in 128 bits; of the messages that \<open>fips_pad128\<close> pads, those below
  \<open>2 ^ 61\<close> bytes have the upper half zero.\<close>

definition fips_pad128_full :: "bytes \<Rightarrow> bytes" where
  "fips_pad128_full m = 0x80 # replicate (nat ((111 - int (length m)) mod 128)) 0 @
     WriteBE64 (of_nat (8 * length m div 2 ^ 64)) @ WriteBE64 (of_nat (8 * length m))"

definition fips_sha256 :: "bytes \<Rightarrow> bytes" where
  "fips_sha256 m = concat (map WriteBE32 (process 64 fips_sha256_block (root_words 2 8) (m @ fips_pad64 m)))"

definition fips_sha512 :: "bytes \<Rightarrow> bytes" where
  "fips_sha512 m = concat (map WriteBE64 (process 128 fips_sha512_block (root_words 2 8) (m @ fips_pad128 m)))"

section \<open>The functions agree\<close>

lemma sha2_Ch_fips: "sha2_Ch = fips_Ch"
  by (intro ext bit_word_eqI) (auto simp: sha2_Ch_def fips_Ch_def bit_xor_iff bit_and_iff bit_not_iff)

lemma sha2_Maj_fips: "sha2_Maj = fips_Maj"
  by (intro ext bit_word_eqI) (auto simp: sha2_Maj_def fips_Maj_def bit_xor_iff bit_and_iff bit_or_iff)

lemmas rotr32 = rotr_shifts [where 'a = 32, simplified]
lemmas rotr64 = rotr_shifts [where 'a = 64, simplified]

lemma sha256_sigmas:
  "sha256_Sigma0 = fips_Sigma 2 13 22" "sha256_Sigma1 = fips_Sigma 6 11 25"
  "sha256_sigma0 = fips_sigma 7 18 3" "sha256_sigma1 = fips_sigma 17 19 10"
  using rotr32 [of 2] rotr32 [of 13] rotr32 [of 22] rotr32 [of 6] rotr32 [of 11] rotr32 [of 25]
    rotr32 [of 7] rotr32 [of 18] rotr32 [of 17] rotr32 [of 19]
  by (auto simp: fun_eq_iff sha256_Sigma0_def sha256_Sigma1_def sha256_sigma0_def sha256_sigma1_def
      fips_Sigma_def fips_sigma_def)

lemma sha512_sigmas:
  "sha512_Sigma0 = fips_Sigma 28 34 39" "sha512_Sigma1 = fips_Sigma 14 18 41"
  "sha512_sigma0 = fips_sigma 1 8 7" "sha512_sigma1 = fips_sigma 19 61 6"
  using rotr64 [of 28] rotr64 [of 34] rotr64 [of 39] rotr64 [of 14] rotr64 [of 18] rotr64 [of 41]
    rotr64 [of 1] rotr64 [of 8] rotr64 [of 19] rotr64 [of 61]
  by (auto simp: fun_eq_iff sha512_Sigma0_def sha512_Sigma1_def sha512_sigma0_def sha512_sigma1_def
      fips_Sigma_def fips_sigma_def)

section \<open>The transformations agree\<close>

text \<open>
  After \<open>i\<close> rounds the registers, read in the order of the roles of round \<open>i\<close>, are the working variables of the
  standard, and the sixteen slots hold the last schedule words.
\<close>

lemma role_view_step:
  assumes "length r = 8"
  shows "role_view 8 (Suc i) (r[reg 8 i 3 := d, reg 8 i 7 := h]) =
    [h, r ! reg 8 i 0, r ! reg 8 i 1, r ! reg 8 i 2, d, r ! reg 8 i 4, r ! reg 8 i 5, r ! reg 8 i 6]"
  using assms by (simp add: role_view_def upt_8 reg_Suc reg_Suc_numeral nth_list_update reg_inj)

lemma schedule_word:
  assumes "slots_hold W i w" "W = fips_W sigma0 sigma1 M"
  shows "(if i < 16 then M i
     else w ! (i mod 16) + (sigma1 (w ! ((i + 14) mod 16)) + w ! ((i + 9) mod 16) + sigma0 (w ! ((i + 1) mod 16)))) = W i"
proof (cases "i < 16")
  case True
  then show ?thesis by (simp add: assms(2) fips_W.simps)
next
  case False
  then have "w ! (i mod 16) = W (i - 16)" "w ! ((i + 14) mod 16) = W (i - 2)" "w ! ((i + 9) mod 16) = W (i - 7)"
    "w ! ((i + 1) mod 16) = W (i - 15)"
    using slot_back [OF assms(1), of 16 0] slot_back [OF assms(1), of 15 1] slot_back [OF assms(1)] by simp_all
  then show ?thesis using False by (simp add: assms(2) fips_W.simps [of _ _ _ i] algebra_simps)
qed

lemma sha2_step_fips:
  assumes "length r = 8" "slots_hold W i w" "W = fips_W sigma0 sigma1 M"
  obtains r' w' where "sha2_step Sigma0 Sigma1 sigma0 sigma1 K M (r, w) i = (r', w')" "length r' = 8"
    "slots_hold W (Suc i) w'" "role_view 8 (Suc i) r' = fips_round Sigma0 Sigma1 K W (role_view 8 i r) i"
proof -
  obtain d h where dh: "sha2_Round Sigma0 Sigma1 (r ! reg 8 i 0) (r ! reg 8 i 1) (r ! reg 8 i 2) (r ! reg 8 i 3) (r ! reg 8 i 4)
      (r ! reg 8 i 5) (r ! reg 8 i 6) (r ! reg 8 i 7) (K ! i) (W i) = (d, h)" by fastforce
  then have step: "sha2_step Sigma0 Sigma1 sigma0 sigma1 K M (r, w) i = (r[reg 8 i 3 := d, reg 8 i 7 := h], w[i mod 16 := W i])"
    unfolding sha2_step_def Let_def split using schedule_word [OF assms(2,3)] by simp
  have "fips_round Sigma0 Sigma1 K W (role_view 8 i r) i =
      [h, r ! reg 8 i 0, r ! reg 8 i 1, r ! reg 8 i 2, d, r ! reg 8 i 4, r ! reg 8 i 5, r ! reg 8 i 6]"
    using dh by (auto simp: role_view_def upt_8 sha2_Round_def Let_def sha2_Ch_fips sha2_Maj_fips)
  with step assms(1,2) show ?thesis
    by (intro that [OF step]) (simp_all add: role_view_step slots_hold_step)
qed

lemma sha2_rounds_fips:
  assumes "length s = 8" "W = fips_W sigma0 sigma1 M"
  shows "\<exists>r w. foldl (sha2_step Sigma0 Sigma1 sigma0 sigma1 K M) (s, replicate 16 0) [0 ..< n] = (r, w) \<and> length r = 8 \<and>
    slots_hold W n w \<and> role_view 8 n r = foldl (fips_round Sigma0 Sigma1 K W) s [0 ..< n]"
proof (induction n)
  case 0
  then show ?case using assms by (simp add: slots_hold_def role_view_period [of _ 8 0])
next
  case (Suc n)
  then obtain r w where *: "foldl (sha2_step Sigma0 Sigma1 sigma0 sigma1 K M) (s, replicate 16 0) [0 ..< n] = (r, w)"
    "length r = 8" "slots_hold W n w" "role_view 8 n r = foldl (fips_round Sigma0 Sigma1 K W) s [0 ..< n]" by auto
  obtain r' w' where "sha2_step Sigma0 Sigma1 sigma0 sigma1 K M (r, w) n = (r', w')" "length r' = 8"
    "slots_hold W (Suc n) w'" "role_view 8 (Suc n) r' = fips_round Sigma0 Sigma1 K W (role_view 8 n r) n"
    using sha2_step_fips [OF *(2,3) assms(2)] .
  with * show ?case by simp
qed

lemma sha2_rounds_whole:
  assumes "length s = 8" "8 dvd n"
  shows "fst (foldl (sha2_step Sigma0 Sigma1 sigma0 sigma1 K M) (s, replicate 16 0) [0 ..< n])
    = foldl (fips_round Sigma0 Sigma1 K (fips_W sigma0 sigma1 M)) s [0 ..< n]"
    and "length (fst (foldl (sha2_step Sigma0 Sigma1 sigma0 sigma1 K M) (s, replicate 16 0) [0 ..< n])) = 8"
proof -
  obtain r w where "foldl (sha2_step Sigma0 Sigma1 sigma0 sigma1 K M) (s, replicate 16 0) [0 ..< n] = (r, w)" "length r = 8"
    "role_view 8 n r = foldl (fips_round Sigma0 Sigma1 K (fips_W sigma0 sigma1 M)) s [0 ..< n]"
    using sha2_rounds_fips [OF assms(1) refl, of Sigma0 Sigma1 sigma0 sigma1 K M n] by auto
  then show "fst (foldl (sha2_step Sigma0 Sigma1 sigma0 sigma1 K M) (s, replicate 16 0) [0 ..< n])
    = foldl (fips_round Sigma0 Sigma1 K (fips_W sigma0 sigma1 M)) s [0 ..< n]"
    and "length (fst (foldl (sha2_step Sigma0 Sigma1 sigma0 sigma1 K M) (s, replicate 16 0) [0 ..< n])) = 8"
    using role_view_period [of r 8 n] assms by auto
qed

text \<open>The tables of the code are the words of the standard. The integer parts of the roots are given.\<close>

lemma sha256_Initialize_roots: "root_words 2 8 = sha256_Initialize"
  by (rule root_words_eq [where parts = "[1, 1, 2, 2, 3, 3, 4, 4]"]) (simp_all add: primes_def sha256_Initialize_def Let_def)

lemma sha512_Initialize_roots: "root_words 2 8 = sha512_Initialize"
  by (rule root_words_eq [where parts = "[1, 1, 2, 2, 3, 3, 4, 4]"]) (simp_all add: primes_def sha512_Initialize_def Let_def)

lemma sha256_K_roots: "root_words 3 64 = sha256_K"
  by (rule root_words_eq [where parts =
      "[1, 1, 1, 1, 2, 2, 2, 2, 2, 3, 3, 3, 3, 3, 3, 3, 3, 3, 4, 4, 4, 4, 4, 4, 4, 4, 4, 4, 4, 4, 5, 5, 5, 5, 5, 5, 5, 5, 5, 5, 5, 5, 5, 5,
      5, 5, 5, 6, 6, 6, 6, 6, 6, 6, 6, 6, 6, 6, 6, 6, 6, 6, 6, 6]"]) (simp_all add: primes_def sha256_K_def Let_def)

lemma sha512_K_roots: "root_words 3 80 = sha512_K"
  by (rule root_words_eq [where parts =
      "[1, 1, 1, 1, 2, 2, 2, 2, 2, 3, 3, 3, 3, 3, 3, 3, 3, 3, 4, 4, 4, 4, 4, 4, 4, 4, 4, 4, 4, 4, 5, 5, 5, 5, 5, 5, 5, 5, 5, 5, 5, 5, 5, 5,
      5, 5, 5, 6, 6, 6, 6, 6, 6, 6, 6, 6, 6, 6, 6, 6, 6, 6, 6, 6, 6, 6, 6, 6, 7, 7, 7, 7, 7, 7, 7, 7, 7, 7, 7, 7]"]) (simp_all add: primes_def sha512_K_def Let_def)

lemma sha256_Transform_fips:
  assumes "length s = 8"
  shows "sha256_Transform s chunk = fips_sha256_block s chunk" "length (sha256_Transform s chunk) = 8"
  using sha2_rounds_whole [OF assms, of 64] assms
  by (simp_all add: sha256_Transform_def fips_sha256_block_def sha256_sigmas sha256_K_roots)

lemma sha512_Transform_fips:
  assumes "length s = 8"
  shows "sha512_Transform s chunk = fips_sha512_block s chunk" "length (sha512_Transform s chunk) = 8"
  using sha2_rounds_whole [OF assms, of 80] assms
  by (simp_all add: sha512_Transform_def fips_sha512_block_def sha512_sigmas sha512_K_roots)

section \<open>The hashers\<close>

interpretation sha256_blocks: block_hash 64 sha256_Transform
  by unfold_locales simp

interpretation sha512_blocks: block_hash 128 sha512_Transform
  by unfold_locales simp

lemma process_sha256:
  "process 64 sha256_Transform sha256_Initialize m = process 64 fips_sha256_block sha256_Initialize m"
  "length (process 64 fips_sha256_block sha256_Initialize m) = 8"
  using process_cong_length [of 8 sha256_Transform fips_sha256_block sha256_Initialize 64 m] sha256_Transform_fips
  by (simp_all add: sha256_Initialize_def)

lemma process_sha512:
  "process 128 sha512_Transform sha512_Initialize m = process 128 fips_sha512_block sha512_Initialize m"
  "length (process 128 fips_sha512_block sha512_Initialize m) = 8"
  using process_cong_length [of 8 sha512_Transform fips_sha512_block sha512_Initialize 128 m] sha512_Transform_fips
  by (simp_all add: sha512_Initialize_def)

lemma CSHA256_writes:
  "absorbed 64 sha256_Transform sha256_Initialize (concat ms) (foldl CSHA256_Write CSHA256 ms)"
  using sha256_blocks.writes_absorb [of sha256_Initialize "[]" CSHA256 ms]
  by (simp add: CSHA256_Write_def CSHA256_def absorbed_def whole_def)

lemma CSHA512_writes:
  "absorbed 128 sha512_Transform sha512_Initialize (concat ms) (foldl CSHA512_Write CSHA512 ms)"
  using sha512_blocks.writes_absorb [of sha512_Initialize "[]" CSHA512 ms]
  by (simp add: CSHA512_Write_def CSHA512_def absorbed_def whole_def)

lemma CSHA256_Finalize_absorbed:
  assumes "absorbed 64 sha256_Transform sha256_Initialize m h"
  shows "CSHA256_Finalize h = fips_sha256 m"
proof -
  have n: "h_bytes h = of_nat (length m)" using assms by (simp add: absorbed_def)
  have pad: "take (1 + (119 - unat (h_bytes h) mod 64) mod 64) (0x80 # replicate 63 0) @ WriteBE64 (push_bit 3 (h_bytes h)) = fips_pad64 m"
    using pad_length [of 64 55 "length m"] by (simp add: n fips_pad64_def sha256_blocks.buffered push_bit_3_of_nat)
  have "h_s (CSHA256_Write (CSHA256_Write h (take (1 + (119 - unat (h_bytes h) mod 64) mod 64) (0x80 # replicate 63 0)))
        (WriteBE64 (push_bit 3 (h_bytes h)))) = process 64 sha256_Transform sha256_Initialize (m @ fips_pad64 m)"
    using sha256_blocks.md_Write_absorbs [OF sha256_blocks.md_Write_absorbs [OF assms]]
    unfolding CSHA256_Write_def absorbed_def pad [symmetric] by simp
  then show ?thesis
    by (simp add: CSHA256_Finalize_def CSHA256_FinalizeNoPadding_def Let_def fips_sha256_def process_sha256 sha256_Initialize_roots)
qed

lemma CSHA512_Finalize_absorbed:
  assumes "absorbed 128 sha512_Transform sha512_Initialize m h"
  shows "CSHA512_Finalize h = fips_sha512 m"
proof -
  have n: "h_bytes h = of_nat (length m)" using assms by (simp add: absorbed_def)
  have pad: "take (1 + (239 - unat (h_bytes h) mod 128) mod 128) (0x80 # replicate 127 0) @
      replicate 8 0 @ WriteBE64 (push_bit 3 (h_bytes h)) = fips_pad128 m"
    using pad_length [of 128 111 "length m"] by (simp add: n fips_pad128_def sha512_blocks.buffered push_bit_3_of_nat)
  have "h_s (CSHA512_Write (CSHA512_Write h (take (1 + (239 - unat (h_bytes h) mod 128) mod 128) (0x80 # replicate 127 0)))
        (replicate 8 0 @ WriteBE64 (push_bit 3 (h_bytes h)))) = process 128 sha512_Transform sha512_Initialize (m @ fips_pad128 m)"
    using sha512_blocks.md_Write_absorbs [OF sha512_blocks.md_Write_absorbs [OF assms]]
    unfolding CSHA512_Write_def absorbed_def pad [symmetric] by simp
  then show ?thesis by (simp add: CSHA512_Finalize_def Let_def fips_sha512_def process_sha512 sha512_Initialize_roots)
qed

interpretation sha256: stream_hash CSHA256 CSHA256_Write CSHA256_Finalize fips_sha256 32
  by unfold_locales (simp_all add: CSHA256_Finalize_absorbed [OF CSHA256_writes] fips_sha256_def length_concat_Write process_sha256 sha256_Initialize_roots)

interpretation sha512: stream_hash CSHA512 CSHA512_Write CSHA512_Finalize fips_sha512 64
  by unfold_locales (simp_all add: CSHA512_Finalize_absorbed [OF CSHA512_writes] fips_sha512_def length_concat_Write process_sha512 sha512_Initialize_roots)

text \<open>C26: SHA-256 and SHA-512 are the functions of FIPS 180-4, with the constants and initial values taken from the roots of the
  primes, and the hashers compute them of the concatenation of everything written, however the data is cut into writes:
  the in-place rounds with rotating registers and a sixteen-word schedule, the tables of constants, the buffering of partial blocks
  and the padding agree with the padded, fully expanded standard. For messages below \<open>2 ^ 61\<close> bytes the padding of SHA-512 is the one
  with the 128-bit length.\<close>

theorem sha2_hashers_compute_fips:
  "CSHA256_Finalize (foldl CSHA256_Write CSHA256 ms) = fips_sha256 (concat ms) \<and>
   CSHA512_Finalize (foldl CSHA512_Write CSHA512 ms) = fips_sha512 (concat ms) \<and>
   (length (concat ms) < 2 ^ 61 \<longrightarrow> fips_pad128 (concat ms) = fips_pad128_full (concat ms))"
proof -
  have "WriteBE64 0 = replicate 8 0" by code_simp
  then show ?thesis by (simp add: sha256.finalize_writes sha512.finalize_writes fips_pad128_def fips_pad128_full_def)
qed

theorem sha2_hashers_compute_fips_witness:
  "CSHA512_Finalize (foldl CSHA512_Write CSHA512 [[0x61], [0x62, 0x63]]) =
   concat (map WriteBE64 (process 128 fips_sha512_block (root_words 2 8) ([0x61, 0x62, 0x63] @ fips_pad128_full [0x61, 0x62, 0x63])))"
  using sha2_hashers_compute_fips [of "[[0x61], [0x62, 0x63]]"] by (simp add: fips_sha512_def)

text \<open>A hasher that is reset hashes afresh, whatever it has absorbed before.\<close>

lemma CSHA256_Reset_writes:
  assumes "absorbed 64 sha256_Transform iv m h"
  shows "CSHA256_Finalize (foldl CSHA256_Write (CSHA256_Reset h) ms) = fips_sha256 (concat ms)"
proof -
  have "absorbed 64 sha256_Transform sha256_Initialize [] (CSHA256_Reset h)"
    using assms by (simp add: absorbed_def CSHA256_Reset_def whole_def)
  from sha256_blocks.writes_absorb [OF this, of ms] show ?thesis
    by (intro CSHA256_Finalize_absorbed) (simp add: CSHA256_Write_def)
qed

end
