(* ===== verification/Sha1.thy ===== *)
theory Sha1
  imports Hasher
begin

unbundle bit_operations_syntax

text \<open>
  The hasher \<open>CSHA1\<close> of \<^verbatim>\<open>crypto/sha1.cpp\<close>: eighty unrolled rounds on five registers with rotating names, and sixteen
  schedule words updated in place (the last three rounds of the source do not store their word, which nothing
  reads). The reference is SHA-1 of FIPS 180-4.
\<close>

section \<open>The code\<close>

text \<open>\<open>Round\<close> returns the new values of the registers \<open>b\<close> and \<open>e\<close> it takes by reference.\<close>

definition sha1_Round :: "u32 \<Rightarrow> u32 \<Rightarrow> u32 \<Rightarrow> u32 \<Rightarrow> u32 \<Rightarrow> u32 \<Rightarrow> u32 \<Rightarrow> u32 \<Rightarrow> u32 \<times> u32" where
  "sha1_Round a b c d e f k w =
     (push_bit 30 b OR drop_bit 2 b, e + ((push_bit 5 a OR drop_bit 27 a) + f + k + w))"

definition sha1_f1 :: "u32 \<Rightarrow> u32 \<Rightarrow> u32 \<Rightarrow> u32" where
  "sha1_f1 b c d = d XOR (b AND (c XOR d))"

definition sha1_f2 :: "u32 \<Rightarrow> u32 \<Rightarrow> u32 \<Rightarrow> u32" where
  "sha1_f2 b c d = b XOR c XOR d"

definition sha1_f3 :: "u32 \<Rightarrow> u32 \<Rightarrow> u32 \<Rightarrow> u32" where
  "sha1_f3 b c d = (b AND c) OR (d AND (b OR c))"

definition sha1_left :: "u32 \<Rightarrow> u32" where
  "sha1_left x = push_bit 1 x OR drop_bit 31 x"

definition sha1_Initialize :: "u32 list" where
  "sha1_Initialize = [0x67452301, 0xEFCDAB89, 0x98BADCFE, 0x10325476, 0xC3D2E1F0]"

definition sha1_f :: "nat \<Rightarrow> u32 \<Rightarrow> u32 \<Rightarrow> u32 \<Rightarrow> u32" where
  "sha1_f i = (if i < 20 then sha1_f1 else if i < 40 then sha1_f2 else if i < 60 then sha1_f3 else sha1_f2)"

definition sha1_k :: "nat \<Rightarrow> u32" where
  "sha1_k i = (if i < 20 then 0x5A827999 else if i < 40 then 0x6ED9EBA1 else if i < 60 then 0x8F1BBCDC else 0xCA62C1D6)"

definition sha1_step :: "(nat \<Rightarrow> u32) \<Rightarrow> u32 list \<times> u32 list \<Rightarrow> nat \<Rightarrow> u32 list \<times> u32 list" where
  "sha1_step chunk rw i = (let
     (r, w) = rw;
     wi = (if i < 16 then chunk i
           else sha1_left (w ! (i mod 16) XOR w ! ((i + 13) mod 16) XOR w ! ((i + 8) mod 16) XOR w ! ((i + 2) mod 16)));
     v = (\<lambda>j. r ! reg 5 i j);
     (b, e) = sha1_Round (v 0) (v 1) (v 2) (v 3) (v 4) (sha1_f i (v 1) (v 2) (v 3)) (sha1_k i) wi
     in (r[reg 5 i 1 := b, reg 5 i 4 := e], w[i mod 16 := wi]))"

definition sha1_Transform :: "u32 list \<Rightarrow> bytes \<Rightarrow> u32 list" where
  "sha1_Transform s chunk = map2 (+) s (fst (foldl
     (sha1_step (\<lambda>i. ReadBE32 (drop (4 * i) chunk))) (s, replicate 16 0) [0 ..< 80]))"

definition CSHA1 :: "u32 hasher" where
  "CSHA1 = \<lparr>h_s = sha1_Initialize, h_buf = replicate 64 0, h_bytes = 0\<rparr>"

definition CSHA1_Write :: "u32 hasher \<Rightarrow> bytes \<Rightarrow> u32 hasher" where
  "CSHA1_Write = md_Write 64 sha1_Transform"

definition CSHA1_Finalize :: "u32 hasher \<Rightarrow> bytes" where
  "CSHA1_Finalize h = (let
     pad = 0x80 # replicate 63 0;
     sizedesc = WriteBE64 (push_bit 3 (h_bytes h));
     h = CSHA1_Write h (take (1 + (119 - unat (h_bytes h) mod 64) mod 64) pad);
     h = CSHA1_Write h sizedesc
     in concat (map WriteBE32 (h_s h)))"

definition CSHA1_Reset :: "u32 hasher \<Rightarrow> u32 hasher" where
  "CSHA1_Reset h = h\<lparr>h_bytes := 0, h_s := sha1_Initialize\<rparr>"

section \<open>The standard\<close>

definition fips_f :: "nat \<Rightarrow> u32 \<Rightarrow> u32 \<Rightarrow> u32 \<Rightarrow> u32" where
  "fips_f t x y z = (if t < 20 then (x AND y) XOR (NOT x AND z)
     else if 40 \<le> t \<and> t < 60 then (x AND y) XOR (x AND z) XOR (y AND z) else x XOR y XOR z)"

fun fips_W1 :: "(nat \<Rightarrow> u32) \<Rightarrow> nat \<Rightarrow> u32" where
  "fips_W1 M t = (if t < 16 then M t
     else word_rotl 1 (fips_W1 M (t - 3) XOR fips_W1 M (t - 8) XOR fips_W1 M (t - 14) XOR fips_W1 M (t - 16)))"

declare fips_W1.simps [simp del]

definition fips_K1 :: "nat \<Rightarrow> u32" where
  "fips_K1 t = of_nat (root_bits 2 30 ([2, 3, 5, 10] ! min 3 (t div 20)))"

definition fips_H1 :: "u32 list" where
  "fips_H1 = [0x67452301, 0xEFCDAB89, 0x98BADCFE, 0x10325476, 0xC3D2E1F0]"

fun fips_round1 :: "(nat \<Rightarrow> u32) \<Rightarrow> u32 list \<Rightarrow> nat \<Rightarrow> u32 list" where
  "fips_round1 W [a, b, c, d, e] t =
     [word_rotl 5 a + fips_f t b c d + e + fips_K1 t + W t, a, word_rotl 30 b, c, d]"
| "fips_round1 _ vs _ = vs"

definition fips_sha1_block :: "u32 list \<Rightarrow> bytes \<Rightarrow> u32 list" where
  "fips_sha1_block H block = map2 (+) H (foldl (fips_round1 (fips_W1 (\<lambda>i. ReadBE32 (drop (4 * i) block)))) H [0 ..< 80])"

definition fips_pad :: "bytes \<Rightarrow> bytes" where
  "fips_pad m = 0x80 # replicate (nat ((55 - int (length m)) mod 64)) 0 @ WriteBE64 (of_nat (8 * length m))"

definition fips_sha1 :: "bytes \<Rightarrow> bytes" where
  "fips_sha1 m = concat (map WriteBE32 (process 64 fips_sha1_block fips_H1 (m @ fips_pad m)))"

section \<open>The transformation agrees\<close>

lemmas rotl32 = rotl_shifts [where 'a = 32, simplified]

lemma sha1_f_fips: "sha1_f t b c d = fips_f t b c d"
  by (rule bit_word_eqI) (auto simp: sha1_f_def fips_f_def sha1_f1_def sha1_f2_def sha1_f3_def
      bit_xor_iff bit_and_iff bit_or_iff bit_not_iff)

lemma sha1_k_fips: "sha1_k t = fips_K1 t"
proof -
  have "root_bits 2 30 2 = 0x5A827999" "root_bits 2 30 3 = 0x6ED9EBA1" "root_bits 2 30 5 = 0x8F1BBCDC" "root_bits 2 30 10 = 0xCA62C1D6"
    by (rule root_bits_unique; simp)+
  moreover have "t < 20 \<or> t div 20 = 1 \<and> 20 \<le> t \<and> t < 40 \<or> t div 20 = 2 \<and> 40 \<le> t \<and> t < 60 \<or> 3 \<le> t div 20 \<and> 60 \<le> t" by linarith
  ultimately show ?thesis by (auto simp: sha1_k_def fips_K1_def numeral_2_eq_2 numeral_3_eq_3)
qed

lemma sha1_Initialize_fips: "fips_H1 = sha1_Initialize"
  by (simp add: fips_H1_def sha1_Initialize_def)

lemma sha1_left_rotl: "sha1_left x = word_rotl 1 x"
  using rotl32 [of 1 x] by (simp add: sha1_left_def)

lemma sha1_Round_fips:
  "sha1_Round a b c d e f k w = (word_rotl 30 b, word_rotl 5 a + f + e + k + w)"
  using rotl32 [of 30 b] rotl32 [of 5 a] by (simp add: sha1_Round_def algebra_simps)

lemma sha1_schedule:
  assumes "slots_hold (fips_W1 M) i w"
  shows "(if i < 16 then M i
     else sha1_left (w ! (i mod 16) XOR w ! ((i + 13) mod 16) XOR w ! ((i + 8) mod 16) XOR w ! ((i + 2) mod 16))) = fips_W1 M i"
proof (cases "i < 16")
  case True
  then show ?thesis by (simp add: fips_W1.simps)
next
  case False
  then have "w ! (i mod 16) = fips_W1 M (i - 16)" "w ! ((i + 13) mod 16) = fips_W1 M (i - 3)"
    "w ! ((i + 8) mod 16) = fips_W1 M (i - 8)" "w ! ((i + 2) mod 16) = fips_W1 M (i - 14)"
    using slot_back [OF assms, of 16 0] slot_back [OF assms, of 14 2] slot_back [OF assms] by simp_all
  then show ?thesis using False by (simp add: fips_W1.simps [of _ i] sha1_left_rotl ac_simps)
qed

lemma sha1_role_view_step:
  assumes "length r = 5"
  shows "role_view 5 (Suc i) (r[reg 5 i 1 := b, reg 5 i 4 := e]) = [e, r ! reg 5 i 0, b, r ! reg 5 i 2, r ! reg 5 i 3]"
  using assms by (simp add: role_view_def upt_5 reg_Suc reg_Suc_numeral nth_list_update reg_inj)

lemma sha1_step_fips:
  assumes "length r = 5" "slots_hold (fips_W1 M) i w"
  obtains r' w' where "sha1_step M (r, w) i = (r', w')" "length r' = 5" "slots_hold (fips_W1 M) (Suc i) w'"
    "role_view 5 (Suc i) r' = fips_round1 (fips_W1 M) (role_view 5 i r) i"
proof -
  obtain b e where be: "sha1_Round (r ! reg 5 i 0) (r ! reg 5 i 1) (r ! reg 5 i 2) (r ! reg 5 i 3) (r ! reg 5 i 4)
      (sha1_f i (r ! reg 5 i 1) (r ! reg 5 i 2) (r ! reg 5 i 3)) (sha1_k i) (fips_W1 M i) = (b, e)" by fastforce
  then have step: "sha1_step M (r, w) i = (r[reg 5 i 1 := b, reg 5 i 4 := e], w[i mod 16 := fips_W1 M i])"
    unfolding sha1_step_def Let_def split using sha1_schedule [OF assms(2)] by simp
  have "fips_round1 (fips_W1 M) (role_view 5 i r) i = [e, r ! reg 5 i 0, b, r ! reg 5 i 2, r ! reg 5 i 3]"
    using be by (auto simp: role_view_def upt_5 sha1_Round_fips sha1_f_fips sha1_k_fips)
  with step assms(1,2) show ?thesis
    by (intro that [OF step]) (simp_all add: sha1_role_view_step slots_hold_step del: One_nat_def)
qed

lemma sha1_rounds_fips:
  assumes "length s = 5"
  shows "\<exists>r w. foldl (sha1_step M) (s, replicate 16 0) [0 ..< n] = (r, w) \<and> length r = 5 \<and> slots_hold (fips_W1 M) n w \<and>
    role_view 5 n r = foldl (fips_round1 (fips_W1 M)) s [0 ..< n]"
proof (induction n)
  case 0
  then show ?case using assms by (simp add: slots_hold_def role_view_period [of _ 5 0])
next
  case (Suc n)
  then obtain r w where *: "foldl (sha1_step M) (s, replicate 16 0) [0 ..< n] = (r, w)"
    "length r = 5" "slots_hold (fips_W1 M) n w" "role_view 5 n r = foldl (fips_round1 (fips_W1 M)) s [0 ..< n]" by auto
  obtain r' w' where "sha1_step M (r, w) n = (r', w')" "length r' = 5" "slots_hold (fips_W1 M) (Suc n) w'"
    "role_view 5 (Suc n) r' = fips_round1 (fips_W1 M) (role_view 5 n r) n"
    using sha1_step_fips [OF *(2,3)] .
  with * show ?case by simp
qed

lemma sha1_Transform_fips:
  assumes "length s = 5"
  shows "sha1_Transform s chunk = fips_sha1_block s chunk" "length (sha1_Transform s chunk) = 5"
proof -
  define M where "M = (\<lambda>i. ReadBE32 (drop (4 * i) chunk))"
  obtain r w where "foldl (sha1_step M) (s, replicate 16 0) [0 ..< 80] = (r, w)" "length r = 5"
    "role_view 5 80 r = foldl (fips_round1 (fips_W1 M)) s [0 ..< 80]"
    using sha1_rounds_fips [OF assms, of M 80] by auto
  then show "sha1_Transform s chunk = fips_sha1_block s chunk" "length (sha1_Transform s chunk) = 5"
    using role_view_period [of r 5 80] assms by (simp_all add: sha1_Transform_def fips_sha1_block_def M_def)
qed

section \<open>The hasher\<close>

interpretation sha1_blocks: block_hash 64 sha1_Transform
  by unfold_locales simp

lemma process_sha1:
  "process 64 sha1_Transform sha1_Initialize m = process 64 fips_sha1_block sha1_Initialize m"
  "length (process 64 fips_sha1_block sha1_Initialize m) = 5"
  using process_cong_length [of 5 sha1_Transform fips_sha1_block sha1_Initialize 64 m] sha1_Transform_fips
  by (simp_all add: sha1_Initialize_def)

lemma CSHA1_writes: "absorbed 64 sha1_Transform sha1_Initialize (concat ms) (foldl CSHA1_Write CSHA1 ms)"
  using sha1_blocks.writes_absorb [of sha1_Initialize "[]" CSHA1 ms]
  by (simp add: CSHA1_Write_def CSHA1_def absorbed_def whole_def)

lemma CSHA1_Finalize_absorbed:
  assumes "absorbed 64 sha1_Transform sha1_Initialize m h"
  shows "CSHA1_Finalize h = fips_sha1 m"
proof -
  have n: "h_bytes h = of_nat (length m)" using assms by (simp add: absorbed_def)
  have pad: "take (1 + (119 - unat (h_bytes h) mod 64) mod 64) (0x80 # replicate 63 0) @ WriteBE64 (push_bit 3 (h_bytes h)) = fips_pad m"
    using pad_length [of 64 55 "length m"] by (simp add: n fips_pad_def sha1_blocks.buffered push_bit_3_of_nat)
  have "h_s (CSHA1_Write (CSHA1_Write h (take (1 + (119 - unat (h_bytes h) mod 64) mod 64) (0x80 # replicate 63 0)))
        (WriteBE64 (push_bit 3 (h_bytes h)))) = process 64 sha1_Transform sha1_Initialize (m @ fips_pad m)"
    using sha1_blocks.md_Write_absorbs [OF sha1_blocks.md_Write_absorbs [OF assms]]
    unfolding CSHA1_Write_def absorbed_def pad [symmetric] by simp
  then show ?thesis by (simp add: CSHA1_Finalize_def Let_def fips_sha1_def process_sha1 sha1_Initialize_fips)
qed

interpretation sha1: stream_hash CSHA1 CSHA1_Write CSHA1_Finalize fips_sha1 20
  by unfold_locales (simp_all add: CSHA1_Finalize_absorbed [OF CSHA1_writes] fips_sha1_def length_concat_Write process_sha1 sha1_Initialize_fips)

end
