(* ===== verification/Ripemd160.thy ===== *)
theory Ripemd160
  imports Hasher
begin

unbundle bit_operations_syntax

text \<open>
  The hasher \<open>CRIPEMD160\<close> of \<^verbatim>\<open>crypto/ripemd160.cpp\<close>: two interleaved lines of eighty unrolled rounds, each on five
  registers with rotating names. The message word and the shift of each call are the tables below, in the order of the
  source. The reference is the description of RIPEMD-160 by its authors: word orders that are powers of one
  permutation, shifts that depend on the round and the word only, and variables that move by one place per step.
\<close>

section \<open>The code\<close>

definition rmd_f1 :: "u32 \<Rightarrow> u32 \<Rightarrow> u32 \<Rightarrow> u32" where
  "rmd_f1 x y z = x XOR y XOR z"

definition rmd_f2 :: "u32 \<Rightarrow> u32 \<Rightarrow> u32 \<Rightarrow> u32" where
  "rmd_f2 x y z = (x AND y) OR (NOT x AND z)"

definition rmd_f3 :: "u32 \<Rightarrow> u32 \<Rightarrow> u32 \<Rightarrow> u32" where
  "rmd_f3 x y z = (x OR NOT y) XOR z"

definition rmd_f4 :: "u32 \<Rightarrow> u32 \<Rightarrow> u32 \<Rightarrow> u32" where
  "rmd_f4 x y z = (x AND z) OR (y AND NOT z)"

definition rmd_f5 :: "u32 \<Rightarrow> u32 \<Rightarrow> u32 \<Rightarrow> u32" where
  "rmd_f5 x y z = x XOR (y OR NOT z)"

definition rmd_Initialize :: "u32 list" where
  "rmd_Initialize = [0x67452301, 0xEFCDAB89, 0x98BADCFE, 0x10325476, 0xC3D2E1F0]"

definition rol :: "u32 \<Rightarrow> nat \<Rightarrow> u32" where
  "rol x i = push_bit i x OR drop_bit (32 - i) x"

text \<open>\<open>Round\<close> returns the new values of the registers \<open>a\<close> and \<open>c\<close> it takes by reference.\<close>

definition rmd_Round :: "u32 \<Rightarrow> u32 \<Rightarrow> u32 \<Rightarrow> u32 \<Rightarrow> u32 \<Rightarrow> u32 \<Rightarrow> u32 \<Rightarrow> u32 \<Rightarrow> nat \<Rightarrow> u32 \<times> u32" where
  "rmd_Round a b c d e f x k r = (rol (a + f + x + k) r + e, rol c 10)"

text \<open>\<open>R11\<close> to \<open>R51\<close> of the left line and \<open>R12\<close> to \<open>R52\<close> of the right line, by the number of the group of sixteen rounds.\<close>

definition rmd_R1 :: "nat \<Rightarrow> u32 \<Rightarrow> u32 \<Rightarrow> u32 \<Rightarrow> u32 \<Rightarrow> u32 \<Rightarrow> u32 \<Rightarrow> nat \<Rightarrow> u32 \<times> u32" where
  "rmd_R1 n a b c d e x r =
     (if n = 0 then rmd_Round a b c d e (rmd_f1 b c d) x 0 r
      else if n = 1 then rmd_Round a b c d e (rmd_f2 b c d) x 0x5A827999 r
      else if n = 2 then rmd_Round a b c d e (rmd_f3 b c d) x 0x6ED9EBA1 r
      else if n = 3 then rmd_Round a b c d e (rmd_f4 b c d) x 0x8F1BBCDC r
      else rmd_Round a b c d e (rmd_f5 b c d) x 0xA953FD4E r)"

definition rmd_R2 :: "nat \<Rightarrow> u32 \<Rightarrow> u32 \<Rightarrow> u32 \<Rightarrow> u32 \<Rightarrow> u32 \<Rightarrow> u32 \<Rightarrow> nat \<Rightarrow> u32 \<times> u32" where
  "rmd_R2 n a b c d e x r =
     (if n = 0 then rmd_Round a b c d e (rmd_f5 b c d) x 0x50A28BE6 r
      else if n = 1 then rmd_Round a b c d e (rmd_f4 b c d) x 0x5C4DD124 r
      else if n = 2 then rmd_Round a b c d e (rmd_f3 b c d) x 0x6D703EF3 r
      else if n = 3 then rmd_Round a b c d e (rmd_f2 b c d) x 0x7A6D76E9 r
      else rmd_Round a b c d e (rmd_f1 b c d) x 0 r)"

definition rmd_w1 :: "nat list" where
  "rmd_w1 =
     [0, 1, 2, 3, 4, 5, 6, 7, 8, 9, 10, 11, 12, 13, 14, 15,
      7, 4, 13, 1, 10, 6, 15, 3, 12, 0, 9, 5, 2, 14, 11, 8,
      3, 10, 14, 4, 9, 15, 8, 1, 2, 7, 0, 6, 13, 11, 5, 12,
      1, 9, 11, 10, 0, 8, 12, 4, 13, 3, 7, 15, 14, 5, 6, 2,
      4, 0, 5, 9, 7, 12, 2, 10, 14, 1, 3, 8, 11, 6, 15, 13]"

definition rmd_s1 :: "nat list" where
  "rmd_s1 =
     [11, 14, 15, 12, 5, 8, 7, 9, 11, 13, 14, 15, 6, 7, 9, 8,
      7, 6, 8, 13, 11, 9, 7, 15, 7, 12, 15, 9, 11, 7, 13, 12,
      11, 13, 6, 7, 14, 9, 13, 15, 14, 8, 13, 6, 5, 12, 7, 5,
      11, 12, 14, 15, 14, 15, 9, 8, 9, 14, 5, 6, 8, 6, 5, 12,
      9, 15, 5, 11, 6, 8, 13, 12, 5, 12, 13, 14, 11, 8, 5, 6]"

definition rmd_w2 :: "nat list" where
  "rmd_w2 =
     [5, 14, 7, 0, 9, 2, 11, 4, 13, 6, 15, 8, 1, 10, 3, 12,
      6, 11, 3, 7, 0, 13, 5, 10, 14, 15, 8, 12, 4, 9, 1, 2,
      15, 5, 1, 3, 7, 14, 6, 9, 11, 8, 12, 2, 10, 0, 4, 13,
      8, 6, 4, 1, 3, 11, 15, 0, 5, 12, 2, 13, 9, 7, 10, 14,
      12, 15, 10, 4, 1, 5, 8, 7, 6, 2, 13, 14, 0, 3, 9, 11]"

definition rmd_s2 :: "nat list" where
  "rmd_s2 =
     [8, 9, 9, 11, 13, 15, 15, 5, 7, 7, 8, 11, 14, 14, 12, 6,
      9, 13, 15, 7, 12, 8, 9, 11, 7, 7, 12, 7, 6, 15, 13, 11,
      9, 7, 15, 11, 8, 6, 6, 14, 12, 13, 5, 14, 13, 13, 7, 5,
      15, 5, 8, 11, 14, 14, 6, 14, 6, 9, 12, 9, 12, 5, 15, 8,
      8, 5, 12, 9, 12, 5, 14, 6, 8, 13, 6, 5, 15, 13, 11, 11]"

definition rmd_call :: "(nat \<Rightarrow> u32 \<Rightarrow> u32 \<Rightarrow> u32 \<Rightarrow> u32 \<Rightarrow> u32 \<Rightarrow> u32 \<Rightarrow> nat \<Rightarrow> u32 \<times> u32) \<Rightarrow> nat \<Rightarrow> u32 \<Rightarrow> nat \<Rightarrow> u32 list \<Rightarrow> u32 list" where
  "rmd_call R i x sh r = (let
     v = (\<lambda>j. r ! reg 5 i j);
     (a, c) = R (i div 16) (v 0) (v 1) (v 2) (v 3) (v 4) x sh
     in r[reg 5 i 0 := a, reg 5 i 2 := c])"

definition rmd_step :: "(nat \<Rightarrow> u32) \<Rightarrow> u32 list \<times> u32 list \<Rightarrow> nat \<Rightarrow> u32 list \<times> u32 list" where
  "rmd_step w r i = (let
     r1 = rmd_call rmd_R1 i (w (rmd_w1 ! i)) (rmd_s1 ! i) (fst r);
     r2 = rmd_call rmd_R2 i (w (rmd_w2 ! i)) (rmd_s2 ! i) (snd r)
     in (r1, r2))"

definition rmd_Transform :: "u32 list \<Rightarrow> bytes \<Rightarrow> u32 list" where
  "rmd_Transform s chunk = (let
     (r1, r2) = foldl (rmd_step (\<lambda>i. ReadLE32 (drop (4 * i) chunk))) (s, s) [0 ..< 80];
     t = s ! 0
     in [s ! 1 + r1 ! 2 + r2 ! 3, s ! 2 + r1 ! 3 + r2 ! 4, s ! 3 + r1 ! 4 + r2 ! 0, s ! 4 + r1 ! 0 + r2 ! 1, t + r1 ! 1 + r2 ! 2])"

definition CRIPEMD160 :: "u32 hasher" where
  "CRIPEMD160 = \<lparr>h_s = rmd_Initialize, h_buf = replicate 64 0, h_bytes = 0\<rparr>"

definition CRIPEMD160_Write :: "u32 hasher \<Rightarrow> bytes \<Rightarrow> u32 hasher" where
  "CRIPEMD160_Write = md_Write 64 rmd_Transform"

definition CRIPEMD160_Finalize :: "u32 hasher \<Rightarrow> bytes" where
  "CRIPEMD160_Finalize h = (let
     pad = 0x80 # replicate 63 0;
     sizedesc = WriteLE64 (push_bit 3 (h_bytes h));
     h = CRIPEMD160_Write h (take (1 + (119 - unat (h_bytes h) mod 64) mod 64) pad);
     h = CRIPEMD160_Write h sizedesc
     in concat (map WriteLE32 (h_s h)))"

definition CRIPEMD160_Reset :: "u32 hasher \<Rightarrow> u32 hasher" where
  "CRIPEMD160_Reset h = h\<lparr>h_bytes := 0, h_s := rmd_Initialize\<rparr>"

section \<open>The specification of RIPEMD-160\<close>

definition rho :: "nat \<Rightarrow> nat" where
  "rho i = [7, 4, 13, 1, 10, 6, 15, 3, 12, 0, 9, 5, 2, 14, 11, 8] ! i"

definition pi_perm :: "nat \<Rightarrow> nat" where
  "pi_perm i = (9 * i + 5) mod 16"

definition left_word :: "nat \<Rightarrow> nat" where
  "left_word j = (rho ^^ (j div 16)) (j mod 16)"

definition right_word :: "nat \<Rightarrow> nat" where
  "right_word j = (rho ^^ (j div 16)) (pi_perm (j mod 16))"

definition round_shift :: "nat \<Rightarrow> nat \<Rightarrow> nat" where
  "round_shift n word =
     [[11, 14, 15, 12, 5, 8, 7, 9, 11, 13, 14, 15, 6, 7, 9, 8],
      [12, 13, 11, 15, 6, 9, 9, 7, 12, 15, 11, 13, 7, 8, 7, 7],
      [13, 15, 14, 11, 7, 7, 6, 8, 13, 14, 13, 12, 5, 5, 6, 9],
      [14, 11, 12, 14, 8, 6, 5, 5, 15, 12, 15, 14, 9, 9, 8, 6],
      [15, 12, 13, 13, 9, 5, 8, 6, 14, 11, 12, 11, 8, 6, 5, 5]] ! n ! word"

definition spec_f :: "nat \<Rightarrow> u32 \<Rightarrow> u32 \<Rightarrow> u32 \<Rightarrow> u32" where
  "spec_f n x y z = [x XOR y XOR z, (x AND y) OR (NOT x AND z), (x OR NOT y) XOR z, (x AND z) OR (y AND NOT z), x XOR (y OR NOT z)] ! n"

fun spec_step :: "(nat \<Rightarrow> u32 \<Rightarrow> u32 \<Rightarrow> u32 \<Rightarrow> u32) \<Rightarrow> (nat \<Rightarrow> u32) \<Rightarrow> (nat \<Rightarrow> nat) \<Rightarrow> (nat \<Rightarrow> u32) \<Rightarrow> u32 list \<Rightarrow> nat \<Rightarrow> u32 list" where
  "spec_step f K word X [A, B, C, D, E] j =
     [E, word_rotl (round_shift (j div 16) (word j)) (A + f (j div 16) B C D + X (word j) + K (j div 16)) + E,
      B, word_rotl 10 C, D]"
| "spec_step _ _ _ _ vs _ = vs"

definition left_K :: "nat \<Rightarrow> u32" where
  "left_K n = [0, 0x5A827999, 0x6ED9EBA1, 0x8F1BBCDC, 0xA953FD4E] ! n"

definition right_K :: "nat \<Rightarrow> u32" where
  "right_K n = [0x50A28BE6, 0x5C4DD124, 0x6D703EF3, 0x7A6D76E9, 0] ! n"

definition left_line :: "u32 list \<Rightarrow> (nat \<Rightarrow> u32) \<Rightarrow> nat \<Rightarrow> u32 list" where
  "left_line h X n = foldl (spec_step spec_f left_K left_word X) h [0 ..< n]"

definition right_line :: "u32 list \<Rightarrow> (nat \<Rightarrow> u32) \<Rightarrow> nat \<Rightarrow> u32 list" where
  "right_line h X n = foldl (spec_step (\<lambda>n. spec_f (4 - n)) right_K right_word X) h [0 ..< n]"

definition spec_block :: "u32 list \<Rightarrow> bytes \<Rightarrow> u32 list" where
  "spec_block h block = (let X = (\<lambda>i. ReadLE32 (drop (4 * i) block)) in
     map (\<lambda>j. h ! ((j + 1) mod 5) + left_line h X 80 ! ((j + 2) mod 5) + right_line h X 80 ! ((j + 3) mod 5)) [0 ..< 5])"

definition spec_pad :: "bytes \<Rightarrow> bytes" where
  "spec_pad m = 0x80 # replicate (nat ((55 - int (length m)) mod 64)) 0 @ WriteLE64 (of_nat (8 * length m))"

text \<open>The initial value spells the nibbles 0 to f upwards and downwards, read as little-endian words.\<close>

definition spec_h :: "u32 list" where
  "spec_h = map (\<lambda>j. ReadLE32 (drop (4 * j) [0x01, 0x23, 0x45, 0x67, 0x89, 0xAB, 0xCD, 0xEF, 0xFE, 0xDC, 0xBA, 0x98, 0x76, 0x54, 0x32, 0x10, 0xF0, 0xE1, 0xD2, 0xC3]))
     [0 ..< 5]"

definition ripemd160 :: "bytes \<Rightarrow> bytes" where
  "ripemd160 m = concat (map WriteLE32 (process 64 spec_block spec_h (m @ spec_pad m)))"

section \<open>The transformation agrees\<close>

lemma all_less_80: "(\<forall>j < 80. P j) \<longleftrightarrow> list_all P [0 ..< 80]"
  by (auto simp: list_all_iff)

lemma tables:
  "\<forall>j < 80. rmd_w1 ! j = left_word j \<and> rmd_s1 ! j = round_shift (j div 16) (left_word j) \<and>
     rmd_w2 ! j = right_word j \<and> rmd_s2 ! j = round_shift (j div 16) (right_word j)"
  "\<forall>j < 80. 0 < rmd_s1 ! j \<and> rmd_s1 ! j < 32 \<and> 0 < rmd_s2 ! j \<and> rmd_s2 ! j < 32"
  unfolding all_less_80 by code_simp+

lemma rol_rotl: "0 < n \<Longrightarrow> n < 32 \<Longrightarrow> rol x n = word_rotl n x"
  using rotl_shifts [of n x] by (simp add: rol_def)

lemma rmd_Round_spec:
  "0 < r \<Longrightarrow> r < 32 \<Longrightarrow> rmd_Round a b c d e f x k r = (word_rotl r (a + f + x + k) + e, word_rotl 10 c)"
  by (simp add: rmd_Round_def rol_rotl)

lemma group_cases:
  assumes "n < 5"
  obtains "n = 0" | "n = 1" | "n = 2" | "n = 3" | "n = (4 :: nat)"
  using assms by linarith

lemma rmd_R1_spec:
  assumes "n < 5" "0 < r" "r < 32"
  shows "rmd_R1 n a b c d e x r = (word_rotl r (a + spec_f n b c d + x + left_K n) + e, word_rotl 10 c)"
  by (rule group_cases [OF assms(1)]) (simp_all add: rmd_R1_def rmd_Round_spec assms spec_f_def left_K_def
      rmd_f1_def rmd_f2_def rmd_f3_def rmd_f4_def rmd_f5_def)

lemma rmd_R2_spec:
  assumes "n < 5" "0 < r" "r < 32"
  shows "rmd_R2 n a b c d e x r = (word_rotl r (a + spec_f (4 - n) b c d + x + right_K n) + e, word_rotl 10 c)"
  by (rule group_cases [OF assms(1)]) (simp_all add: rmd_R2_def rmd_Round_spec assms spec_f_def right_K_def
      rmd_f1_def rmd_f2_def rmd_f3_def rmd_f4_def rmd_f5_def)

lemma rmd_role_view_step:
  assumes "length r = 5"
  shows "role_view 5 (Suc i) (r[reg 5 i 0 := a, reg 5 i 2 := c]) = [r ! reg 5 i 4, a, r ! reg 5 i 1, c, r ! reg 5 i 3]"
  using assms by (simp add: role_view_def upt_5 reg_Suc reg_Suc_numeral nth_list_update reg_inj)

lemma rmd_call_spec:
  assumes "length r = 5" "R (i div 16) (r ! reg 5 i 0) (r ! reg 5 i 1) (r ! reg 5 i 2) (r ! reg 5 i 3) (r ! reg 5 i 4) (X (word i)) sh =
      (word_rotl (round_shift (i div 16) (word i)) (r ! reg 5 i 0 + f (i div 16) (r ! reg 5 i 1) (r ! reg 5 i 2) (r ! reg 5 i 3)
         + X (word i) + K (i div 16)) + r ! reg 5 i 4, word_rotl 10 (r ! reg 5 i 2))"
  shows "role_view 5 (Suc i) (rmd_call R i (X (word i)) sh r) = spec_step f K word X (role_view 5 i r) i"
    "length (rmd_call R i (X (word i)) sh r) = 5"
proof -
  have "role_view 5 i r = [r ! reg 5 i 0, r ! reg 5 i 1, r ! reg 5 i 2, r ! reg 5 i 3, r ! reg 5 i 4]"
    by (simp add: role_view_def upt_5)
  then show "role_view 5 (Suc i) (rmd_call R i (X (word i)) sh r) = spec_step f K word X (role_view 5 i r) i"
    "length (rmd_call R i (X (word i)) sh r) = 5"
    using assms by (simp_all add: rmd_call_def rmd_role_view_step)
qed

lemma rmd_rounds_spec:
  assumes "length s = 5" "n \<le> 80"
  shows "\<exists>r1 r2. foldl (rmd_step X) (s, s) [0 ..< n] = (r1, r2) \<and> length r1 = 5 \<and> length r2 = 5 \<and>
    role_view 5 n r1 = left_line s X n \<and> role_view 5 n r2 = right_line s X n"
  using assms(2)
proof (induction n)
  case 0
  then show ?case using assms(1) by (simp add: left_line_def right_line_def role_view_period [of _ 5 0])
next
  case (Suc n)
  then obtain r1 r2 where *: "foldl (rmd_step X) (s, s) [0 ..< n] = (r1, r2)" "length r1 = 5" "length r2 = 5"
    "role_view 5 n r1 = left_line s X n" "role_view 5 n r2 = right_line s X n" by auto
  have n: "n < 80" "n div 16 < 5" using Suc.prems by (auto simp: less_mult_imp_div_less)
  have t: "rmd_w1 ! n = left_word n" "rmd_s1 ! n = round_shift (n div 16) (left_word n)"
    "rmd_w2 ! n = right_word n" "rmd_s2 ! n = round_shift (n div 16) (right_word n)"
    "0 < rmd_s1 ! n" "rmd_s1 ! n < 32" "0 < rmd_s2 ! n" "rmd_s2 ! n < 32"
    using tables n(1) by blast+
  have "role_view 5 (Suc n) (rmd_call rmd_R1 n (X (left_word n)) (rmd_s1 ! n) r1) = left_line s X (Suc n)"
    "length (rmd_call rmd_R1 n (X (left_word n)) (rmd_s1 ! n) r1) = 5"
    using rmd_call_spec [of r1 rmd_R1 n X left_word "rmd_s1 ! n" spec_f left_K] * rmd_R1_spec [OF n(2) t(5,6)] t(2)
    by (simp_all add: left_line_def)
  moreover have "role_view 5 (Suc n) (rmd_call rmd_R2 n (X (right_word n)) (rmd_s2 ! n) r2) = right_line s X (Suc n)"
    "length (rmd_call rmd_R2 n (X (right_word n)) (rmd_s2 ! n) r2) = 5"
    using rmd_call_spec [of r2 rmd_R2 n X right_word "rmd_s2 ! n" "\<lambda>n. spec_f (4 - n)" right_K] * rmd_R2_spec [OF n(2) t(7,8)] t(4)
    by (simp_all add: right_line_def)
  moreover have "foldl (rmd_step X) (s, s) [0 ..< Suc n] =
      (rmd_call rmd_R1 n (X (left_word n)) (rmd_s1 ! n) r1, rmd_call rmd_R2 n (X (right_word n)) (rmd_s2 ! n) r2)"
    using *(1) t(1,3) by (simp add: rmd_step_def [of X "(r1, r2)" n])
  ultimately show ?case by blast
qed

lemma rmd_Transform_spec:
  assumes "length s = 5"
  shows "rmd_Transform s chunk = spec_block s chunk" "length (rmd_Transform s chunk) = 5"
proof -
  define X where "X = (\<lambda>i. ReadLE32 (drop (4 * i) chunk))"
  obtain r1 r2 where "foldl (rmd_step X) (s, s) [0 ..< 80] = (r1, r2)" "length r1 = 5" "length r2 = 5"
    "role_view 5 80 r1 = left_line s X 80" "role_view 5 80 r2 = right_line s X 80"
    using rmd_rounds_spec [OF assms, of 80 X] by auto
  then show "rmd_Transform s chunk = spec_block s chunk" "length (rmd_Transform s chunk) = 5"
    using role_view_period [of r1 5 80] role_view_period [of r2 5 80]
    by (simp_all add: rmd_Transform_def spec_block_def Let_def upt_5 numeral_2_eq_2 flip: X_def)
qed

section \<open>The hasher\<close>

interpretation rmd_blocks: block_hash 64 rmd_Transform
  by unfold_locales simp

lemma rmd_Initialize_spec: "spec_h = rmd_Initialize"
  by code_simp

lemma process_rmd:
  "process 64 rmd_Transform rmd_Initialize m = process 64 spec_block rmd_Initialize m"
  "length (process 64 spec_block rmd_Initialize m) = 5"
  using process_cong_length [of 5 rmd_Transform spec_block rmd_Initialize 64 m] rmd_Transform_spec
  by (simp_all add: rmd_Initialize_def)

lemma CRIPEMD160_writes: "absorbed 64 rmd_Transform rmd_Initialize (concat ms) (foldl CRIPEMD160_Write CRIPEMD160 ms)"
  using rmd_blocks.writes_absorb [of rmd_Initialize "[]" CRIPEMD160 ms]
  by (simp add: CRIPEMD160_Write_def CRIPEMD160_def absorbed_def whole_def)

lemma CRIPEMD160_Finalize_absorbed:
  assumes "absorbed 64 rmd_Transform rmd_Initialize m h"
  shows "CRIPEMD160_Finalize h = ripemd160 m"
proof -
  have n: "h_bytes h = of_nat (length m)" using assms by (simp add: absorbed_def)
  have pad: "take (1 + (119 - unat (h_bytes h) mod 64) mod 64) (0x80 # replicate 63 0) @ WriteLE64 (push_bit 3 (h_bytes h)) = spec_pad m"
    using pad_length [of 64 55 "length m"] by (simp add: n spec_pad_def rmd_blocks.buffered push_bit_3_of_nat)
  have "h_s (CRIPEMD160_Write (CRIPEMD160_Write h (take (1 + (119 - unat (h_bytes h) mod 64) mod 64) (0x80 # replicate 63 0)))
        (WriteLE64 (push_bit 3 (h_bytes h)))) = process 64 rmd_Transform rmd_Initialize (m @ spec_pad m)"
    using rmd_blocks.md_Write_absorbs [OF rmd_blocks.md_Write_absorbs [OF assms]]
    unfolding CRIPEMD160_Write_def absorbed_def pad [symmetric] by simp
  then show ?thesis by (simp add: CRIPEMD160_Finalize_def Let_def ripemd160_def process_rmd rmd_Initialize_spec)
qed

interpretation rmd: stream_hash CRIPEMD160 CRIPEMD160_Write CRIPEMD160_Finalize ripemd160 20
  by unfold_locales (simp_all add: CRIPEMD160_Finalize_absorbed [OF CRIPEMD160_writes] ripemd160_def length_concat_Write process_rmd rmd_Initialize_spec)

end
