(* ===== verification/Hash.thy ===== *)
theory Hash
  imports Sha2 Sha1 Ripemd160
begin

unbundle bit_operations_syntax

text \<open>
  The hashes built from the basic ones: \<^verbatim>\<open>hash.h\<close> (double SHA-256, and RIPEMD-160 of SHA-256), \<^verbatim>\<open>hash.cpp\<close>
  (MurmurHash3, the key-derivation hash of BIP 32) and \<^verbatim>\<open>crypto/hmac_sha256.cpp\<close>, \<^verbatim>\<open>hmac_sha512.cpp\<close>, whose two classes
  have one text up to the block and output sizes. A pointer and a length are a list; \<open>Hash\<close> of two or three ranges
  writes them one after another.
\<close>

section \<open>The code\<close>

text \<open>
  \<open>Finalize\<close> of \<open>CHash256\<close> resets and reuses its inner hasher; of the state that padding leaves behind, \<open>Reset\<close> keeps
  only the buffer, whose contents are not read before they are overwritten.
\<close>

definition CHash256 :: "u32 hasher" where
  "CHash256 = CSHA256"

definition CHash256_Write :: "u32 hasher \<Rightarrow> bytes \<Rightarrow> u32 hasher" where
  "CHash256_Write sha data = CSHA256_Write sha data"

definition CHash256_Finalize :: "u32 hasher \<Rightarrow> bytes" where
  "CHash256_Finalize sha = (let buf = CSHA256_Finalize sha in CSHA256_Finalize (CSHA256_Write (CSHA256_Reset sha) buf))"

definition CHash160 :: "u32 hasher" where
  "CHash160 = CSHA256"

definition CHash160_Write :: "u32 hasher \<Rightarrow> bytes \<Rightarrow> u32 hasher" where
  "CHash160_Write sha data = CSHA256_Write sha data"

definition CHash160_Finalize :: "u32 hasher \<Rightarrow> bytes" where
  "CHash160_Finalize sha = (let buf = CSHA256_Finalize sha in CRIPEMD160_Finalize (CRIPEMD160_Write CRIPEMD160 buf))"

definition Hash1 :: "bytes \<Rightarrow> bytes" where
  "Hash1 p = CHash256_Finalize (CHash256_Write CHash256 p)"

definition Hash2 :: "bytes \<Rightarrow> bytes \<Rightarrow> bytes" where
  "Hash2 p1 p2 = CHash256_Finalize (CHash256_Write (CHash256_Write CHash256 p1) p2)"

definition Hash3 :: "bytes \<Rightarrow> bytes \<Rightarrow> bytes \<Rightarrow> bytes" where
  "Hash3 p1 p2 p3 = CHash256_Finalize (CHash256_Write (CHash256_Write (CHash256_Write CHash256 p1) p2) p3)"

definition Hash160 :: "bytes \<Rightarrow> bytes" where
  "Hash160 p = CHash160_Finalize (CHash160_Write CHash160 p)"

record 'w hmac =
  hm_outer :: "'w hasher"
  hm_inner :: "'w hasher"

definition hmac_new :: "nat \<Rightarrow> nat \<Rightarrow> 'w hasher \<Rightarrow> ('w hasher \<Rightarrow> bytes \<Rightarrow> 'w hasher) \<Rightarrow> ('w hasher \<Rightarrow> bytes) \<Rightarrow> bytes \<Rightarrow> 'w hmac" where
  "hmac_new block outsize init put fin key = (let
     rkey = (if length key \<le> block then key @ replicate (block - length key) 0
             else fin (put init key) @ replicate (block - outsize) 0);
     rkey = map (\<lambda>b. b XOR 0x5c) rkey;
     outer = put init rkey;
     rkey = map (\<lambda>b. b XOR (0x5c XOR 0x36)) rkey;
     inner = put init rkey
     in \<lparr>hm_outer = outer, hm_inner = inner\<rparr>)"

definition hmac_write :: "('w hasher \<Rightarrow> bytes \<Rightarrow> 'w hasher) \<Rightarrow> 'w hmac \<Rightarrow> bytes \<Rightarrow> 'w hmac" where
  "hmac_write put h data = h\<lparr>hm_inner := put (hm_inner h) data\<rparr>"

definition hmac_finalize :: "('w hasher \<Rightarrow> bytes \<Rightarrow> 'w hasher) \<Rightarrow> ('w hasher \<Rightarrow> bytes) \<Rightarrow> 'w hmac \<Rightarrow> bytes" where
  "hmac_finalize put fin h = fin (put (hm_outer h) (fin (hm_inner h)))"

definition CHMAC_SHA256 :: "bytes \<Rightarrow> u32 hmac" where
  "CHMAC_SHA256 = hmac_new 64 32 CSHA256 CSHA256_Write CSHA256_Finalize"

definition CHMAC_SHA256_Write :: "u32 hmac \<Rightarrow> bytes \<Rightarrow> u32 hmac" where
  "CHMAC_SHA256_Write = hmac_write CSHA256_Write"

definition CHMAC_SHA256_Finalize :: "u32 hmac \<Rightarrow> bytes" where
  "CHMAC_SHA256_Finalize = hmac_finalize CSHA256_Write CSHA256_Finalize"

definition CHMAC_SHA512 :: "bytes \<Rightarrow> u64 hmac" where
  "CHMAC_SHA512 = hmac_new 128 64 CSHA512 CSHA512_Write CSHA512_Finalize"

definition CHMAC_SHA512_Write :: "u64 hmac \<Rightarrow> bytes \<Rightarrow> u64 hmac" where
  "CHMAC_SHA512_Write = hmac_write CSHA512_Write"

definition CHMAC_SHA512_Finalize :: "u64 hmac \<Rightarrow> bytes" where
  "CHMAC_SHA512_Finalize = hmac_finalize CSHA512_Write CSHA512_Finalize"

definition BIP32Hash :: "bytes \<Rightarrow> u32 \<Rightarrow> u8 \<Rightarrow> bytes \<Rightarrow> bytes" where
  "BIP32Hash chainCode nChild header data = (let
     num = [ucast (drop_bit 24 nChild AND 0xFF), ucast (drop_bit 16 nChild AND 0xFF),
            ucast (drop_bit 8 nChild AND 0xFF), ucast (nChild AND 0xFF)];
     h = CHMAC_SHA512 chainCode;
     h = CHMAC_SHA512_Write h [header];
     h = CHMAC_SHA512_Write h data;
     h = CHMAC_SHA512_Write h num
     in CHMAC_SHA512_Finalize h)"

definition ROTL32 :: "u32 \<Rightarrow> nat \<Rightarrow> u32" where
  "ROTL32 x r = push_bit r x OR drop_bit (32 - r) x"

definition murmur_block :: "bytes \<Rightarrow> u32 \<Rightarrow> nat \<Rightarrow> u32" where
  "murmur_block data h1 i = (let
     k1 = ReadLE32 (drop (4 * i) data);
     k1 = k1 * 0xcc9e2d51;
     k1 = ROTL32 k1 15;
     k1 = k1 * 0x1b873593;
     h1 = h1 XOR k1;
     h1 = ROTL32 h1 13
     in h1 * 5 + 0xe6546b64)"

definition MurmurHash3 :: "u32 \<Rightarrow> bytes \<Rightarrow> u32" where
  "MurmurHash3 nHashSeed vDataToHash = (let
     h1 = nHashSeed;
     h1 = (if vDataToHash \<noteq> [] then
       let nblocks = length vDataToHash div 4;
           h1 = foldl (murmur_block vDataToHash) h1 [0 ..< nblocks];
           tail = drop (nblocks * 4) vDataToHash;
           rem = length vDataToHash mod 4;
           k1 = 0;
           k1 = (if rem = 3 then k1 XOR push_bit 16 (ucast (tail ! 2)) else k1);
           k1 = (if 2 \<le> rem then k1 XOR push_bit 8 (ucast (tail ! 1)) else k1)
       in if 1 \<le> rem then
            let k1 = k1 XOR ucast (tail ! 0); k1 = k1 * 0xcc9e2d51; k1 = ROTL32 k1 15; k1 = k1 * 0x1b873593 in h1 XOR k1
          else h1
       else h1);
     h1 = h1 XOR of_nat (length vDataToHash);
     h1 = h1 XOR drop_bit 16 h1;
     h1 = h1 * 0x85ebca6b;
     h1 = h1 XOR drop_bit 13 h1;
     h1 = h1 * 0xc2b2ae35
     in h1 XOR drop_bit 16 h1)"

section \<open>HMAC over any hasher\<close>

text \<open>RFC 2104: the key, hashed if it is longer than a block, is padded with zeros to a block.\<close>

definition hmac_key :: "nat \<Rightarrow> (bytes \<Rightarrow> bytes) \<Rightarrow> bytes \<Rightarrow> bytes" where
  "hmac_key block H key = (let k = (if length key \<le> block then key else H key) in k @ replicate (block - length k) 0)"

definition hmac_spec :: "nat \<Rightarrow> (bytes \<Rightarrow> bytes) \<Rightarrow> bytes \<Rightarrow> bytes \<Rightarrow> bytes" where
  "hmac_spec block H key m = H (map (\<lambda>b. b XOR 0x5c) (hmac_key block H key) @
     H (map (\<lambda>b. b XOR 0x36) (hmac_key block H key) @ m))"

lemma xor_cancel: "(b XOR x) XOR (x XOR y) = b XOR y" for b x y :: "'a::len word"
  by (rule bit_word_eqI) (auto simp: bit_xor_iff)

locale hmac_hash = stream_hash init put finalize digest size
  for init :: "'w hasher" and put and finalize and digest and size +
  fixes block :: nat
begin

lemma hmac_correct:
  "hmac_finalize put finalize (foldl (hmac_write put) (hmac_new block size init put finalize key) ms)
   = hmac_spec block digest key (concat ms)"
proof -
  let ?k = "hmac_key block digest key"
  have new: "hmac_new block size init put finalize key =
      \<lparr>hm_outer = put init (map (\<lambda>b. b XOR 0x5c) ?k), hm_inner = put init (map (\<lambda>b. b XOR 0x36) ?k)\<rparr>"
    unfolding hmac_new_def Let_def map_map o_def xor_cancel
    by (simp add: hmac_key_def Let_def finalize_write length_digest)
  have writes: "foldl (hmac_write put) h ms = h\<lparr>hm_inner := foldl put (hm_inner h) ms\<rparr>" for h
    by (induction ms arbitrary: h) (simp_all add: hmac_write_def)
  have "finalize (foldl put (put init a) ms) = digest (a @ concat ms)" for a
    using finalize_writes [of "a # ms"] by simp
  then show ?thesis
    by (simp add: new writes hmac_finalize_def hmac_spec_def finalize_write2)
qed

end

interpretation hmac256: hmac_hash CSHA256 CSHA256_Write CSHA256_Finalize fips_sha256 32 64
  by unfold_locales

interpretation hmac512: hmac_hash CSHA512 CSHA512_Write CSHA512_Finalize fips_sha512 64 128
  by unfold_locales

section \<open>Double hashes\<close>

lemma CHash256_writes:
  "CHash256_Finalize (foldl CHash256_Write CHash256 ms) = fips_sha256 (fips_sha256 (concat ms))"
proof -
  have "CHash256_Write = CSHA256_Write" by (intro ext) (simp add: CHash256_Write_def)
  then show ?thesis
    using CSHA256_Reset_writes [OF CSHA256_writes, of ms "[fips_sha256 (concat ms)]"]
    by (simp add: CHash256_Finalize_def CHash256_def sha256.finalize_writes)
qed

lemma CHash160_writes:
  "CHash160_Finalize (foldl CHash160_Write CHash160 ms) = ripemd160 (fips_sha256 (concat ms))"
proof -
  have "CHash160_Write = CSHA256_Write" by (intro ext) (simp add: CHash160_Write_def)
  then show ?thesis
    by (simp add: CHash160_Finalize_def CHash160_def sha256.finalize_writes rmd.finalize_write)
qed

interpretation hash256: stream_hash CHash256 CHash256_Write CHash256_Finalize "\<lambda>m. fips_sha256 (fips_sha256 m)" 32
  by unfold_locales (simp_all add: CHash256_writes sha256.length_digest)

interpretation hash160: stream_hash CHash160 CHash160_Write CHash160_Finalize "\<lambda>m. ripemd160 (fips_sha256 m)" 20
  by unfold_locales (simp_all add: CHash160_writes rmd.length_digest)

lemma Hash_eq:
  "Hash1 a = fips_sha256 (fips_sha256 a)"
  "Hash2 a b = fips_sha256 (fips_sha256 (a @ b))"
  "Hash3 a b c = fips_sha256 (fips_sha256 (a @ b @ c))"
  "Hash160 a = ripemd160 (fips_sha256 a)"
  using hash256.finalize_writes [of "[a, b, c]"]
  by (simp_all add: Hash1_def Hash2_def Hash3_def Hash160_def hash256.finalize_write hash256.finalize_write2 hash160.finalize_write)

lemma length_Hash [simp]:
  "length (Hash1 a) = 32" "length (Hash2 a b) = 32" "length (Hash3 a b c) = 32" "length (Hash160 a) = 20"
  by (simp_all add: Hash_eq sha256.length_digest rmd.length_digest)

lemma ucast_mask_byte: "ucast (x AND 0xFF :: u32) = (ucast x :: u8)"
proof -
  have m: "(0xFF :: u32) = mask 8" by (simp add: mask_eq_exp_minus_1)
  show ?thesis
    unfolding m by (rule bit_word_eqI) (simp add: bit_ucast_iff bit_and_iff bit_mask_iff)
qed

lemma BIP32Hash_eq:
  "BIP32Hash chainCode nChild header data = hmac_spec 128 fips_sha512 chainCode (header # data @ WriteBE32 nChild)"
proof -
  have "[ucast (drop_bit 24 nChild AND 0xFF), ucast (drop_bit 16 nChild AND 0xFF),
      ucast (drop_bit 8 nChild AND 0xFF), ucast (nChild AND 0xFF)] = WriteBE32 nChild"
    unfolding ucast_mask_byte by (simp add: WriteBE32_def WriteLE32_def)
  then show ?thesis
    using hmac512.hmac_correct [of chainCode "[[header], data, WriteBE32 nChild]"]
    by (simp add: BIP32Hash_def CHMAC_SHA512_def CHMAC_SHA512_Write_def CHMAC_SHA512_Finalize_def Let_def)
qed

section \<open>Properties\<close>

text \<open>C36: SHA-1 and RIPEMD-160, the two other hashes of the script machine, are the standard functions of the concatenation
  of everything written: the unrolled rounds with rotating register names, for RIPEMD-160 in two interleaved
  lines driven by tables, the buffering and the padding agree with FIPS 180-4 and the description of RIPEMD-160.\<close>

theorem sha1_and_ripemd160_compute_standards:
  "CSHA1_Finalize (foldl CSHA1_Write CSHA1 ms) = fips_sha1 (concat ms) \<and>
   CRIPEMD160_Finalize (foldl CRIPEMD160_Write CRIPEMD160 ms) = ripemd160 (concat ms)"
  by (simp add: sha1.finalize_writes rmd.finalize_writes)

text \<open>C37: The derived hashes: \<open>Hash\<close> of one, two or three ranges is SHA-256 twice of their concatenation, \<open>Hash160\<close> is RIPEMD-160 of
  SHA-256, both HMAC classes compute RFC 2104 for every key length and every way of writing the message, and the
  derivation hash of BIP 32 is HMAC-SHA512 of the header byte, the data and the big-endian child number.\<close>

theorem derived_hashes_compute_standards:
  "Hash1 a = fips_sha256 (fips_sha256 a) \<and> Hash2 a b = Hash1 (a @ b) \<and> Hash3 a b c = Hash1 (a @ b @ c) \<and>
   Hash160 a = ripemd160 (fips_sha256 a) \<and>
   CHMAC_SHA256_Finalize (foldl CHMAC_SHA256_Write (CHMAC_SHA256 key) ms) = hmac_spec 64 fips_sha256 key (concat ms) \<and>
   CHMAC_SHA512_Finalize (foldl CHMAC_SHA512_Write (CHMAC_SHA512 key) ms) = hmac_spec 128 fips_sha512 key (concat ms) \<and>
   BIP32Hash chainCode nChild header data = hmac_spec 128 fips_sha512 chainCode (header # data @ WriteBE32 nChild)"
  using hmac256.hmac_correct [of key ms] hmac512.hmac_correct [of key ms]
  by (simp add: Hash_eq BIP32Hash_eq CHMAC_SHA256_def CHMAC_SHA256_Write_def CHMAC_SHA256_Finalize_def
      CHMAC_SHA512_def CHMAC_SHA512_Write_def CHMAC_SHA512_Finalize_def)

end
