(* ===== verification/Script.thy ===== *)
theory Script
  imports Hash
begin

unbundle bit_operations_syntax

text \<open>
  Scripts (\<^verbatim>\<open>script/script.h\<close>, \<^verbatim>\<open>script/script.cpp\<close>): opcodes, the numbers of the script machine, pushing data, reading the
  next instruction, counting signature operations and recognising the standard patterns.

  A \<open>CScript\<close> is its list of bytes. An iterator into a script is the list of the bytes from there to the end, so that an
  iterator at the end is the empty list. An opcode is its code; \<open>CScriptNum\<close> is the integer it holds, which
  stays far inside \<open>int64_t\<close> because operands have at most five bytes.
\<close>

section \<open>Opcodes\<close>

type_synonym CScript = bytes
type_synonym opcodetype = nat
type_synonym CScriptNum = int

abbreviation (input) OP_0 :: opcodetype where "OP_0 \<equiv> 0x00"
abbreviation (input) OP_FALSE :: opcodetype where "OP_FALSE \<equiv> OP_0"
abbreviation (input) OP_PUSHDATA1 :: opcodetype where "OP_PUSHDATA1 \<equiv> 0x4c"
abbreviation (input) OP_PUSHDATA2 :: opcodetype where "OP_PUSHDATA2 \<equiv> 0x4d"
abbreviation (input) OP_PUSHDATA4 :: opcodetype where "OP_PUSHDATA4 \<equiv> 0x4e"
abbreviation (input) OP_1NEGATE :: opcodetype where "OP_1NEGATE \<equiv> 0x4f"
abbreviation (input) OP_RESERVED :: opcodetype where "OP_RESERVED \<equiv> 0x50"
abbreviation (input) OP_1 :: opcodetype where "OP_1 \<equiv> 0x51"
abbreviation (input) OP_TRUE :: opcodetype where "OP_TRUE \<equiv> OP_1"
abbreviation (input) OP_2 :: opcodetype where "OP_2 \<equiv> 0x52"
abbreviation (input) OP_3 :: opcodetype where "OP_3 \<equiv> 0x53"
abbreviation (input) OP_4 :: opcodetype where "OP_4 \<equiv> 0x54"
abbreviation (input) OP_5 :: opcodetype where "OP_5 \<equiv> 0x55"
abbreviation (input) OP_6 :: opcodetype where "OP_6 \<equiv> 0x56"
abbreviation (input) OP_7 :: opcodetype where "OP_7 \<equiv> 0x57"
abbreviation (input) OP_8 :: opcodetype where "OP_8 \<equiv> 0x58"
abbreviation (input) OP_9 :: opcodetype where "OP_9 \<equiv> 0x59"
abbreviation (input) OP_10 :: opcodetype where "OP_10 \<equiv> 0x5a"
abbreviation (input) OP_11 :: opcodetype where "OP_11 \<equiv> 0x5b"
abbreviation (input) OP_12 :: opcodetype where "OP_12 \<equiv> 0x5c"
abbreviation (input) OP_13 :: opcodetype where "OP_13 \<equiv> 0x5d"
abbreviation (input) OP_14 :: opcodetype where "OP_14 \<equiv> 0x5e"
abbreviation (input) OP_15 :: opcodetype where "OP_15 \<equiv> 0x5f"
abbreviation (input) OP_16 :: opcodetype where "OP_16 \<equiv> 0x60"
abbreviation (input) OP_NOP :: opcodetype where "OP_NOP \<equiv> 0x61"
abbreviation (input) OP_VER :: opcodetype where "OP_VER \<equiv> 0x62"
abbreviation (input) OP_IF :: opcodetype where "OP_IF \<equiv> 0x63"
abbreviation (input) OP_NOTIF :: opcodetype where "OP_NOTIF \<equiv> 0x64"
abbreviation (input) OP_VERIF :: opcodetype where "OP_VERIF \<equiv> 0x65"
abbreviation (input) OP_VERNOTIF :: opcodetype where "OP_VERNOTIF \<equiv> 0x66"
abbreviation (input) OP_ELSE :: opcodetype where "OP_ELSE \<equiv> 0x67"
abbreviation (input) OP_ENDIF :: opcodetype where "OP_ENDIF \<equiv> 0x68"
abbreviation (input) OP_VERIFY :: opcodetype where "OP_VERIFY \<equiv> 0x69"
abbreviation (input) OP_RETURN :: opcodetype where "OP_RETURN \<equiv> 0x6a"
abbreviation (input) OP_TOALTSTACK :: opcodetype where "OP_TOALTSTACK \<equiv> 0x6b"
abbreviation (input) OP_FROMALTSTACK :: opcodetype where "OP_FROMALTSTACK \<equiv> 0x6c"
abbreviation (input) OP_2DROP :: opcodetype where "OP_2DROP \<equiv> 0x6d"
abbreviation (input) OP_2DUP :: opcodetype where "OP_2DUP \<equiv> 0x6e"
abbreviation (input) OP_3DUP :: opcodetype where "OP_3DUP \<equiv> 0x6f"
abbreviation (input) OP_2OVER :: opcodetype where "OP_2OVER \<equiv> 0x70"
abbreviation (input) OP_2ROT :: opcodetype where "OP_2ROT \<equiv> 0x71"
abbreviation (input) OP_2SWAP :: opcodetype where "OP_2SWAP \<equiv> 0x72"
abbreviation (input) OP_IFDUP :: opcodetype where "OP_IFDUP \<equiv> 0x73"
abbreviation (input) OP_DEPTH :: opcodetype where "OP_DEPTH \<equiv> 0x74"
abbreviation (input) OP_DROP :: opcodetype where "OP_DROP \<equiv> 0x75"
abbreviation (input) OP_DUP :: opcodetype where "OP_DUP \<equiv> 0x76"
abbreviation (input) OP_NIP :: opcodetype where "OP_NIP \<equiv> 0x77"
abbreviation (input) OP_OVER :: opcodetype where "OP_OVER \<equiv> 0x78"
abbreviation (input) OP_PICK :: opcodetype where "OP_PICK \<equiv> 0x79"
abbreviation (input) OP_ROLL :: opcodetype where "OP_ROLL \<equiv> 0x7a"
abbreviation (input) OP_ROT :: opcodetype where "OP_ROT \<equiv> 0x7b"
abbreviation (input) OP_SWAP :: opcodetype where "OP_SWAP \<equiv> 0x7c"
abbreviation (input) OP_TUCK :: opcodetype where "OP_TUCK \<equiv> 0x7d"
abbreviation (input) OP_CAT :: opcodetype where "OP_CAT \<equiv> 0x7e"
abbreviation (input) OP_SUBSTR :: opcodetype where "OP_SUBSTR \<equiv> 0x7f"
abbreviation (input) OP_LEFT :: opcodetype where "OP_LEFT \<equiv> 0x80"
abbreviation (input) OP_RIGHT :: opcodetype where "OP_RIGHT \<equiv> 0x81"
abbreviation (input) OP_SIZE :: opcodetype where "OP_SIZE \<equiv> 0x82"
abbreviation (input) OP_INVERT :: opcodetype where "OP_INVERT \<equiv> 0x83"
abbreviation (input) OP_AND :: opcodetype where "OP_AND \<equiv> 0x84"
abbreviation (input) OP_OR :: opcodetype where "OP_OR \<equiv> 0x85"
abbreviation (input) OP_XOR :: opcodetype where "OP_XOR \<equiv> 0x86"
abbreviation (input) OP_EQUAL :: opcodetype where "OP_EQUAL \<equiv> 0x87"
abbreviation (input) OP_EQUALVERIFY :: opcodetype where "OP_EQUALVERIFY \<equiv> 0x88"
abbreviation (input) OP_RESERVED1 :: opcodetype where "OP_RESERVED1 \<equiv> 0x89"
abbreviation (input) OP_RESERVED2 :: opcodetype where "OP_RESERVED2 \<equiv> 0x8a"
abbreviation (input) OP_1ADD :: opcodetype where "OP_1ADD \<equiv> 0x8b"
abbreviation (input) OP_1SUB :: opcodetype where "OP_1SUB \<equiv> 0x8c"
abbreviation (input) OP_2MUL :: opcodetype where "OP_2MUL \<equiv> 0x8d"
abbreviation (input) OP_2DIV :: opcodetype where "OP_2DIV \<equiv> 0x8e"
abbreviation (input) OP_NEGATE :: opcodetype where "OP_NEGATE \<equiv> 0x8f"
abbreviation (input) OP_ABS :: opcodetype where "OP_ABS \<equiv> 0x90"
abbreviation (input) OP_NOT :: opcodetype where "OP_NOT \<equiv> 0x91"
abbreviation (input) OP_0NOTEQUAL :: opcodetype where "OP_0NOTEQUAL \<equiv> 0x92"
abbreviation (input) OP_ADD :: opcodetype where "OP_ADD \<equiv> 0x93"
abbreviation (input) OP_SUB :: opcodetype where "OP_SUB \<equiv> 0x94"
abbreviation (input) OP_MUL :: opcodetype where "OP_MUL \<equiv> 0x95"
abbreviation (input) OP_DIV :: opcodetype where "OP_DIV \<equiv> 0x96"
abbreviation (input) OP_MOD :: opcodetype where "OP_MOD \<equiv> 0x97"
abbreviation (input) OP_LSHIFT :: opcodetype where "OP_LSHIFT \<equiv> 0x98"
abbreviation (input) OP_RSHIFT :: opcodetype where "OP_RSHIFT \<equiv> 0x99"
abbreviation (input) OP_BOOLAND :: opcodetype where "OP_BOOLAND \<equiv> 0x9a"
abbreviation (input) OP_BOOLOR :: opcodetype where "OP_BOOLOR \<equiv> 0x9b"
abbreviation (input) OP_NUMEQUAL :: opcodetype where "OP_NUMEQUAL \<equiv> 0x9c"
abbreviation (input) OP_NUMEQUALVERIFY :: opcodetype where "OP_NUMEQUALVERIFY \<equiv> 0x9d"
abbreviation (input) OP_NUMNOTEQUAL :: opcodetype where "OP_NUMNOTEQUAL \<equiv> 0x9e"
abbreviation (input) OP_LESSTHAN :: opcodetype where "OP_LESSTHAN \<equiv> 0x9f"
abbreviation (input) OP_GREATERTHAN :: opcodetype where "OP_GREATERTHAN \<equiv> 0xa0"
abbreviation (input) OP_LESSTHANOREQUAL :: opcodetype where "OP_LESSTHANOREQUAL \<equiv> 0xa1"
abbreviation (input) OP_GREATERTHANOREQUAL :: opcodetype where "OP_GREATERTHANOREQUAL \<equiv> 0xa2"
abbreviation (input) OP_MIN :: opcodetype where "OP_MIN \<equiv> 0xa3"
abbreviation (input) OP_MAX :: opcodetype where "OP_MAX \<equiv> 0xa4"
abbreviation (input) OP_WITHIN :: opcodetype where "OP_WITHIN \<equiv> 0xa5"
abbreviation (input) OP_RIPEMD160 :: opcodetype where "OP_RIPEMD160 \<equiv> 0xa6"
abbreviation (input) OP_SHA1 :: opcodetype where "OP_SHA1 \<equiv> 0xa7"
abbreviation (input) OP_SHA256 :: opcodetype where "OP_SHA256 \<equiv> 0xa8"
abbreviation (input) OP_HASH160 :: opcodetype where "OP_HASH160 \<equiv> 0xa9"
abbreviation (input) OP_HASH256 :: opcodetype where "OP_HASH256 \<equiv> 0xaa"
abbreviation (input) OP_CODESEPARATOR :: opcodetype where "OP_CODESEPARATOR \<equiv> 0xab"
abbreviation (input) OP_CHECKSIG :: opcodetype where "OP_CHECKSIG \<equiv> 0xac"
abbreviation (input) OP_CHECKSIGVERIFY :: opcodetype where "OP_CHECKSIGVERIFY \<equiv> 0xad"
abbreviation (input) OP_CHECKMULTISIG :: opcodetype where "OP_CHECKMULTISIG \<equiv> 0xae"
abbreviation (input) OP_CHECKMULTISIGVERIFY :: opcodetype where "OP_CHECKMULTISIGVERIFY \<equiv> 0xaf"
abbreviation (input) OP_NOP1 :: opcodetype where "OP_NOP1 \<equiv> 0xb0"
abbreviation (input) OP_NOP2 :: opcodetype where "OP_NOP2 \<equiv> 0xb1"
abbreviation (input) OP_CHECKLOCKTIMEVERIFY :: opcodetype where "OP_CHECKLOCKTIMEVERIFY \<equiv> OP_NOP2"
abbreviation (input) OP_NOP3 :: opcodetype where "OP_NOP3 \<equiv> 0xb2"
abbreviation (input) OP_NOP4 :: opcodetype where "OP_NOP4 \<equiv> 0xb3"
abbreviation (input) OP_NOP5 :: opcodetype where "OP_NOP5 \<equiv> 0xb4"
abbreviation (input) OP_NOP6 :: opcodetype where "OP_NOP6 \<equiv> 0xb5"
abbreviation (input) OP_NOP7 :: opcodetype where "OP_NOP7 \<equiv> 0xb6"
abbreviation (input) OP_NOP8 :: opcodetype where "OP_NOP8 \<equiv> 0xb7"
abbreviation (input) OP_NOP9 :: opcodetype where "OP_NOP9 \<equiv> 0xb8"
abbreviation (input) OP_NOP10 :: opcodetype where "OP_NOP10 \<equiv> 0xb9"
abbreviation (input) OP_SMALLDATA :: opcodetype where "OP_SMALLDATA \<equiv> 0xf9"
abbreviation (input) OP_SMALLINTEGER :: opcodetype where "OP_SMALLINTEGER \<equiv> 0xfa"
abbreviation (input) OP_PUBKEYS :: opcodetype where "OP_PUBKEYS \<equiv> 0xfb"
abbreviation (input) OP_PUBKEYHASH :: opcodetype where "OP_PUBKEYHASH \<equiv> 0xfd"
abbreviation (input) OP_PUBKEY :: opcodetype where "OP_PUBKEY \<equiv> 0xfe"
abbreviation (input) OP_INVALIDOPCODE :: opcodetype where "OP_INVALIDOPCODE \<equiv> 0xff"

definition opcode_names :: "(opcodetype \<times> string) list" where
  "opcode_names =
    [(OP_0, ''0''), (OP_PUSHDATA1, ''OP_PUSHDATA1''), (OP_PUSHDATA2, ''OP_PUSHDATA2''),
     (OP_PUSHDATA4, ''OP_PUSHDATA4''), (OP_1NEGATE, ''-1''), (OP_RESERVED, ''OP_RESERVED''),
     (OP_1, ''1''), (OP_2, ''2''), (OP_3, ''3''), (OP_4, ''4''), (OP_5, ''5''), (OP_6, ''6''),
     (OP_7, ''7''), (OP_8, ''8''), (OP_9, ''9''), (OP_10, ''10''), (OP_11, ''11''), (OP_12, ''12''),
     (OP_13, ''13''), (OP_14, ''14''), (OP_15, ''15''), (OP_16, ''16''), (OP_NOP, ''OP_NOP''),
     (OP_VER, ''OP_VER''), (OP_IF, ''OP_IF''), (OP_NOTIF, ''OP_NOTIF''), (OP_VERIF, ''OP_VERIF''),
     (OP_VERNOTIF, ''OP_VERNOTIF''), (OP_ELSE, ''OP_ELSE''), (OP_ENDIF, ''OP_ENDIF''),
     (OP_VERIFY, ''OP_VERIFY''), (OP_RETURN, ''OP_RETURN''), (OP_TOALTSTACK, ''OP_TOALTSTACK''),
     (OP_FROMALTSTACK, ''OP_FROMALTSTACK''), (OP_2DROP, ''OP_2DROP''), (OP_2DUP, ''OP_2DUP''),
     (OP_3DUP, ''OP_3DUP''), (OP_2OVER, ''OP_2OVER''), (OP_2ROT, ''OP_2ROT''), (OP_2SWAP, ''OP_2SWAP''),
     (OP_IFDUP, ''OP_IFDUP''), (OP_DEPTH, ''OP_DEPTH''), (OP_DROP, ''OP_DROP''), (OP_DUP, ''OP_DUP''),
     (OP_NIP, ''OP_NIP''), (OP_OVER, ''OP_OVER''), (OP_PICK, ''OP_PICK''), (OP_ROLL, ''OP_ROLL''),
     (OP_ROT, ''OP_ROT''), (OP_SWAP, ''OP_SWAP''), (OP_TUCK, ''OP_TUCK''), (OP_CAT, ''OP_CAT''),
     (OP_SUBSTR, ''OP_SUBSTR''), (OP_LEFT, ''OP_LEFT''), (OP_RIGHT, ''OP_RIGHT''),
     (OP_SIZE, ''OP_SIZE''), (OP_INVERT, ''OP_INVERT''), (OP_AND, ''OP_AND''), (OP_OR, ''OP_OR''),
     (OP_XOR, ''OP_XOR''), (OP_EQUAL, ''OP_EQUAL''), (OP_EQUALVERIFY, ''OP_EQUALVERIFY''),
     (OP_RESERVED1, ''OP_RESERVED1''), (OP_RESERVED2, ''OP_RESERVED2''), (OP_1ADD, ''OP_1ADD''),
     (OP_1SUB, ''OP_1SUB''), (OP_2MUL, ''OP_2MUL''), (OP_2DIV, ''OP_2DIV''), (OP_NEGATE, ''OP_NEGATE''),
     (OP_ABS, ''OP_ABS''), (OP_NOT, ''OP_NOT''), (OP_0NOTEQUAL, ''OP_0NOTEQUAL''), (OP_ADD, ''OP_ADD''),
     (OP_SUB, ''OP_SUB''), (OP_MUL, ''OP_MUL''), (OP_DIV, ''OP_DIV''), (OP_MOD, ''OP_MOD''),
     (OP_LSHIFT, ''OP_LSHIFT''), (OP_RSHIFT, ''OP_RSHIFT''), (OP_BOOLAND, ''OP_BOOLAND''),
     (OP_BOOLOR, ''OP_BOOLOR''), (OP_NUMEQUAL, ''OP_NUMEQUAL''),
     (OP_NUMEQUALVERIFY, ''OP_NUMEQUALVERIFY''), (OP_NUMNOTEQUAL, ''OP_NUMNOTEQUAL''),
     (OP_LESSTHAN, ''OP_LESSTHAN''), (OP_GREATERTHAN, ''OP_GREATERTHAN''),
     (OP_LESSTHANOREQUAL, ''OP_LESSTHANOREQUAL''), (OP_GREATERTHANOREQUAL, ''OP_GREATERTHANOREQUAL''),
     (OP_MIN, ''OP_MIN''), (OP_MAX, ''OP_MAX''), (OP_WITHIN, ''OP_WITHIN''),
     (OP_RIPEMD160, ''OP_RIPEMD160''), (OP_SHA1, ''OP_SHA1''), (OP_SHA256, ''OP_SHA256''),
     (OP_HASH160, ''OP_HASH160''), (OP_HASH256, ''OP_HASH256''),
     (OP_CODESEPARATOR, ''OP_CODESEPARATOR''), (OP_CHECKSIG, ''OP_CHECKSIG''),
     (OP_CHECKSIGVERIFY, ''OP_CHECKSIGVERIFY''), (OP_CHECKMULTISIG, ''OP_CHECKMULTISIG''),
     (OP_CHECKMULTISIGVERIFY, ''OP_CHECKMULTISIGVERIFY''), (OP_NOP1, ''OP_NOP1''),
     (OP_NOP2, ''OP_NOP2''), (OP_NOP3, ''OP_NOP3''), (OP_NOP4, ''OP_NOP4''), (OP_NOP5, ''OP_NOP5''),
     (OP_NOP6, ''OP_NOP6''), (OP_NOP7, ''OP_NOP7''), (OP_NOP8, ''OP_NOP8''), (OP_NOP9, ''OP_NOP9''),
     (OP_NOP10, ''OP_NOP10''), (OP_INVALIDOPCODE, ''OP_INVALIDOPCODE'')]"

definition GetOpName :: "opcodetype \<Rightarrow> string" where
  "GetOpName opcode = (case map_of opcode_names opcode of Some name \<Rightarrow> name | None \<Rightarrow> ''OP_UNKNOWN'')"

section \<open>Numbers\<close>

text \<open>Numbers are sequences of bytes, least significant first, with the sign in the top bit of the last byte.\<close>

fun serialize_loop :: "nat \<Rightarrow> bytes" where
  "serialize_loop absvalue = (if absvalue = 0 then [] else of_nat absvalue # serialize_loop (absvalue div 256))"

declare serialize_loop.simps [simp del]

definition CScriptNum_serialize :: "CScriptNum \<Rightarrow> bytes" where
  "CScriptNum_serialize v = (if v = 0 then [] else
     let neg = v < 0;
         result = serialize_loop (nat \<bar>v\<bar>)
     in if last result AND 0x80 \<noteq> 0 then result @ [if neg then 0x80 else 0]
        else if neg then butlast result @ [last result OR 0x80]
        else result)"

fun set_vch_loop :: "nat \<Rightarrow> bytes \<Rightarrow> int" where
  "set_vch_loop i [] = 0"
| "set_vch_loop i (b # vch) = push_bit (8 * i) (uint b) OR set_vch_loop (Suc i) vch"

definition set_vch :: "bytes \<Rightarrow> int" where
  "set_vch vch = (if vch = [] then 0 else
     let result = set_vch_loop 0 vch
     in if last vch AND 0x80 \<noteq> 0 then - (result AND NOT (push_bit (8 * (length vch - 1)) 0x80)) else result)"

definition CScriptNum_of :: "bytes \<Rightarrow> bool \<Rightarrow> nat \<Rightarrow> failure + CScriptNum" where
  "CScriptNum_of vch fRequireMinimal nMaxNumSize =
     (if nMaxNumSize < length vch then Inl (Thrown ''script number overflow'')
      else if fRequireMinimal \<and> vch \<noteq> [] \<and> last vch AND 0x7f = 0 \<and>
              (length vch \<le> 1 \<or> vch ! (length vch - 2) AND 0x80 = 0)
      then Inl (Thrown ''non-minimally encoded script number'')
      else Inr (set_vch vch))"

abbreviation (input) nDefaultMaxNumSize :: nat where
  "nDefaultMaxNumSize \<equiv> 4"

definition num_neg :: "CScriptNum \<Rightarrow> failure + CScriptNum" where
  "num_neg v = and_then (cassert (v \<noteq> - (2 ^ 63))) (\<lambda>_. Inr (- v))"

definition num_add :: "CScriptNum \<Rightarrow> int \<Rightarrow> failure + CScriptNum" where
  "num_add v rhs = and_then (cassert (rhs = 0 \<or> (0 < rhs \<and> v \<le> 2 ^ 63 - 1 - rhs) \<or> (rhs < 0 \<and> - (2 ^ 63) - rhs \<le> v)))
     (\<lambda>_. Inr (v + rhs))"

definition num_sub :: "CScriptNum \<Rightarrow> int \<Rightarrow> failure + CScriptNum" where
  "num_sub v rhs = and_then (cassert (rhs = 0 \<or> (0 < rhs \<and> - (2 ^ 63) + rhs \<le> v) \<or> (rhs < 0 \<and> v \<le> 2 ^ 63 - 1 + rhs)))
     (\<lambda>_. Inr (v - rhs))"

definition getint :: "CScriptNum \<Rightarrow> int" where
  "getint v = (if v > 2 ^ 31 - 1 then 2 ^ 31 - 1 else if v < - (2 ^ 31) then - (2 ^ 31) else v)"

section \<open>Building scripts\<close>

definition push_opcode :: "CScript \<Rightarrow> opcodetype \<Rightarrow> failure + CScript" where
  "push_opcode s opcode = (if opcode > 0xff then Inl (Thrown ''CScript::operator<<(): invalid opcode'')
     else Inr (s @ [of_nat opcode]))"

definition push_data :: "CScript \<Rightarrow> bytes \<Rightarrow> CScript" where
  "push_data s b =
     (if length b < OP_PUSHDATA1 then s @ [of_nat (length b)] @ b
      else if length b \<le> 0xff then s @ [of_nat OP_PUSHDATA1, of_nat (length b)] @ b
      else if length b \<le> 0xffff then s @ [of_nat OP_PUSHDATA2] @ WriteLE16 (of_nat (length b)) @ b
      else s @ [of_nat OP_PUSHDATA4] @ WriteLE32 (of_nat (length b)) @ b)"

definition push_int64 :: "CScript \<Rightarrow> int \<Rightarrow> CScript" where
  "push_int64 s n =
     (if n = - 1 \<or> (1 \<le> n \<and> n \<le> 16) then s @ [of_int (n + int (OP_1 - 1))]
      else if n = 0 then s @ [of_nat OP_0]
      else push_data s (CScriptNum_serialize n))"

definition DecodeOP_N :: "opcodetype \<Rightarrow> failure + nat" where
  "DecodeOP_N opcode = (if opcode = OP_0 then Inr 0
     else and_then (cassert (OP_1 \<le> opcode \<and> opcode \<le> OP_16)) (\<lambda>_. Inr (opcode - (OP_1 - 1))))"

definition EncodeOP_N :: "int \<Rightarrow> failure + opcodetype" where
  "EncodeOP_N n = and_then (cassert (0 \<le> n \<and> n \<le> 16)) (\<lambda>_. Inr (if n = 0 then OP_0 else OP_1 + nat n - 1))"

section \<open>Reading scripts\<close>

text \<open>
  \<open>GetOp2\<close> returns whether it succeeded, the opcode, the data and the advanced iterator. \<open>get_immediate\<close> is its last part,
  which reads \<open>nSize\<close> bytes of data.
\<close>

definition get_immediate :: "opcodetype \<Rightarrow> nat \<Rightarrow> bytes \<Rightarrow> bool \<times> opcodetype \<times> bytes \<times> bytes" where
  "get_immediate opcode nSize pc = (if length pc < nSize then (False, OP_INVALIDOPCODE, [], pc)
     else (True, opcode, take nSize pc, drop nSize pc))"

definition GetOp2 :: "bytes \<Rightarrow> bool \<times> opcodetype \<times> bytes \<times> bytes" where
  "GetOp2 pc = (case pc of [] \<Rightarrow> (False, OP_INVALIDOPCODE, [], [])
     | b # pc \<Rightarrow> let opcode = unat b in
         if opcode \<le> OP_PUSHDATA4 then
           if opcode < OP_PUSHDATA1 then get_immediate opcode opcode pc
           else if opcode = OP_PUSHDATA1 then
             if length pc < 1 then (False, OP_INVALIDOPCODE, [], pc) else get_immediate opcode (unat (pc ! 0)) (drop 1 pc)
           else if opcode = OP_PUSHDATA2 then
             if length pc < 2 then (False, OP_INVALIDOPCODE, [], pc) else get_immediate opcode (unat (ReadLE16 pc)) (drop 2 pc)
           else
             if length pc < 4 then (False, OP_INVALIDOPCODE, [], pc) else get_immediate opcode (unat (ReadLE32 pc)) (drop 4 pc)
         else (True, opcode, [], pc))"

lemma GetOp2_shorter: "GetOp2 pc = (True, opcode, vch, pc') \<Longrightarrow> length pc' < length pc"
  by (auto simp: GetOp2_def get_immediate_def Let_def split: list.splits if_splits)

definition IsPayToPublicKeyHash :: "CScript \<Rightarrow> bool" where
  "IsPayToPublicKeyHash s \<longleftrightarrow> length s = 25 \<and> s ! 0 = of_nat OP_DUP \<and> s ! 1 = of_nat OP_HASH160 \<and> s ! 2 = 0x14 \<and>
     s ! 23 = of_nat OP_EQUALVERIFY \<and> s ! 24 = of_nat OP_CHECKSIG"

definition IsPayToScriptHash :: "CScript \<Rightarrow> bool" where
  "IsPayToScriptHash s \<longleftrightarrow> length s = 23 \<and> s ! 0 = of_nat OP_HASH160 \<and> s ! 1 = 0x14 \<and> s ! 22 = of_nat OP_EQUAL"

definition sigop_weight :: "bool \<Rightarrow> opcodetype \<Rightarrow> opcodetype \<Rightarrow> failure + nat" where
  "sigop_weight fAccurate lastOpcode opcode =
     (if opcode = OP_CHECKSIG \<or> opcode = OP_CHECKSIGVERIFY then Inr 1
      else if opcode = OP_CHECKMULTISIG \<or> opcode = OP_CHECKMULTISIGVERIFY then
        if fAccurate \<and> OP_1 \<le> lastOpcode \<and> lastOpcode \<le> OP_16 then DecodeOP_N lastOpcode else Inr 20
      else Inr 0)"

function sigop_loop :: "bool \<Rightarrow> opcodetype \<Rightarrow> nat \<Rightarrow> bytes \<Rightarrow> failure + nat" where
  "sigop_loop fAccurate lastOpcode n pc =
     (if pc = [] then Inr n
      else case GetOp2 pc of (ok, opcode, vch, pc') \<Rightarrow>
        if \<not> ok then Inr n
        else case sigop_weight fAccurate lastOpcode opcode of Inl e \<Rightarrow> Inl e
          | Inr k \<Rightarrow> sigop_loop fAccurate opcode ((n + k) mod 2 ^ 32) pc')"
  by pat_completeness auto
termination
  by (relation "measure (\<lambda>(_, _, _, pc). length pc)") (auto dest!: sym [of _ "GetOp2 _"] GetOp2_shorter)

declare sigop_loop.simps [simp del]

definition GetSigOpCount :: "bool \<Rightarrow> CScript \<Rightarrow> failure + nat" where
  "GetSigOpCount fAccurate s = sigop_loop fAccurate OP_INVALIDOPCODE 0 s"

text \<open>The loop over the script signature: None where the source returns 0, else the data of the last instruction.\<close>

function last_push_loop :: "bytes \<Rightarrow> bytes \<Rightarrow> bytes option" where
  "last_push_loop data pc =
     (if pc = [] then Some data
      else case GetOp2 pc of (ok, opcode, vch, pc') \<Rightarrow>
        if \<not> ok then None else if opcode > OP_16 then None else last_push_loop vch pc')"
  by pat_completeness auto
termination
  by (relation "measure (\<lambda>(_, pc). length pc)") (auto dest!: sym [of _ "GetOp2 _"] GetOp2_shorter)

declare last_push_loop.simps [simp del]

definition GetSigOpCount_p2sh :: "CScript \<Rightarrow> CScript \<Rightarrow> failure + nat" where
  "GetSigOpCount_p2sh s scriptSig =
     (if \<not> IsPayToScriptHash s then GetSigOpCount True s
      else case last_push_loop [] scriptSig of None \<Rightarrow> Inr 0
        | Some data \<Rightarrow> GetSigOpCount True data)"

function IsPushOnly :: "CScript \<Rightarrow> bool" where
  "IsPushOnly pc =
     (if pc = [] then True
      else case GetOp2 pc of (ok, opcode, vch, pc') \<Rightarrow>
        if \<not> ok then False else if opcode > OP_16 then False else IsPushOnly pc')"
  by pat_completeness auto
termination
  by (relation "measure length") (auto dest!: sym [of _ "GetOp2 _"] GetOp2_shorter)

declare IsPushOnly.simps [simp del]

abbreviation (input) MAX_SCRIPT_SIZE :: nat where "MAX_SCRIPT_SIZE \<equiv> 10000"
abbreviation (input) MAX_SCRIPT_ELEMENT_SIZE :: nat where "MAX_SCRIPT_ELEMENT_SIZE \<equiv> 520"

definition IsUnspendable :: "CScript \<Rightarrow> bool" where
  "IsUnspendable s \<longleftrightarrow> (length s > 0 \<and> s ! 0 = of_nat OP_RETURN) \<or> length s > MAX_SCRIPT_SIZE"

datatype ScriptType = UNKNOWN | P2PKH | P2SH

definition GetType :: "CScript \<Rightarrow> ScriptType" where
  "GetType s = (if IsPayToPublicKeyHash s then P2PKH else if IsPayToScriptHash s then P2SH else UNKNOWN)"

definition AddressHash :: "CScript \<Rightarrow> bytes" where
  "AddressHash s = (if IsPayToPublicKeyHash s then take 20 (drop 3 s)
     else if IsPayToScriptHash s then take 20 (drop 2 s) else replicate 20 0)"

section \<open>The value of a byte string\<close>

fun le_val :: "bytes \<Rightarrow> nat" where
  "le_val [] = 0"
| "le_val (b # bs) = unat b + 256 * le_val bs"

lemma le_val_append: "le_val (xs @ ys) = le_val xs + 256 ^ length xs * le_val ys"
  by (induction xs) (simp_all add: algebra_simps)

lemma unat_u8_less: "unat (b :: u8) < 256"
  using unsigned_less [of b] by simp

lemma le_val_less: "le_val bs < 256 ^ length bs"
proof (induction bs)
  case (Cons b bs)
  then show ?case using unat_u8_less [of b] by simp
qed simp

lemma unat_of_nat_u8 [simp]: "unat (of_nat n :: u8) = n mod 256"
  by (simp add: unat_of_nat)

lemma le_val_serialize_loop [simp]: "le_val (serialize_loop n) = n"
proof (induction n rule: serialize_loop.induct)
  case (1 n)
  then show ?case by (subst serialize_loop.simps) simp
qed

lemma serialize_loop_empty [simp]: "serialize_loop n = [] \<longleftrightarrow> n = 0"
  by (subst serialize_loop.simps) simp

lemma last_serialize_loop: "0 < n \<Longrightarrow> last (serialize_loop n) \<noteq> 0"
proof (induction n rule: serialize_loop.induct)
  case (1 n)
  show ?case
  proof (cases "n < 256")
    case True
    then have "serialize_loop n = [of_nat n]" using 1 by (subst serialize_loop.simps) (simp add: serialize_loop.simps)
    moreover have "(of_nat n :: u8) \<noteq> 0" using True 1 by (simp add: word_unat_eq_iff)
    ultimately show ?thesis by simp
  next
    case False
    then have "0 < n div 256" by (simp add: div_greater_zero_iff)
    with 1 False show ?thesis by (subst serialize_loop.simps) simp
  qed
qed

lemma serialize_loop_le_val: "bs \<noteq> [] \<Longrightarrow> last bs \<noteq> 0 \<Longrightarrow> serialize_loop (le_val bs) = bs"
proof (induction bs)
  case (Cons b bs)
  have b: "(of_nat (unat b + 256 * le_val bs) :: u8) = b"
    by (subst word_unat_eq_iff, subst unat_of_nat_u8) (simp add: unat_u8_less)
  have d: "(unat b + 256 * le_val bs) div 256 = le_val bs" using unat_u8_less [of b] by simp
  show ?case
  proof (cases "bs = []")
    case True
    then have "unat b \<noteq> 0" using Cons.prems by (simp add: unat_eq_0)
    then show ?thesis using True by (simp add: serialize_loop.simps [of "unat b"] serialize_loop.simps [of 0] unat_u8_less)
  next
    case False
    then have "serialize_loop (le_val bs) = bs" using Cons by simp
    moreover from this False have "0 < le_val bs" by (metis gr0I serialize_loop_empty)
    ultimately show ?thesis using b d by (simp add: serialize_loop.simps [of "unat b + 256 * le_val bs"])
  qed
qed simp

lemma length_serialize_loop: "n < 256 ^ k \<Longrightarrow> length (serialize_loop n) \<le> k"
proof (induction n arbitrary: k rule: serialize_loop.induct)
  case (1 n)
  show ?case
  proof (cases "n = 0")
    case False
    then obtain j where j: "k = Suc j" using 1 by (cases k) auto
    then have "n div 256 < 256 ^ j" using "1.prems" by (simp add: less_mult_imp_div_less mult.commute)
    with 1 False j show ?thesis by (subst serialize_loop.simps) simp
  qed (simp add: serialize_loop.simps [of 0])
qed

section \<open>Bytes with a sign bit\<close>

lemma u8_sign: "(b :: u8) AND 0x80 \<noteq> 0 \<longleftrightarrow> 128 \<le> unat b"
  and u8_low: "(b :: u8) AND 0x7f = 0 \<longleftrightarrow> unat b mod 128 = 0"
proof -
  have m: "(0x7f :: u8) = mask 7" by (simp add: mask_eq_exp_minus_1)
  have "unat (b AND 0x7f) = unat b mod 128"
    unfolding m take_bit_eq_mask [symmetric] unat_take_bit_mod by simp
  then show "b AND 0x7f = 0 \<longleftrightarrow> unat b mod 128 = 0" by (metis unat_eq_0)
  have "(0x80 :: u8) = push_bit 7 1" by simp
  then have "b AND 0x80 \<noteq> 0 \<longleftrightarrow> bit b 7" by (metis and_exp_eq_0_iff_not_bit push_bit_eq_mult mult_1)
  also have "\<dots> \<longleftrightarrow> bit (unat b) 7" by (simp add: bit_unsigned_iff)
  also have "\<dots> \<longleftrightarrow> 128 \<le> unat b"
  proof
    show "128 \<le> unat b \<Longrightarrow> bit (unat b) 7"
      using not_bit_nat_less [of "unat b" 7] unat_u8_less [of b] by (intro ccontr [of "bit (unat b) 7"]) simp
  qed (use bit_nat_ge [of "unat b" 7] in simp)
  finally show "b AND 0x80 \<noteq> 0 \<longleftrightarrow> 128 \<le> unat b" .
qed

lemma u8_set_sign: "unat (b :: u8) < 128 \<Longrightarrow> unat (b OR 0x80) = unat b + 128"
proof -
  assume b: "unat b < 128"
  have "b AND 0x80 = 0" using b u8_sign [of b] by auto
  then have "b OR 0x80 = b + 0x80" by (simp add: disjunctive_add_eq_or)
  then show ?thesis using b by (simp add: unat_word_ariths)
qed

lemma push_bit_or_add:
  assumes "0 \<le> a" "a < 256"
  shows "push_bit n a OR push_bit (n + 8) x = push_bit n (a + 256 * (x :: int))"
proof -
  have "take_bit 8 a = a" using assms by (simp add: take_bit_int_eq_self_iff)
  then have "a OR push_bit 8 x = a + 256 * x"
    using concat_bit_eq [of 8 a x] by (simp add: concat_bit_def push_bit_eq_mult)
  then show ?thesis by (metis push_bit_or push_bit_push_bit)
qed

lemma set_vch_loop_val: "set_vch_loop i bs = push_bit (8 * i) (int (le_val bs))"
proof (induction bs arbitrary: i)
  case (Cons b bs)
  have "uint b < 256" using unsigned_less [of b, where ?'a = int] by simp
  then show ?case using push_bit_or_add [of "uint b" "8 * i" "int (le_val bs)"]
    by (simp add: Cons add.commute)
qed simp

text \<open>The number that a byte string denotes: magnitude and sign.\<close>

definition num_neg_sign :: "bytes \<Rightarrow> bool" where
  "num_neg_sign vch \<longleftrightarrow> vch \<noteq> [] \<and> 128 \<le> unat (last vch)"

definition num_mag :: "bytes \<Rightarrow> nat" where
  "num_mag vch = (if vch = [] then 0 else le_val (butlast vch) + 256 ^ (length vch - 1) * (unat (last vch) mod 128))"

definition num_val :: "bytes \<Rightarrow> int" where
  "num_val vch = (if num_neg_sign vch then - int (num_mag vch) else int (num_mag vch))"

lemma num_snoc:
  "num_neg_sign (bs @ [b]) \<longleftrightarrow> 128 \<le> unat b"
  "num_mag (bs @ [b]) = le_val bs + 256 ^ length bs * (unat b mod 128)"
  by (simp_all add: num_neg_sign_def num_mag_def)

lemma num_mag_pos: "\<not> num_neg_sign vch \<Longrightarrow> num_mag vch = le_val vch"
  by (cases vch rule: rev_cases) (simp_all add: num_snoc le_val_append, simp add: num_mag_def)

lemma num_val_empty [simp]: "num_val [] = 0"
  by (simp add: num_val_def num_mag_def)

lemma clear_sign:
  assumes "128 \<le> unat (b :: u8)"
  shows "int (le_val (bs @ [b])) AND NOT (push_bit (8 * length bs) 0x80) = int (num_mag (bs @ [b]))"
proof -
  define p where "p = 8 * length bs + 7"
  define x where "x = num_mag (bs @ [b])"
  have pow: "(2::nat) ^ p = 256 ^ length bs * 128" by (simp add: p_def power_add pow_256)
  obtain c where c: "unat b = 128 + c" "c < 128" using assms unat_u8_less [of b] by (metis le_Suc_ex nat_add_left_cancel_less numeral_plus_numeral add_num_simps(1,4,6,8) numeral_Bit0)
  have x: "x = le_val bs + 256 ^ length bs * c" using c by (simp add: x_def num_snoc)
  have v: "le_val (bs @ [b]) = x + 2 ^ p" by (simp add: le_val_append pow c x distrib_left)
  have "x < 256 ^ length bs * Suc c" using le_val_less [of bs] by (simp add: x)
  also have "\<dots> \<le> 256 ^ length bs * 128" using c by (intro mult_le_mono) auto
  finally have "x < 2 ^ p" by (simp add: pow)
  then have "bit (le_val (bs @ [b])) p" by (simp add: bit_iff_odd v div_add_self2)
  then have "bit (int (le_val (bs @ [b]))) p" by (simp add: bit_of_nat_iff)
  moreover have "push_bit (8 * length bs) 0x80 = push_bit p (1 :: int)"
    by (simp add: p_def push_bit_eq_mult power_add)
  ultimately have "int (le_val (bs @ [b])) AND NOT (push_bit (8 * length bs) 0x80) = int (le_val (bs @ [b])) - 2 ^ p"
    by (simp only: unset_bit_eq_and_not [symmetric] unset_bit_eq of_bool_eq mult_1)
  then show ?thesis by (simp add: v flip: x_def)
qed

lemma set_vch_val: "set_vch vch = num_val vch"
proof (cases vch rule: rev_cases)
  case (snoc bs b)
  then show ?thesis
    using clear_sign [of b bs] num_mag_pos [of vch]
    by (simp add: set_vch_def num_val_def num_snoc Let_def set_vch_loop_val u8_sign del: le_val_append)
qed (simp add: set_vch_def)

section \<open>Numbers and their encodings\<close>

definition minimal_num :: "bytes \<Rightarrow> bool" where
  "minimal_num vch \<longleftrightarrow> vch = [] \<or> unat (last vch) mod 128 \<noteq> 0 \<or> (1 < length vch \<and> 128 \<le> unat (vch ! (length vch - 2)))"

lemma CScriptNum_of_eq:
  "CScriptNum_of vch fRequireMinimal k = Inr v \<longleftrightarrow> length vch \<le> k \<and> (fRequireMinimal \<longrightarrow> minimal_num vch) \<and> v = num_val vch"
  using u8_low [of "last vch"] u8_sign [of "vch ! (length vch - 2)"]
  by (auto simp: CScriptNum_of_def minimal_num_def set_vch_val)

lemma num_val_serialize: "num_val (CScriptNum_serialize v) = v"
proof (cases "v = 0")
  case False
  define n where "n = nat \<bar>v\<bar>"
  define r where "r = serialize_loop n"
  have n: "0 < n" "\<bar>v\<bar> = int n" using False by (auto simp: n_def)
  then have r: "r \<noteq> []" "le_val r = n" by (auto simp: r_def)
  then obtain bs b where bs: "r = bs @ [b]" by (metis rev_exhaust)
  have ser: "CScriptNum_serialize v = (if 128 \<le> unat b then r @ [if v < 0 then 0x80 else 0]
      else if v < 0 then bs @ [b OR 0x80] else r)"
    using False bs by (simp add: CScriptNum_serialize_def Let_def u8_sign flip: n_def r_def)
  have lr: "le_val bs + 256 ^ length bs * unat b = n" using r(2) by (simp add: bs le_val_append)
  have neg_r: "num_neg_sign r \<longleftrightarrow> 128 \<le> unat b" "num_mag r = le_val bs + 256 ^ length bs * (unat b mod 128)"
    by (simp_all add: bs num_snoc)
  have "num_mag (CScriptNum_serialize v) = n"
    using r(2) lr neg_r u8_set_sign [of b] by (simp add: ser num_snoc)
  moreover have "num_neg_sign (CScriptNum_serialize v) \<longleftrightarrow> v < 0"
    using neg_r u8_set_sign [of b] by (simp add: ser num_snoc)
  ultimately show ?thesis using n(2) by (auto simp: num_val_def)
qed (simp add: CScriptNum_serialize_def)

lemma minimal_serialize: "minimal_num (CScriptNum_serialize v)"
proof (cases "v = 0")
  case False
  define r where "r = serialize_loop (nat \<bar>v\<bar>)"
  have "r \<noteq> []" "last r \<noteq> 0" using False by (auto simp: r_def last_serialize_loop)
  then obtain bs b where bs: "r = bs @ [b]" and b: "unat b \<noteq> 0" by (metis rev_exhaust last_snoc unat_eq_0)
  have ser: "CScriptNum_serialize v = (if 128 \<le> unat b then r @ [if v < 0 then 0x80 else 0]
      else if v < 0 then bs @ [b OR 0x80] else r)"
    using False bs by (simp add: CScriptNum_serialize_def Let_def u8_sign flip: r_def)
  show ?thesis
    using b u8_set_sign [of b] by (auto simp: ser bs minimal_num_def nth_append)
qed (simp add: CScriptNum_serialize_def minimal_num_def)

lemma length_serialize:
  assumes "\<bar>v\<bar> < 2 ^ (8 * k - 1)" "0 < k"
  shows "length (CScriptNum_serialize v) \<le> k"
proof (cases "v = 0")
  case False
  define n where "n = nat \<bar>v\<bar>"
  define r where "r = serialize_loop n"
  have pow: "(2::nat) ^ (8 * k - 1) = 128 * 256 ^ (k - 1)"
    using assms(2) by (cases k) (simp_all add: power_add power_mult)
  have n: "n < 128 * 256 ^ (k - 1)" using assms(1) unfolding n_def pow [symmetric] by (simp add: nat_less_iff)
  also have "\<dots> \<le> 256 ^ k" using assms(2) by (cases k) simp_all
  finally have len: "length r \<le> k" by (simp add: r_def length_serialize_loop)
  have "le_val r = n" "r \<noteq> []" using False by (auto simp: r_def n_def)
  then obtain bs b where bs: "r = bs @ [b]" "le_val (bs @ [b]) = n" by (metis rev_exhaust)
  have "length r < k" if "128 \<le> unat b"
  proof (rule ccontr)
    assume "\<not> length r < k"
    then have "length bs = k - 1" using len bs by simp
    then have "256 ^ (k - 1) * unat b \<le> n" using bs(2) by (simp add: le_val_append)
    moreover have "256 ^ (k - 1) * 128 \<le> 256 ^ (k - 1) * unat b" using that by (rule mult_le_mono2)
    ultimately have "128 * 256 ^ (k - 1) \<le> n" by (simp only: mult.commute)
    then show False using n by simp
  qed
  then show ?thesis
    using len False bs by (simp add: CScriptNum_serialize_def Let_def u8_sign flip: n_def r_def) auto
qed (simp add: CScriptNum_serialize_def)

lemma serialize_num_val:
  assumes "minimal_num vch"
  shows "CScriptNum_serialize (num_val vch) = vch"
proof (cases vch rule: rev_cases)
  case (snoc bs b)
  define m where "m = unat b mod 128"
  define l where "l = bs @ [of_nat m]"
  have m: "m < 128" "unat b = (if 128 \<le> unat b then 128 + m else m)"
    using unat_u8_less [of b] by (auto simp: m_def le_mod_geq)
  then have um: "unat (of_nat m :: u8) = m" by simp
  have "num_mag vch = le_val l" using um by (simp add: snoc num_snoc l_def le_val_append m_def)
  then have nv: "num_val vch = (if 128 \<le> unat b then - int (le_val l) else int (le_val l))"
    by (simp add: num_val_def) (simp add: snoc num_snoc)
  then have mag: "nat \<bar>num_val vch\<bar> = le_val l" by simp
  have zero: "num_val vch = 0 \<longleftrightarrow> le_val l = 0" using mag by (metis abs_zero nat_0 nat_0_iff abs_le_zero_iff)
  have sgn: "num_val vch < 0 \<longleftrightarrow> 128 \<le> unat b" if "0 < le_val l"
    using nv that by simp
  show ?thesis
  proof (cases "m = 0")
    case False
    then have "(of_nat m :: u8) \<noteq> 0" using um by (metis unat_0)
    then have "serialize_loop (le_val l) = l" by (intro serialize_loop_le_val) (auto simp: l_def)
    moreover have "0 < le_val l" using False m(1) by (simp add: l_def le_val_append)
    moreover have "(of_nat m OR 0x80 :: u8) = b" if "128 \<le> unat b"
      using m that u8_set_sign [of "of_nat m"] um by (simp add: word_unat_eq_iff)
    moreover have "(of_nat m :: u8) = b" if "\<not> 128 \<le> unat b"
      using m that um by (simp add: word_unat_eq_iff)
    ultimately show ?thesis
      using mag sgn m um snoc by (auto simp: CScriptNum_serialize_def Let_def u8_sign l_def zero)
  next
    case True
    then obtain cs c where cs: "bs = cs @ [c]" "128 \<le> unat c"
      using assms by (cases bs rule: rev_cases) (auto simp: minimal_num_def snoc m_def nth_append)
    have lv: "le_val l = le_val bs" using True by (simp add: l_def le_val_append)
    have c: "c \<noteq> 0" using cs(2) by auto
    have "serialize_loop (le_val bs) = bs" using c cs(1) by (intro serialize_loop_le_val) auto
    moreover have "0 < le_val bs" using cs by (simp add: le_val_append)
    moreover have "b = (if 128 \<le> unat b then 0x80 else 0)" using m True by (simp add: word_unat_eq_iff split: if_splits)
    ultimately show ?thesis
      using mag sgn cs snoc lv zero by (auto simp: CScriptNum_serialize_def Let_def u8_sign)
  qed
qed (simp add: CScriptNum_serialize_def)


section \<open>Pushing and reading data\<close>

text \<open>The opcode that \<open>push_data\<close> chooses for a byte string.\<close>

definition push_op :: "bytes \<Rightarrow> opcodetype" where
  "push_op b = (if length b < OP_PUSHDATA1 then length b else if length b \<le> 0xff then OP_PUSHDATA1
     else if length b \<le> 0xffff then OP_PUSHDATA2 else OP_PUSHDATA4)"

lemma GetOp2_push_data:
  assumes "length b < 2 ^ 32"
  shows "GetOp2 (push_data [] b @ rest) = (True, push_op b, b, rest)"
proof -
  have "unat (of_nat (length b) :: u16) = length b" if "length b \<le> 0xffff" using that by (simp add: unat_of_nat)
  moreover have "unat (of_nat (length b) :: u32) = length b" using assms by (simp add: unat_of_nat)
  ultimately show ?thesis
    by (auto simp: push_data_def GetOp2_def get_immediate_def push_op_def Let_def drop_append)
qed

lemma GetOp2_data_length: "GetOp2 pc = (True, opcode, vch, pc') \<Longrightarrow> length vch + length pc' < length pc"
  by (auto simp: GetOp2_def get_immediate_def Let_def split: list.splits if_splits)

lemma GetOp2_opcode_less: "GetOp2 pc = (True, opcode, vch, pc') \<Longrightarrow> opcode < 256"
  using unat_u8_less by (auto simp: GetOp2_def get_immediate_def Let_def split: list.splits if_splits)

lemma push_data_append: "push_data s b = s @ push_data [] b"
  by (simp add: push_data_def)

lemma push_data_not_empty [simp]: "push_data [] b \<noteq> []"
  by (simp add: push_data_def)

section \<open>Counting signature operations\<close>

text \<open>The opcodes of a script, up to the first instruction that is cut off, and the number of signature operations in them: one for a
  signature check, and for a multisignature check twenty, or, when counting accurately, the small number pushed right before it.\<close>

function opcodes_of :: "bytes \<Rightarrow> opcodetype list" where
  "opcodes_of pc = (if pc = [] then [] else case GetOp2 pc of (ok, opcode, vch, pc') \<Rightarrow> if ok then opcode # opcodes_of pc' else [])"
  by pat_completeness auto
termination
  by (relation "measure length") (auto dest!: sym [of _ "GetOp2 _"] GetOp2_shorter)

declare opcodes_of.simps [simp del]

definition sigop_value :: "bool \<Rightarrow> opcodetype \<Rightarrow> opcodetype \<Rightarrow> nat" where
  "sigop_value accurate previous opcode =
     (if opcode \<in> {0xac, 0xad} then 1
      else if opcode \<in> {0xae, 0xaf} then if accurate \<and> previous \<in> {0x51..0x60} then previous - 0x50 else 20
      else 0)"

definition sigops :: "bool \<Rightarrow> opcodetype list \<Rightarrow> nat" where
  "sigops accurate ops = sum_list (map2 (sigop_value accurate) (0xff # ops) ops)"

lemma sigop_weight_value: "sigop_weight accurate previous opcode = Inr (sigop_value accurate previous opcode)"
  by (auto simp: sigop_weight_def sigop_value_def DecodeOP_N_def cassert_def)

lemma sigop_loop_sum:
  "n < 2 ^ 32 \<Longrightarrow> sigop_loop accurate previous n pc =
    Inr ((n + sum_list (map2 (sigop_value accurate) (previous # opcodes_of pc) (opcodes_of pc))) mod 2 ^ 32)"
proof (induction "length pc" arbitrary: previous n pc rule: less_induct)
  case less
  obtain ok opcode vch pc' where op: "GetOp2 pc = (ok, opcode, vch, pc')" by (metis prod_cases4)
  show ?case
  proof (cases "pc \<noteq> [] \<and> ok")
    case True
    then have sh: "length pc' < length pc" using op by (auto dest: GetOp2_shorter)
    show ?thesis
      using True op less.hyps [OF sh, of "(n + sigop_value accurate previous opcode) mod 2 ^ 32" opcode]
      by (simp add: sigop_loop.simps [of _ _ _ pc] opcodes_of.simps [of pc] sigop_weight_value mod_add_left_eq add.assoc)
  next
    case False
    then show ?thesis using op less.prems by (auto simp: sigop_loop.simps [of _ _ _ pc] opcodes_of.simps [of pc])
  qed
qed

lemma GetSigOpCount_sum: "GetSigOpCount accurate s = Inr (sigops accurate (opcodes_of s) mod 2 ^ 32)"
  by (simp add: GetSigOpCount_def sigop_loop_sum sigops_def)

lemma length_opcodes_of: "length (opcodes_of pc) \<le> length pc"
proof (induction "length pc" arbitrary: pc rule: less_induct)
  case less
  obtain ok opcode vch pc' where op: "GetOp2 pc = (ok, opcode, vch, pc')" by (metis prod_cases4)
  show ?case
  proof (cases "pc \<noteq> [] \<and> ok")
    case True
    then have sh: "length pc' < length pc" using op by (auto dest: GetOp2_shorter)
    show ?thesis using True op less [OF sh] sh by (simp add: opcodes_of.simps [of pc])
  qed (use op in \<open>auto simp: opcodes_of.simps [of pc]\<close>)
qed

lemma sigop_sum_accurate_le: "sum_list (map2 (sigop_value True) (p # ops) ops) \<le> sum_list (map2 (sigop_value False) (p # ops) ops)"
proof (induction ops arbitrary: p)
  case (Cons opcode ops)
  have "sigop_value True p opcode \<le> sigop_value False p opcode" by (auto simp: sigop_value_def)
  then show ?case using Cons [of opcode] by (simp add: add_mono)
qed simp

lemma sigop_sum_le: "sum_list (map2 (sigop_value accurate) (p # ops) ops) \<le> 20 * length ops"
proof (induction ops arbitrary: p)
  case (Cons opcode ops)
  have "sigop_value accurate p opcode \<le> 20" by (auto simp: sigop_value_def)
  then show ?case using Cons [of opcode] by simp
qed simp

section \<open>Opcode names\<close>

lemma opcode_names_distinct: "distinct (map fst opcode_names)" "distinct (map snd opcode_names)"
  by (simp_all add: opcode_names_def)

lemma GetOpName_unique:
  assumes "GetOpName a = GetOpName b" "GetOpName a \<noteq> ''OP_UNKNOWN''"
  shows "a = b"
proof -
  obtain n where "map_of opcode_names a = Some n" "map_of opcode_names b = Some n"
    using assms by (auto simp: GetOpName_def split: option.splits)
  then have "(a, n) \<in> set opcode_names" "(b, n) \<in> set opcode_names" by (auto dest: map_of_SomeD)
  then show ?thesis using opcode_names_distinct(2) by (auto simp: distinct_map dest: inj_onD [of snd _ "(a, n)" "(b, n)"])
qed

section \<open>Properties\<close>

text \<open>C27: The number encoding of scripts is a bijection on what it accepts: a number of fewer than \<open>8 k\<close> magnitude bits is written in
  at most \<open>k\<close> bytes and read back as itself, with or without the minimality requirement, and every byte string that is
  accepted as a minimal number is exactly what that number is written as.\<close>

theorem script_number_roundtrip:
  assumes "0 < k"
  shows "(\<bar>v\<bar> < 2 ^ (8 * k - 1) \<longrightarrow> CScriptNum_of (CScriptNum_serialize v) fRequireMinimal k = Inr v) \<and>
    (CScriptNum_of vch True k = Inr v \<longrightarrow> CScriptNum_serialize v = vch)"
  using length_serialize [of v k] assms minimal_serialize [of v] serialize_num_val [of vch]
  by (auto simp: CScriptNum_of_eq num_val_serialize)

theorem script_number_roundtrip_witness:
  "CScriptNum_of (CScriptNum_serialize (- 255)) True 4 = Inr (- 255) \<and> CScriptNum_serialize 1 = [1]"
  using script_number_roundtrip [of 4 "- 255" True "[]"] script_number_roundtrip [of 4 1 True "[1]"]
  by (simp add: CScriptNum_of_def set_vch_def Let_def)

text \<open>C38: What is pushed onto a script is read back: after any push of fewer than \<open>2 ^ 32\<close> bytes the next instruction is a push of exactly
  those bytes and the iterator is behind it. Reading an instruction always advances, so every loop over a script
  ends, and the data never reaches beyond the script.\<close>

theorem pushed_data_is_read_back:
  assumes "length b < 2 ^ 32"
  shows "GetOp2 (push_data [] b @ rest) = (True, push_op b, b, rest) \<and> push_data s b = s @ push_data [] b \<and>
    (GetOp2 pc = (True, opcode, vch, pc') \<longrightarrow> length vch + length pc' < length pc)"
  using GetOp2_push_data [OF assms] push_data_append GetOp2_data_length by blast

theorem pushed_data_is_read_back_witness:
  "GetOp2 (push_data [] [1, 2, 3] @ [0xac]) = (True, 3, [1, 2, 3], [0xac])"
proof -
  have "length [1, 2, 3 :: u8] < 2 ^ 32" by simp
  from conjunct1 [OF pushed_data_is_read_back [OF this]] show ?thesis by (simp add: push_op_def)
qed

text \<open>C39: Counting signature operations never fails and gives the number of signature operations in the opcodes of the script, modulo
  two to the 32. The accurate number is at most the legacy one, which is at most twenty per byte, so that for any script of up to
  214748364 bytes the count is that number itself.\<close>

theorem sigop_count_exact:
  "GetSigOpCount accurate s = Inr (sigops accurate (opcodes_of s) mod 2 ^ 32) \<and>
   sigops True (opcodes_of s) \<le> sigops False (opcodes_of s) \<and> sigops False (opcodes_of s) \<le> 20 * length s \<and>
   (length s \<le> 214748364 \<longrightarrow> GetSigOpCount accurate s = Inr (sigops accurate (opcodes_of s)))"
proof -
  have "sigops True (opcodes_of s) \<le> sigops False (opcodes_of s)" unfolding sigops_def by (rule sigop_sum_accurate_le)
  moreover have le: "sigops a (opcodes_of s) \<le> 20 * length s" for a
    unfolding sigops_def using sigop_sum_le [of a "0xff" "opcodes_of s"] length_opcodes_of [of s] by linarith
  moreover from le [of accurate] have "length s \<le> 214748364 \<Longrightarrow> sigops accurate (opcodes_of s) < 2 ^ 32" by simp
  ultimately show ?thesis using le by (simp add: GetSigOpCount_sum)
qed

theorem sigop_count_exact_witness:
  "GetSigOpCount True [0x52, 0xae, 0xac, 0x01, 0xac, 0xae] = Inr 23 \<and> GetSigOpCount False [0x52, 0xae, 0xac, 0x01, 0xac, 0xae] = Inr 41"
proof -
  let ?s = "[0x52, 0xae, 0xac, 0x01, 0xac, 0xae] :: bytes"
  have "opcodes_of ?s = [0x52, 0xae, 0xac, 1, 0xae]" by (simp add: opcodes_of.simps GetOp2_def get_immediate_def)
  then show ?thesis
    using sigop_count_exact [of True ?s] sigop_count_exact [of False ?s] by (simp add: sigops_def sigop_value_def)
qed

end
