(* ===== verification/Serialize.thy ===== *)
theory Serialize
  imports Script
begin

unbundle bit_operations_syntax

text \<open>
  The wire format (\<^verbatim>\<open>serialize.h\<close> over \<open>CDataStream\<close> of \<^verbatim>\<open>streams.h\<close>). Writing an object is the list of its bytes; reading takes the bytes
  that are left and returns the object and the rest, or the exception. The blocks in which vectors are allocated while they
  are read do not change what is read, so a vector is read element by element.

  The interface all of it shares is the locale \<open>codec\<close>: what was written is read back, whatever follows, and whatever is
  read successfully was written in the only way it can be.
\<close>

section \<open>The code\<close>

named_theorems read_iff "when a reader succeeds on an input"

type_synonym 'a reader = "bytes \<Rightarrow> failure + 'a \<times> bytes"

definition read_bytes :: "nat \<Rightarrow> bytes reader" where
  "read_bytes nSize s = (if length s < nSize then Inl (Thrown ''CBaseDataStream::read(): end of data'')
     else Inr (take nSize s, drop nSize s))"

definition then_read :: "'a reader \<Rightarrow> ('a \<Rightarrow> 'b reader) \<Rightarrow> 'b reader" where
  "then_read r f s = (case r s of Inl e \<Rightarrow> Inl e | Inr (x, s') \<Rightarrow> f x s')"

definition give :: "'a \<Rightarrow> 'a reader" where
  "give x s = Inr (x, s)"

definition throw_read :: "string \<Rightarrow> 'a reader" where
  "throw_read msg s = Inl (Thrown msg)"

definition ser_readdata8 :: "u8 reader" where
  "ser_readdata8 = then_read (read_bytes 1) (\<lambda>b. give (b ! 0))"

definition ser_readdata16 :: "u16 reader" where
  "ser_readdata16 = then_read (read_bytes 2) (\<lambda>b. give (ReadLE16 b))"

definition ser_readdata32 :: "u32 reader" where
  "ser_readdata32 = then_read (read_bytes 4) (\<lambda>b. give (ReadLE32 b))"

definition ser_readdata32be :: "u32 reader" where
  "ser_readdata32be = then_read (read_bytes 4) (\<lambda>b. give (ReadBE32 b))"

definition ser_readdata64 :: "u64 reader" where
  "ser_readdata64 = then_read (read_bytes 8) (\<lambda>b. give (ReadLE64 b))"

definition ser_writedata8 :: "u8 \<Rightarrow> bytes" where
  "ser_writedata8 obj = [obj]"

definition put_int32 :: "int \<Rightarrow> bytes" where
  "put_int32 a = WriteLE32 (word_of_int a)"

definition get_int32 :: "int reader" where
  "get_int32 = then_read ser_readdata32 (\<lambda>a. give (sint a))"

definition put_int64 :: "int \<Rightarrow> bytes" where
  "put_int64 a = WriteLE64 (word_of_int a)"

definition get_int64 :: "int reader" where
  "get_int64 = then_read ser_readdata64 (\<lambda>a. give (sint a))"

definition put_bool :: "bool \<Rightarrow> bytes" where
  "put_bool a = ser_writedata8 (of_bool a)"

definition get_bool :: "bool reader" where
  "get_bool = then_read ser_readdata8 (\<lambda>f. give (f \<noteq> 0))"

abbreviation (input) MAX_SIZE :: u64 where "MAX_SIZE \<equiv> 0x02000000"

definition GetSizeOfCompactSize :: "u64 \<Rightarrow> nat" where
  "GetSizeOfCompactSize nSize = (if nSize < 253 then 1 else if nSize \<le> 0xFFFF then 3 else if nSize \<le> 0xFFFFFFFF then 5 else 9)"

definition WriteCompactSize :: "u64 \<Rightarrow> bytes" where
  "WriteCompactSize nSize =
     (if nSize < 253 then ser_writedata8 (ucast nSize)
      else if nSize \<le> 0xFFFF then ser_writedata8 253 @ WriteLE16 (ucast nSize)
      else if nSize \<le> 0xFFFFFFFF then ser_writedata8 254 @ WriteLE32 (ucast nSize)
      else ser_writedata8 255 @ WriteLE64 nSize)"

definition check_size :: "u64 \<Rightarrow> u64 \<Rightarrow> u64 reader" where
  "check_size least nSizeRet =
     (if nSizeRet < least then throw_read ''non-canonical ReadCompactSize()''
      else if nSizeRet > MAX_SIZE then throw_read ''ReadCompactSize(): size too large''
      else give nSizeRet)"

definition ReadCompactSize :: "u64 reader" where
  "ReadCompactSize = then_read ser_readdata8 (\<lambda>chSize.
     if chSize < 253 then check_size 0 (ucast chSize)
     else if chSize = 253 then then_read ser_readdata16 (\<lambda>n. check_size 253 (ucast n))
     else if chSize = 254 then then_read ser_readdata32 (\<lambda>n. check_size 0x10000 (ucast n))
     else then_read ser_readdata64 (check_size 0x100000000))"

text \<open>Variable length integers of a type with \<open>w\<close> bits, which wrap around when a reader is given more.\<close>

fun GetSizeOfVarInt :: "nat \<Rightarrow> nat" where
  "GetSizeOfVarInt n = (if n \<le> 0x7F then 1 else 1 + GetSizeOfVarInt (n div 128 - 1))"

fun varint_tmp :: "bool \<Rightarrow> nat \<Rightarrow> bytes" where
  "varint_tmp len n = of_nat (n mod 128 + (if len then 0x80 else 0)) # (if n \<le> 0x7F then [] else varint_tmp True (n div 128 - 1))"

definition WriteVarInt :: "nat \<Rightarrow> bytes" where
  "WriteVarInt n = rev (varint_tmp False n)"

fun ReadVarInt_loop :: "nat \<Rightarrow> nat \<Rightarrow> nat reader" where
  "ReadVarInt_loop w n [] = Inl (Thrown ''CBaseDataStream::read(): end of data'')"
| "ReadVarInt_loop w n (chData # s) =
     (let n = (n * 128 + unat (chData AND 0x7F)) mod 2 ^ w in
      if chData AND 0x80 \<noteq> 0 then ReadVarInt_loop w ((n + 1) mod 2 ^ w) s else Inr (n, s))"

definition ReadVarInt :: "nat \<Rightarrow> nat reader" where
  "ReadVarInt w = ReadVarInt_loop w 0"

definition put_bytes :: "bytes \<Rightarrow> bytes" where
  "put_bytes v = WriteCompactSize (of_nat (length v)) @ v"

definition get_bytes :: "bytes reader" where
  "get_bytes = then_read ReadCompactSize (\<lambda>nSize. read_bytes (unat nSize))"

definition get_limited_string :: "nat \<Rightarrow> bytes reader" where
  "get_limited_string Limit = then_read ReadCompactSize (\<lambda>nSize.
     if unat nSize > Limit then throw_read ''String length limit exceeded'' else read_bytes (unat nSize))"

definition put_vector :: "('a \<Rightarrow> bytes) \<Rightarrow> 'a list \<Rightarrow> bytes" where
  "put_vector put v = WriteCompactSize (of_nat (length v)) @ concat (map put v)"

fun get_array :: "'a reader \<Rightarrow> nat \<Rightarrow> 'a list reader" where
  "get_array get 0 = give []"
| "get_array get (Suc n) = then_read get (\<lambda>x. then_read (get_array get n) (\<lambda>xs. give (x # xs)))"

definition put_array :: "('a \<Rightarrow> bytes) \<Rightarrow> 'a list \<Rightarrow> bytes" where
  "put_array put item = concat (map put item)"

definition get_vector :: "'a reader \<Rightarrow> 'a list reader" where
  "get_vector get = then_read ReadCompactSize (\<lambda>nSize. get_array get (unat nSize))"

definition put_optional :: "('a \<Rightarrow> bytes) \<Rightarrow> 'a option \<Rightarrow> bytes" where
  "put_optional put item = (case item of Some x \<Rightarrow> ser_writedata8 1 @ put x | None \<Rightarrow> ser_writedata8 0)"

definition get_optional :: "'a reader \<Rightarrow> 'a option reader" where
  "get_optional get = then_read ser_readdata8 (\<lambda>discriminant.
     if discriminant = 0 then give None
     else if discriminant = 1 then then_read get (\<lambda>x. give (Some x))
     else throw_read ''non-canonical optional discriminant'')"

definition put_pair :: "('a \<Rightarrow> bytes) \<Rightarrow> ('b \<Rightarrow> bytes) \<Rightarrow> 'a \<times> 'b \<Rightarrow> bytes" where
  "put_pair put1 put2 item = put1 (fst item) @ put2 (snd item)"

definition get_pair :: "'a reader \<Rightarrow> 'b reader \<Rightarrow> ('a \<times> 'b) reader" where
  "get_pair get1 get2 = then_read get1 (\<lambda>x. then_read get2 (\<lambda>y. give (x, y)))"

section \<open>Readers\<close>

lemma then_read_simps [simp]:
  "r s = Inl e \<Longrightarrow> then_read r f s = Inl e" "r s = Inr (x, s') \<Longrightarrow> then_read r f s = f x s'"
  by (simp_all add: then_read_def)

lemma then_read_Inr: "then_read r f s = Inr y \<longleftrightarrow> (\<exists>x s'. r s = Inr (x, s') \<and> f x s' = Inr y)"
  by (auto simp: then_read_def split: sum.splits)

lemma give_simps [simp]: "give x s = Inr (x, s)" "throw_read m s = Inr y \<longleftrightarrow> False"
  by (simp_all add: give_def throw_read_def)

lemma read_bytes_append [simp]: "length b = n \<Longrightarrow> read_bytes n (b @ s) = Inr (b, s)"
  by (simp add: read_bytes_def)

lemma read_bytes_Inr: "read_bytes n s = Inr (b, s') \<longleftrightarrow> s = b @ s' \<and> length b = n"
  by (auto simp: read_bytes_def)

lemma ser_readdata8_Inr: "ser_readdata8 bs = Inr (b, s) \<longleftrightarrow> bs = b # s"
  by (cases bs) (auto simp: ser_readdata8_def then_read_def read_bytes_def)

lemma ser_readdata16_Inr: "ser_readdata16 bs = Inr (n, s) \<longleftrightarrow> bs = WriteLE16 n @ s"
proof
  assume "ser_readdata16 bs = Inr (n, s)"
  then obtain b0 b1 where "bs = b0 # b1 # s" "n = ReadLE16 [b0, b1]"
    by (auto simp: ser_readdata16_def then_read_Inr read_bytes_Inr numeral_eq_Suc length_Suc_conv)
  then show "bs = WriteLE16 n @ s" using WriteLE16_ReadLE16 [of b0 b1 "[]"] by simp
next
  show "bs = WriteLE16 n @ s \<Longrightarrow> ser_readdata16 bs = Inr (n, s)"
    using ReadLE16_WriteLE16 [of n "[]"] by (simp add: ser_readdata16_def)
qed

lemma ser_readdata32_Inr: "ser_readdata32 bs = Inr (n, s) \<longleftrightarrow> bs = WriteLE32 n @ s"
proof
  assume "ser_readdata32 bs = Inr (n, s)"
  then obtain b0 b1 b2 b3 where "bs = b0 # b1 # b2 # b3 # s" "n = ReadLE32 [b0, b1, b2, b3]"
    by (auto simp: ser_readdata32_def then_read_Inr read_bytes_Inr numeral_eq_Suc length_Suc_conv)
  then show "bs = WriteLE32 n @ s" using WriteLE32_ReadLE32 [of b0 b1 b2 b3 "[]"] by simp
next
  show "bs = WriteLE32 n @ s \<Longrightarrow> ser_readdata32 bs = Inr (n, s)"
    using ReadLE32_WriteLE32 [of n "[]"] by (simp add: ser_readdata32_def)
qed

lemma ser_readdata64_Inr: "ser_readdata64 bs = Inr (n, s) \<longleftrightarrow> bs = WriteLE64 n @ s"
proof
  assume "ser_readdata64 bs = Inr (n, s)"
  then obtain b where b: "bs = b @ s" "length b = 8" "n = ReadLE64 b"
    by (auto simp: ser_readdata64_def then_read_Inr read_bytes_Inr)
  then show "bs = WriteLE64 n @ s" using WriteLE64_ReadLE64 [of b] by simp
next
  show "bs = WriteLE64 n @ s \<Longrightarrow> ser_readdata64 bs = Inr (n, s)"
    using ReadLE64_WriteLE64 [of n "[]"] by (simp add: ser_readdata64_def)
qed

lemma check_size_Inr: "check_size least n s = Inr (m, t) \<longleftrightarrow> m = n \<and> t = s \<and> least \<le> n \<and> n \<le> MAX_SIZE"
  by (auto simp: check_size_def)

lemma unat_ucast_u64:
  "unat (ucast (a :: u8) :: u64) = unat a" "unat (ucast (b :: u16) :: u64) = unat b" "unat (ucast (c :: u32) :: u64) = unat c"
  using unsigned_less [of a, where 'a = nat] unsigned_less [of b, where 'a = nat] unsigned_less [of c, where 'a = nat]
  by (simp_all add: unsigned_ucast_eq take_bit_nat_eq_self)

lemma unat_ucast_of_u64:
  "unat (n :: u64) < 2 ^ 8 \<Longrightarrow> unat (ucast n :: u8) = unat n" "unat n < 2 ^ 16 \<Longrightarrow> unat (ucast n :: u16) = unat n"
  "unat n < 2 ^ 32 \<Longrightarrow> unat (ucast n :: u32) = unat n"
  by (simp_all add: unsigned_ucast_eq take_bit_nat_eq_self)

lemma ReadCompactSize_Inr: "ReadCompactSize bs = Inr (n, s) \<longleftrightarrow> n \<le> MAX_SIZE \<and> bs = WriteCompactSize n @ s"
  (is "?l \<longleftrightarrow> ?r")
proof
  assume ?l
  then obtain ch t where bs: "bs = ch # t" by (auto simp: ReadCompactSize_def then_read_Inr ser_readdata8_Inr)
  consider (1) "ch < 253" "n = ucast ch" "t = s" "n \<le> MAX_SIZE"
    | (2) w where "ch = 253" "t = WriteLE16 w @ s" "n = ucast w" "253 \<le> n" "n \<le> MAX_SIZE"
    | (3) w where "ch = 254" "t = WriteLE32 w @ s" "n = ucast w" "0x10000 \<le> n" "n \<le> MAX_SIZE"
    using \<open>?l\<close> bs
    by (auto simp: ReadCompactSize_def then_read_Inr ser_readdata8_Inr ser_readdata16_Inr ser_readdata32_Inr ser_readdata64_Inr
        check_size_Inr word_le_nat_alt split: if_splits)
  then show ?r
  proof cases
    case 1
    then have "n < 253" by (simp add: word_less_nat_alt unat_ucast_u64)
    then show ?thesis using 1 bs by (simp add: WriteCompactSize_def ser_writedata8_def ucast_up_ucast_id is_up)
  next
    case 2
    then have "\<not> n < 253" "n \<le> 0xFFFF" using unsigned_less [of w, where 'a = nat] by (simp_all add: word_le_nat_alt word_less_nat_alt unat_ucast_u64)
    then show ?thesis using 2 bs by (simp add: WriteCompactSize_def ser_writedata8_def ucast_up_ucast_id is_up)
  next
    case 3
    then have "\<not> n < 253" "\<not> n \<le> 0xFFFF" "n \<le> 0xFFFFFFFF"
      using unsigned_less [of w, where 'a = nat] by (simp_all add: word_le_nat_alt word_less_nat_alt unat_ucast_u64)
    then show ?thesis using 3 bs by (simp add: WriteCompactSize_def ser_writedata8_def ucast_up_ucast_id is_up)
  qed
next
  assume ?r
  then have n: "n \<le> MAX_SIZE" "bs = WriteCompactSize n @ s" by auto
  consider (1) "unat n < 253" | (2) "253 \<le> unat n" "unat n < 2 ^ 16" | (3) "2 ^ 16 \<le> unat n" "unat n \<le> 0x2000000"
    using n(1) by (fastforce simp: word_le_nat_alt)
  then show ?l
  proof cases
    case 1
    then have "bs = ucast n # s" "unat (ucast n :: u8) = unat n"
      using n(2) by (simp_all add: WriteCompactSize_def word_less_nat_alt ser_writedata8_def unat_ucast_of_u64)
    then have "ser_readdata8 bs = Inr (ucast n, s)" "ucast (ucast n :: u8) = n" "(ucast n :: u8) < 253"
      using 1 by (simp_all add: ser_readdata8_Inr word_unat_eq_iff unat_ucast_u64 word_less_nat_alt)
    then show ?thesis using n(1) by (simp add: ReadCompactSize_def check_size_Inr)
  next
    case 2
    then have "bs = 253 # WriteLE16 (ucast n) @ s" "unat (ucast n :: u16) = unat n"
      using n(2) by (simp_all add: WriteCompactSize_def word_less_nat_alt word_le_nat_alt ser_writedata8_def unat_ucast_of_u64)
    then have "ser_readdata8 bs = Inr (253, WriteLE16 (ucast n) @ s)" "ser_readdata16 (WriteLE16 (ucast n) @ s) = Inr (ucast n, s)"
      "ucast (ucast n :: u16) = n" "253 \<le> n"
      using 2 by (simp_all add: ser_readdata8_Inr ser_readdata16_Inr word_unat_eq_iff unat_ucast_u64 word_le_nat_alt)
    then show ?thesis using n(1) by (simp add: ReadCompactSize_def check_size_Inr)
  next
    case 3
    then have "bs = 254 # WriteLE32 (ucast n) @ s" "unat (ucast n :: u32) = unat n"
      using n(2) by (simp_all add: WriteCompactSize_def word_less_nat_alt word_le_nat_alt ser_writedata8_def unat_ucast_of_u64)
    then have "ser_readdata8 bs = Inr (254, WriteLE32 (ucast n) @ s)" "ser_readdata32 (WriteLE32 (ucast n) @ s) = Inr (ucast n, s)"
      "ucast (ucast n :: u32) = n" "0x10000 \<le> n"
      using 3 by (simp_all add: ser_readdata8_Inr ser_readdata32_Inr word_unat_eq_iff unat_ucast_u64 word_le_nat_alt)
    then show ?thesis using n(1) by (simp add: ReadCompactSize_def check_size_Inr)
  qed
qed

section \<open>The interface\<close>

locale codec =
  fixes put :: "'a \<Rightarrow> bytes" and get :: "'a reader" and ok :: "'a \<Rightarrow> bool"
  assumes get_put: "ok x \<Longrightarrow> get (put x @ s) = Inr (x, s)"
    and put_get: "get bs = Inr (x, s) \<Longrightarrow> ok x \<and> bs = put x @ s"
begin

lemma prefix_free:
  assumes "ok x" "ok y" "put x @ s = put y @ t"
  shows "x = y \<and> s = t"
  using get_put [OF assms(1), of s] get_put [OF assms(2), of t] unfolding assms(3) by simp

lemma put_inject: "ok x \<Longrightarrow> ok y \<Longrightarrow> put x = put y \<longleftrightarrow> x = y"
  using prefix_free [of x y "[]" "[]"] by auto

lemma get_iff: "get bs = Inr (x, s) \<longleftrightarrow> ok x \<and> bs = put x @ s"
  using get_put put_get by blast

lemma then_get [simp]: "ok x \<Longrightarrow> then_read get f (put x @ s) = f x s"
  by (simp add: get_put)

lemma then_get_Inr [read_iff]: "then_read get f bs = Inr y \<longleftrightarrow> (\<exists>x s. ok x \<and> bs = put x @ s \<and> f x s = Inr y)"
  by (auto simp: then_read_Inr get_iff)

lemma array_iff: "get_array get n bs = Inr (xs, s) \<longleftrightarrow> length xs = n \<and> list_all ok xs \<and> bs = put_array put xs @ s"
proof (induction n arbitrary: bs xs)
  case 0
  then show ?case by (auto simp: put_array_def)
next
  case (Suc n)
  then show ?case
    by (cases xs) (auto simp: then_read_Inr get_iff put_array_def)
qed

lemma array: "codec (put_array put) (get_array get n) (\<lambda>xs. length xs = n \<and> list_all ok xs)"
  by unfold_locales (auto simp: array_iff)

lemma vector: "codec (put_vector put) (get_vector get) (\<lambda>xs. length xs \<le> 0x2000000 \<and> list_all ok xs)"
proof
  fix xs s
  assume xs: "length xs \<le> 0x2000000 \<and> list_all ok xs"
  then have n: "unat (of_nat (length xs) :: u64) = length xs" by (simp add: unat_of_nat)
  then have "ReadCompactSize (put_vector put xs @ s) = Inr (of_nat (length xs), put_array put xs @ s)"
    using xs by (simp add: ReadCompactSize_Inr put_vector_def put_array_def word_le_nat_alt)
  then show "get_vector get (put_vector put xs @ s) = Inr (xs, s)"
    using xs n array_iff [of "length xs" "put_array put xs @ s" xs s] by (simp add: get_vector_def)
next
  fix bs xs s
  assume "get_vector get bs = Inr (xs, s)"
  then show "(length xs \<le> 0x2000000 \<and> list_all ok xs) \<and> bs = put_vector put xs @ s"
    by (auto simp: get_vector_def then_read_Inr ReadCompactSize_Inr array_iff put_vector_def put_array_def word_le_nat_alt)
qed

lemma optional: "codec (put_optional put) (get_optional get) (\<lambda>x. case x of None \<Rightarrow> True | Some y \<Rightarrow> ok y)"
proof
  fix x s
  assume x: "case x of None \<Rightarrow> True | Some y \<Rightarrow> ok y"
  have "ser_readdata8 (b # t) = Inr (b, t)" for b t by (simp add: ser_readdata8_Inr)
  then show "get_optional get (put_optional put x @ s) = Inr (x, s)"
    using x by (cases x) (simp_all add: get_optional_def put_optional_def ser_writedata8_def get_put)
next
  fix bs x s
  assume "get_optional get bs = Inr (x, s)"
  then show "(case x of None \<Rightarrow> True | Some y \<Rightarrow> ok y) \<and> bs = put_optional put x @ s"
    by (auto simp: get_optional_def put_optional_def then_read_Inr ser_readdata8_Inr ser_writedata8_def get_iff split: if_splits)
qed

end

section \<open>Instances\<close>

interpretation u8_codec: codec "\<lambda>b. [b]" ser_readdata8 "\<lambda>_. True"
  by unfold_locales (auto simp: ser_readdata8_Inr)

lemma then_u8 [simp]: "then_read ser_readdata8 f (b # s) = f b s"
  using u8_codec.then_get [of f b s] by simp

interpretation u16_codec: codec WriteLE16 ser_readdata16 "\<lambda>_. True"
  by unfold_locales (auto simp: ser_readdata16_Inr)

interpretation u32_codec: codec WriteLE32 ser_readdata32 "\<lambda>_. True"
  by unfold_locales (auto simp: ser_readdata32_Inr)

interpretation u64_codec: codec WriteLE64 ser_readdata64 "\<lambda>_. True"
  by unfold_locales (auto simp: ser_readdata64_Inr)

interpretation compact_size: codec WriteCompactSize ReadCompactSize "\<lambda>n. n \<le> MAX_SIZE"
  by unfold_locales (auto simp: ReadCompactSize_Inr)

interpretation blob: codec "\<lambda>b. b" "read_bytes n" "\<lambda>b. length b = n" for n
  by unfold_locales (auto simp: read_bytes_Inr)

lemma int_codec:
  assumes "codec put get (\<lambda>_ :: 'a :: len word. True)"
  shows "codec (\<lambda>i. put (word_of_int i)) (then_read get (\<lambda>a. give (sint a))) (\<lambda>i. - (2 ^ (LENGTH('a) - 1)) \<le> i \<and> i < 2 ^ (LENGTH('a) - 1))"
proof -
  note iff = codec.get_iff [OF assms]
  have "sint (word_of_int i :: 'a word) = i" if "- (2 ^ (LENGTH('a) - 1)) \<le> i \<and> i < 2 ^ (LENGTH('a) - 1)" for i
    using that by (simp add: sint_sbintrunc' signed_take_bit_int_eq_self)
  moreover have "- (2 ^ (LENGTH('a) - 1)) \<le> sint a" "sint a < 2 ^ (LENGTH('a) - 1)" for a :: "'a word"
    using sint_greater_eq [of a] sint_less [of a] by auto
  ultimately show ?thesis by unfold_locales (auto simp: then_read_Inr iff)
qed

interpretation int32: codec put_int32 get_int32 "\<lambda>i. - (2 ^ 31) \<le> i \<and> i < 2 ^ 31"
  using int_codec [OF u32_codec.codec_axioms] by (simp add: put_int32_def [abs_def] get_int32_def)

interpretation int64: codec put_int64 get_int64 in_int64
  using int_codec [OF u64_codec.codec_axioms] by (simp add: put_int64_def [abs_def] get_int64_def in_int64_def [abs_def])

interpretation byte_vector: codec put_bytes get_bytes "\<lambda>v. length v \<le> 0x2000000"
proof
  fix v s :: bytes
  assume v: "length v \<le> 0x2000000"
  then have n: "unat (of_nat (length v) :: u64) = length v" by (simp add: unat_of_nat)
  then have "ReadCompactSize (put_bytes v @ s) = Inr (of_nat (length v), v @ s)"
    using v by (simp add: ReadCompactSize_Inr put_bytes_def word_le_nat_alt)
  then show "get_bytes (put_bytes v @ s) = Inr (v, s)" using n by (simp add: get_bytes_def)
next
  fix bs v s
  assume "get_bytes bs = Inr (v, s)"
  then show "length v \<le> 0x2000000 \<and> bs = put_bytes v @ s"
    by (auto simp: get_bytes_def then_read_Inr ReadCompactSize_Inr read_bytes_Inr put_bytes_def word_le_nat_alt)
qed

lemma pair_codec:
  assumes "codec put1 get1 ok1" "codec put2 get2 ok2"
  shows "codec (put_pair put1 put2) (get_pair get1 get2) (\<lambda>(x, y). ok1 x \<and> ok2 y)"
  using codec.get_iff [OF assms(1)] codec.get_iff [OF assms(2)]
  by unfold_locales (auto simp: put_pair_def get_pair_def then_read_Inr)

section \<open>Sizes and variable length integers\<close>

lemma length_WriteCompactSize: "length (WriteCompactSize n) = GetSizeOfCompactSize n"
  by (simp add: WriteCompactSize_def GetSizeOfCompactSize_def ser_writedata8_def)

lemma length_WriteVarInt: "length (WriteVarInt n) = GetSizeOfVarInt n"
proof -
  have "length (varint_tmp b n) = GetSizeOfVarInt n" for b
    by (induction b n rule: varint_tmp.induct) (subst varint_tmp.simps, subst GetSizeOfVarInt.simps, simp)
  then show ?thesis by (simp add: WriteVarInt_def)
qed

declare varint_tmp.simps [simp del] GetSizeOfVarInt.simps [simp del]

lemma u8_low_bits: "unat ((b :: u8) AND 0x7F) = unat b mod 128"
proof -
  have m: "(0x7F :: u8) = mask 7" by (simp add: mask_eq_exp_minus_1)
  show ?thesis unfolding m take_bit_eq_mask [symmetric] unat_take_bit_mod by simp
qed

lemma varint_byte:
  assumes "m < 128"
  shows "unat ((of_nat m :: u8) AND 0x7F) = m" "(of_nat m :: u8) AND 0x80 = 0"
    "unat ((of_nat (m + 128) :: u8) AND 0x7F) = m" "(of_nat (m + 128) :: u8) AND 0x80 \<noteq> 0"
  using assms u8_sign [of "of_nat m"] u8_sign [of "of_nat (m + 128)"] by (simp_all add: u8_low_bits del: of_nat_add)

lemma mod_digit: "(k mod m * 128 + r) mod m = (k * 128 + r) mod (m :: nat)"
  by (metis mod_add_left_eq mod_mult_left_eq)

lemma mod_digit_Suc: "Suc (k mod m * 128 + r) mod m = Suc (k * 128 + r) mod (m :: nat)"
  using mod_digit [of k m "Suc r"] by simp

lemma ReadVarInt_digits:
  "ReadVarInt_loop w 0 (rev (varint_tmp True n) @ s) = ReadVarInt_loop w ((n + 1) mod 2 ^ w) s"
proof (induction n arbitrary: s rule: less_induct)
  case (less n)
  have step: "ReadVarInt_loop w (k mod 2 ^ w) (of_nat (n mod 128 + 128) # s) = ReadVarInt_loop w ((k * 128 + n mod 128 + 1) mod 2 ^ w) s" for k
    using varint_byte [of "n mod 128"] by (simp add: mod_simps mod_digit_Suc del: of_nat_add)
  show ?case
  proof (cases "n \<le> 0x7F")
    case True
    then show ?thesis using step [of 0] by (subst varint_tmp.simps) simp
  next
    case False
    then have "ReadVarInt_loop w 0 (rev (varint_tmp True n) @ s) = ReadVarInt_loop w ((n div 128) mod 2 ^ w) (of_nat (n mod 128 + 128) # s)"
      using less.IH [of "n div 128 - 1" "of_nat (n mod 128 + 128) # s"] by (subst varint_tmp.simps) simp
    then show ?thesis using step [of "n div 128"] by (simp del: of_nat_add ReadVarInt_loop.simps)
  qed
qed

lemma ReadVarInt_WriteVarInt: "ReadVarInt w (WriteVarInt n @ s) = Inr (n mod 2 ^ w, s)"
proof -
  have step: "ReadVarInt_loop w (k mod 2 ^ w) (of_nat (n mod 128) # s) = Inr ((k * 128 + n mod 128) mod 2 ^ w, s)" for k
    using varint_byte [of "n mod 128"] by (simp add: mod_simps mod_digit)
  show ?thesis
  proof (cases "n \<le> 0x7F")
    case True
    then show ?thesis using step [of 0] unfolding ReadVarInt_def WriteVarInt_def by (subst varint_tmp.simps) simp
  next
    case False
    then have "ReadVarInt w (WriteVarInt n @ s) = ReadVarInt_loop w ((n div 128) mod 2 ^ w) (of_nat (n mod 128) # s)"
      using ReadVarInt_digits [of w "n div 128 - 1" "of_nat (n mod 128) # s"]
      unfolding ReadVarInt_def WriteVarInt_def by (subst varint_tmp.simps) simp
    then show ?thesis using step [of "n div 128"] by (simp del: of_nat_add ReadVarInt_loop.simps)
  qed
qed

section \<open>Properties\<close>

text \<open>C31: The formats of sizes, byte strings and variable length integers: a compact size up to the limit has exactly one encoding, of
  the length that is computed for it, and every other form is rejected; a byte string is read exactly as it was written; a variable
  length integer is read back, reduced to the width of the type it is read into.\<close>

theorem wire_format_exact:
  "(ReadCompactSize bs = Inr (n, s) \<longleftrightarrow> n \<le> MAX_SIZE \<and> bs = WriteCompactSize n @ s) \<and>
   length (WriteCompactSize n) = GetSizeOfCompactSize n \<and>
   (get_bytes bs = Inr (v, s) \<longleftrightarrow> length v \<le> 0x2000000 \<and> bs = put_bytes v @ s) \<and>
   ReadVarInt w (WriteVarInt k @ s) = Inr (k mod 2 ^ w, s) \<and> length (WriteVarInt k) = GetSizeOfVarInt k"
  using ReadCompactSize_Inr length_WriteCompactSize byte_vector.get_iff ReadVarInt_WriteVarInt length_WriteVarInt by simp

end
