(* ===== verification/Subsidy.thy ===== *)
theory Subsidy
  imports ChainParams
begin

text \<open>
  Amounts of money (\<^verbatim>\<open>amount.h\<close>, \<^verbatim>\<open>amount.cpp\<close>), the block subsidy (\<^verbatim>\<open>GetBlockSubsidy\<close> of \<^verbatim>\<open>main.cpp\<close>) and the cap on the
  money supply. A \<^verbatim>\<open>CAmount\<close> is a signed 64-bit number and is an \<open>int\<close> here; where the code mixes it with \<open>size_t\<close> or
  \<open>unsigned long long\<close> operands, the arithmetic is that of \<open>u64\<close>.
\<close>

section \<open>Amounts\<close>

abbreviation COIN :: int where "COIN \<equiv> 100000000"
abbreviation CENT :: int where "CENT \<equiv> 1000000"

definition MAX_MONEY :: int where
  "MAX_MONEY = 126000000 * COIN"

definition MoneyRange :: "int \<Rightarrow> bool" where
  "MoneyRange nValue \<longleftrightarrow> nValue \<ge> 0 \<and> nValue \<le> MAX_MONEY"

record CFeeRate =
  nSatoshisPerK :: int

definition CFeeRate_of :: "int \<Rightarrow> u64 \<Rightarrow> CFeeRate" where
  "CFeeRate_of nFeePaid nSize =
     \<lparr>nSatoshisPerK = (if nSize > 0 then int64_of (u64_of (nFeePaid * 1000) div nSize) else 0)\<rparr>"

definition GetFee :: "CFeeRate \<Rightarrow> u64 \<Rightarrow> int" where
  "GetFee r nSize =
     (let nFee = int64_of (u64_of (nSatoshisPerK r) * nSize div 1000)
      in if nFee = 0 \<and> nSatoshisPerK r > 0 then nSatoshisPerK r else nFee)"

definition GetFeePerK :: "CFeeRate \<Rightarrow> int" where
  "GetFeePerK r = GetFee r 1000"

section \<open>The block subsidy\<close>

definition GetBlockSubsidy :: "int \<Rightarrow> Params \<Rightarrow> int" where
  "GetBlockSubsidy nHeight consensusParams =
     (if nHeight \<ge> 21 \<and> nHeight \<le> 80 then int64_of (1000000 * u64_of COIN)
      else if nHeight < nSubsidySlowStartHeight consensusParams then 0
      else if nHeight < nSubsidySlowStartHeight consensusParams + nSubsidySlowStartInterval consensusParams then
        let relHeight = nHeight - nSubsidySlowStartHeight consensusParams + 1
        in int64_of (20 * u64_of COIN * u64_of relHeight div u64_of (nSubsidySlowStartInterval consensusParams))
      else
        let relHeight = nHeight - (nSubsidySlowStartHeight consensusParams + nSubsidySlowStartInterval consensusParams) + 1;
            halvings = (of_int (cdiv relHeight (nSubsidyHalvingInterval consensusParams)) :: u32);
            relHeight = cmod relHeight (nSubsidyHalvingInterval consensusParams);
            halvings = (if halvings > 63 then 63 else halvings);
            nSubsidy = int64_of (drop_bit (unat halvings) (20 * u64_of COIN))
        in cdiv nSubsidy 2 +
           cdiv (nSubsidy * (nSubsidyHalvingInterval consensusParams - relHeight))
                (2 * nSubsidyHalvingInterval consensusParams))"

section \<open>The money supply\<close>

definition total_supply :: "Params \<Rightarrow> nat \<Rightarrow> int" where
  "total_supply p n = (\<Sum>h<n. GetBlockSubsidy (int h) p)"

definition subsidy_params :: "Params \<Rightarrow> bool" where
  "subsidy_params p \<longleftrightarrow> nSubsidySlowStartHeight p = 201 \<and> nSubsidySlowStartInterval p = 43200
     \<and> nSubsidyHalvingInterval p = 2185600"

lemma shipped_subsidy: "shipped p \<Longrightarrow> subsidy_params p"
  by (auto simp: shipped_def subsidy_params_def CMainParams_def CTestNetParams_def CRegTestParams_def)

text \<open>The subsidy after the slow start as a function of the relative height.\<close>

definition declining :: "int \<Rightarrow> int \<Rightarrow> int" where
  "declining n r = n div 2 + n * (2185600 - r) div (2 * 2185600)"

definition tail_subsidy :: "nat \<Rightarrow> int" where
  "tail_subsidy r = declining (2000000000 div 2 ^ (r div 2185600)) (int (r mod 2185600))"

lemma sint_u64: "0 \<le> i \<Longrightarrow> i < 2 ^ 63 \<Longrightarrow> int64_of (u64_of i) = i"
  by (simp add: in_int64_def int64_of_u64_of)

lemma int_div_le: "0 \<le> (i :: int) \<Longrightarrow> 0 < j \<Longrightarrow> i div j \<le> i"
  using zdiv_mono2 [of i 1 j] by simp

lemma u64_div:
  assumes "0 \<le> i" "i < 2 ^ 63" "0 < j" "j < 2 ^ 63"
  shows "int64_of (u64_of i div u64_of j) = i div j"
proof -
  have "u64_of i div u64_of j = u64_of (i div j)"
    using assms by (simp add: word_div_def uint_word_of_int)
  moreover have "0 \<le> i div j" "i div j < 2 ^ 63"
    using assms int_div_le [of i j] by (simp_all add: pos_imp_zdiv_nonneg_iff)
  ultimately show ?thesis by (simp add: sint_u64)
qed

lemma u64_shr: "0 \<le> i \<Longrightarrow> i < 2 ^ 63 \<Longrightarrow> int64_of (drop_bit k (u64_of i)) = i div 2 ^ k"
proof -
  assume i: "0 \<le> i" "i < 2 ^ 63"
  have "uint (drop_bit k (u64_of i)) = i div 2 ^ k"
    unfolding unsigned_drop_bit_eq using i by (simp add: drop_bit_eq_div uint_word_of_int take_bit_int_eq_self)
  then have "drop_bit k (u64_of i) = u64_of (i div 2 ^ k)" by (metis word_of_int_uint)
  moreover have "0 \<le> i div 2 ^ k" "i div 2 ^ k < 2 ^ 63"
    using i int_div_le [of i "2 ^ k"] by (simp_all add: pos_imp_zdiv_nonneg_iff)
  ultimately show ?thesis by (simp add: sint_u64)
qed

lemma halved_out: "63 \<le> k \<Longrightarrow> (2000000000 :: int) div 2 ^ k = 0"
proof -
  assume "63 \<le> k"
  then have "(2 :: int) ^ 63 \<le> 2 ^ k" by (intro power_increasing) auto
  then show ?thesis by (simp add: div_pos_pos_trivial)
qed

lemma GetBlockSubsidy_premine: "21 \<le> h \<Longrightarrow> h \<le> 80 \<Longrightarrow> GetBlockSubsidy h p = 1000000 * COIN"
  using sint_u64 [of "1000000 * COIN"] by (simp add: GetBlockSubsidy_def)

lemma GetBlockSubsidy_early: "subsidy_params p \<Longrightarrow> h < 201 \<Longrightarrow> \<not> (21 \<le> h \<and> h \<le> 80) \<Longrightarrow> GetBlockSubsidy h p = 0"
  by (auto simp: GetBlockSubsidy_def subsidy_params_def)

lemma GetBlockSubsidy_slow_start:
  assumes "subsidy_params p" "201 \<le> h" "h < 43401"
  shows "GetBlockSubsidy h p = 2000000000 * (h - 200) div 43200"
proof -
  have "20 * u64_of COIN * u64_of (h - 201 + 1) = u64_of (2000000000 * (h - 200))"
    by (simp add: algebra_simps flip: wi_hom_mult wi_hom_add wi_hom_sub)
  then show ?thesis
    using assms u64_div [of "2000000000 * (h - 200)" 43200]
    by (simp add: GetBlockSubsidy_def subsidy_params_def Let_def)
qed

lemma GetBlockSubsidy_tail:
  assumes "subsidy_params p" "1 \<le> r" "r < 2 ^ 32"
  shows "GetBlockSubsidy (43400 + int r) p = tail_subsidy r"
proof -
  define k where "k = r div 2185600"
  have div: "cdiv (int r) 2185600 = int k" by (simp add: k_def zdiv_int)
  have mod: "cmod (int r) 2185600 = int (r mod 2185600)"
    unfolding cmod_def div by (simp add: k_def zmod_int zdiv_int minus_mult_div_eq_mod)
  have "k < 2 ^ 32" using assms(3) unfolding k_def by (meson div_le_dividend le_less_trans)
  then have k: "unat (of_nat k :: u32) = k" by (simp add: unat_of_nat)
  then have shift: "int64_of (drop_bit (unat (if of_nat k > (63 :: u32) then 63 else of_nat k :: u32)) 2000000000) = 2000000000 div 2 ^ k"
    using u64_shr [of 2000000000 63] u64_shr [of 2000000000 k] halved_out [of 63] halved_out [of k]
    by (auto simp: word_less_nat_alt)
  have "0 \<le> (2000000000 :: int) div 2 ^ k" by (simp add: pos_imp_zdiv_nonneg_iff)
  moreover have "int (r mod 2185600) \<le> 2185600" using mod_less_divisor [of 2185600 r] by linarith
  ultimately show ?thesis
    using assms(1,2) div mod shift
    by (simp add: GetBlockSubsidy_def subsidy_params_def Let_def tail_subsidy_def declining_def split del: if_split
        cong: if_cong flip: k_def)
qed


text \<open>Each halving period pays at most three quarters of the undiminished reward.\<close>

lemma declining_nonneg: "0 \<le> n \<Longrightarrow> r \<le> 2185600 \<Longrightarrow> 0 \<le> declining n r"
  by (simp add: declining_def pos_imp_zdiv_nonneg_iff)

lemma declining_le: "0 \<le> n \<Longrightarrow> 0 \<le> r \<Longrightarrow> 4371200 * declining n r \<le> 2185600 * n + n * (2185600 - r)"
proof -
  have "4371200 * (n div 2) \<le> 2185600 * n" by simp
  moreover have "4371200 * (n * (2185600 - r) div 4371200) \<le> n * (2185600 - r)" by simp
  ultimately show ?thesis by (simp add: declining_def algebra_simps)
qed

lemma sum_upto: "2 * (\<Sum>r<m. c - int r) = 2 * c * int m - int m * (int m - 1)"
  by (induction m) (simp_all add: algebra_simps)

lemma period_sum:
  assumes "0 \<le> n"
  shows "4 * (\<Sum>r<2185600. declining n (int r)) \<le> n * 6556801"
proof -
  have "4371200 * (\<Sum>r<2185600. declining n (int r)) \<le> (\<Sum>r<2185600::nat. 2185600 * n + n * (2185600 - int r))"
    unfolding sum_distrib_left using declining_le [OF assms] by (intro sum_mono) simp
  also have "\<dots> = 2185600 * (2185600 * n) + n * (\<Sum>r<2185600::nat. 2185600 - int r)"
    by (simp add: sum.distrib sum_distrib_left)
  finally have "2 * (4371200 * (\<Sum>r<2185600. declining n (int r))) \<le>
      2 * (2185600 * (2185600 * n)) + n * (2 * (\<Sum>r<2185600::nat. 2185600 - int r))" by (simp add: algebra_simps)
  then show ?thesis by (simp only: sum_upto) (simp add: algebra_simps)
qed

lemma sum_lessThan_add: "(\<Sum>i<m + n. f i) = (\<Sum>i<m. f i) + (\<Sum>i<n. f (m + i))" for f :: "nat \<Rightarrow> int"
  by (induction n) simp_all

lemma tail_periods:
  "4 * (\<Sum>r<K * 2185600. tail_subsidy r) \<le> 6556801 * (2 * 2000000000 - 2 * (2000000000 div 2 ^ K))"
proof (induction K)
  case (Suc K)
  define n :: int where "n = 2000000000 div 2 ^ K"
  have n0: "0 \<le> n" by (simp add: n_def pos_imp_zdiv_nonneg_iff)
  have half: "2000000000 div 2 ^ Suc K = n div 2"
    unfolding n_def power_Suc2 by (rule zdiv_zmult2_eq) simp
  have "(\<Sum>r<Suc K * 2185600. tail_subsidy r) =
      (\<Sum>r<K * 2185600. tail_subsidy r) + (\<Sum>r<2185600. tail_subsidy (K * 2185600 + r))"
    using sum_lessThan_add [of tail_subsidy "K * 2185600" 2185600] by (simp add: add.commute)
  also have "(\<Sum>r<2185600. tail_subsidy (K * 2185600 + r)) = (\<Sum>r<2185600. declining n (int r))"
    by (intro sum.cong) (simp_all add: tail_subsidy_def n_def)
  finally show ?case
    using Suc [folded n_def] period_sum [OF n0] unfolding half by (simp add: algebra_simps)
qed simp


lemma tail_subsidy_nonneg: "0 \<le> tail_subsidy r"
  unfolding tail_subsidy_def
  by (rule declining_nonneg) (use mod_less_divisor [of 2185600 r] in \<open>simp_all add: pos_imp_zdiv_nonneg_iff\<close>)

lemma tail_bound: "(\<Sum>r<m. tail_subsidy (Suc r)) \<le> 6556799000000000"
proof -
  define q :: int where "q = 2000000000 div 2 ^ Suc m"
  define a b where "a = (\<Sum>r<Suc m. tail_subsidy r)" and "b = (\<Sum>r<Suc m * 2185600. tail_subsidy r)"
  have "a \<le> b" unfolding a_def b_def by (rule sum_mono2) (auto simp: tail_subsidy_nonneg)
  moreover have "0 \<le> q" by (simp add: q_def pos_imp_zdiv_nonneg_iff del: power_Suc)
  moreover have "4 * b \<le> 6556801 * (2 * 2000000000 - 2 * q)" unfolding b_def q_def by (rule tail_periods)
  ultimately have "4 * a \<le> 6556801 * (2 * 2000000000)" by (simp add: right_diff_distrib)
  then have "4 * (\<Sum>r<Suc m. tail_subsidy r) \<le> 6556801 * (2 * 2000000000)" by (simp only: a_def)
  moreover have "tail_subsidy 0 = 2000000000" by (simp add: tail_subsidy_def declining_def)
  ultimately show ?thesis by (simp add: sum.lessThan_Suc_shift del: sum.lessThan_Suc)
qed

lemma slow_start_bound: "(\<Sum>r<43200. 2000000000 * (int r + 1) div 43200) \<le> 43201000000000"
proof -
  have "43200 * (\<Sum>r<43200::nat. 2000000000 * (int r + 1) div 43200) \<le> (\<Sum>r<43200::nat. 2000000000 * (int r + 1))"
    unfolding sum_distrib_left by (intro sum_mono) simp
  also have "\<dots> = 2000000000 * (\<Sum>r<43200::nat. int r + 1)" by (simp only: sum_distrib_left)
  also have "(\<Sum>r<m. int r + 1) = int m * (int m + 1) div 2" for m
    by (induction m) (simp_all add: algebra_simps)
  finally show ?thesis by simp
qed

lemma supply_through_slow_start:
  assumes "subsidy_params p"
  shows "total_supply p 43401 \<le> 6043201000000000"
proof -
  have a: "total_supply p 43401 = (\<Sum>h<81. GetBlockSubsidy (int h) p) + (\<Sum>h<120. GetBlockSubsidy (int (81 + h)) p)
      + (\<Sum>h<43200. GetBlockSubsidy (int (201 + h)) p)"
    unfolding total_supply_def
    using sum_lessThan_add [of "\<lambda>h. GetBlockSubsidy (int h) p" 201 43200]
      sum_lessThan_add [of "\<lambda>h. GetBlockSubsidy (int h) p" 81 120] by simp
  have "(\<Sum>h<81. GetBlockSubsidy (int h) p) =
      (\<Sum>h<21. GetBlockSubsidy (int h) p) + (\<Sum>h<60. GetBlockSubsidy (int (21 + h)) p)"
    using sum_lessThan_add [of "\<lambda>h. GetBlockSubsidy (int h) p" 21 60] by simp
  also have "(\<Sum>h<21. GetBlockSubsidy (int h) p) = 0"
    using assms by (intro sum.neutral) (simp add: GetBlockSubsidy_early)
  also have "(\<Sum>h<60. GetBlockSubsidy (int (21 + h)) p) = (\<Sum>h<60::nat. 1000000 * COIN)"
    by (intro sum.cong) (simp_all add: GetBlockSubsidy_premine)
  finally have b: "(\<Sum>h<81. GetBlockSubsidy (int h) p) = 6000000000000000" by simp
  have c: "(\<Sum>h<120. GetBlockSubsidy (int (81 + h)) p) = 0"
    using assms by (intro sum.neutral) (simp add: GetBlockSubsidy_early)
  have "(\<Sum>h<43200. GetBlockSubsidy (int (201 + h)) p) = (\<Sum>h<43200::nat. 2000000000 * (int h + 1) div 43200)"
    using assms by (intro sum.cong) (simp_all add: GetBlockSubsidy_slow_start)
  with slow_start_bound a b c show ?thesis by linarith
qed

lemma GetBlockSubsidy_nonneg: "subsidy_params p \<Longrightarrow> 0 \<le> h \<Longrightarrow> h < 2 ^ 31 \<Longrightarrow> 0 \<le> GetBlockSubsidy h p"
proof -
  assume a: "subsidy_params p" "0 \<le> h" "h < 2 ^ 31"
  consider "21 \<le> h \<and> h \<le> 80" | "h < 201" "\<not> (21 \<le> h \<and> h \<le> 80)" | "201 \<le> h" "h < 43401" | "43401 \<le> h" by linarith
  then show ?thesis
  proof cases
    case 4
    with a GetBlockSubsidy_tail [of p "nat (h - 43400)"] tail_subsidy_nonneg show ?thesis by simp
  qed (use a in \<open>simp_all add: GetBlockSubsidy_premine GetBlockSubsidy_early GetBlockSubsidy_slow_start pos_imp_zdiv_nonneg_iff\<close>)
qed

text \<open>C1: The money supply is capped: on each shipped network the subsidies of all blocks together, up to any height
  the program can represent, never exceed \<^verbatim>\<open>MAX_MONEY\<close>. The bound leaves no slack: without the rounding down of
  every subsidy the sum tends to exactly \<^verbatim>\<open>MAX_MONEY\<close>.\<close>

theorem money_supply_is_capped:
  assumes "shipped p" "n \<le> 2 ^ 31"
  shows "0 \<le> total_supply p n \<and> total_supply p n \<le> MAX_MONEY"
proof
  have p: "subsidy_params p" using assms(1) by (rule shipped_subsidy)
  show "0 \<le> total_supply p n"
    unfolding total_supply_def using p assms(2) by (intro sum_nonneg GetBlockSubsidy_nonneg) auto
  have tail: "total_supply p (43401 + m) \<le> MAX_MONEY" if "m \<le> 2 ^ 31" for m
  proof -
    have "(\<Sum>h<m. GetBlockSubsidy (int (43401 + h)) p) = (\<Sum>h<m. tail_subsidy (Suc h))"
    proof (intro sum.cong refl)
      fix h assume "h \<in> {..<m}"
      with GetBlockSubsidy_tail [OF p, of "Suc h"] that show "GetBlockSubsidy (int (43401 + h)) p = tail_subsidy (Suc h)"
        by simp
    qed
    then show ?thesis
      using tail_bound [of m] supply_through_slow_start [OF p]
        sum_lessThan_add [of "\<lambda>h. GetBlockSubsidy (int h) p" 43401 m]
      by (simp add: total_supply_def MAX_MONEY_def)
  qed
  have "total_supply p n \<le> total_supply p (43401 + n)" if "n < 43401"
    unfolding total_supply_def using that p by (intro sum_mono2) (auto intro: GetBlockSubsidy_nonneg)
  then show "total_supply p n \<le> MAX_MONEY"
    using tail [of "n - 43401"] tail [of n] assms(2) by (cases "n < 43401") auto
qed

theorem money_supply_is_capped_witness:
  "0 \<le> total_supply CMainParams 900000 \<and> total_supply CMainParams 900000 \<le> MAX_MONEY"
  using money_supply_is_capped [of CMainParams 900000] by (simp add: shipped_def)

section \<open>Fee rates\<close>

text \<open>A fee is the rate times the size, rounded down to whole satoshis per thousand bytes, but never zero for a positive
  rate, while the product stays in the signed 64-bit range. A negative rate does not give a negative fee: the
  product is taken in unsigned arithmetic and the fee is a huge positive number.\<close>

theorem fee_is_rounded_product:
  "(0 \<le> nSatoshisPerK r \<and> nSatoshisPerK r * uint nSize < 2 ^ 63 \<longrightarrow>
      GetFee r nSize = (if 0 < nSatoshisPerK r \<and> nSatoshisPerK r * uint nSize < 1000 then nSatoshisPerK r
                        else nSatoshisPerK r * uint nSize div 1000)) \<and>
   (nSatoshisPerK r < 0 \<and> - (2 ^ 63) \<le> nSatoshisPerK r * uint nSize \<and> 0 < nSize \<longrightarrow>
      GetFee r nSize = (2 ^ 64 + nSatoshisPerK r * uint nSize) div 1000 \<and> 9 * 10 ^ 15 < GetFee r nSize)"
proof (intro conjI impI)
  assume a: "0 \<le> nSatoshisPerK r \<and> nSatoshisPerK r * uint nSize < 2 ^ 63"
  let ?x = "nSatoshisPerK r * uint nSize"
  have x: "0 \<le> ?x" using a by simp
  have "u64_of (nSatoshisPerK r) * nSize = u64_of ?x" by (metis word_of_int_uint wi_hom_mult)
  then have f: "int64_of (u64_of (nSatoshisPerK r) * nSize div 1000) = ?x div 1000"
    using u64_div [of ?x 1000] a x by simp
  have "?x div 1000 = 0 \<longleftrightarrow> ?x < 1000" using x by auto
  then show "GetFee r nSize = (if 0 < nSatoshisPerK r \<and> ?x < 1000 then nSatoshisPerK r else ?x div 1000)"
    by (simp add: GetFee_def Let_def f)
next
  assume a: "nSatoshisPerK r < 0 \<and> - (2 ^ 63) \<le> nSatoshisPerK r * uint nSize \<and> 0 < nSize"
  let ?x = "nSatoshisPerK r * uint nSize"
  have "0 < uint nSize" using a by (simp add: word_less_def)
  then have x: "?x < 0" using a by (simp add: mult_neg_pos)
  have "u64_of (nSatoshisPerK r) * nSize = u64_of ?x" by (metis word_of_int_uint wi_hom_mult)
  also have "uint \<dots> = 2 ^ 64 + ?x"
  proof -
    have "?x mod 2 ^ 64 = (2 ^ 64 + ?x) mod 2 ^ 64" by (simp only: mod_add_self1)
    also have "\<dots> = 2 ^ 64 + ?x" using a x by (intro mod_pos_pos_trivial) auto
    finally show ?thesis unfolding uint_word_of_int by simp
  qed
  finally have "uint (u64_of (nSatoshisPerK r) * nSize div 1000) = (2 ^ 64 + ?x) div 1000"
    by (simp add: uint_div)
  moreover have b: "0 \<le> (2 ^ 64 + ?x) div 1000" "(2 ^ 64 + ?x) div 1000 < 2 ^ 63" "9 * 10 ^ 15 < (2 ^ 64 + ?x) div 1000"
    using a x by auto
  ultimately have f: "int64_of (u64_of (nSatoshisPerK r) * nSize div 1000) = (2 ^ 64 + ?x) div 1000"
    by (metis sint_u64 word_of_int_uint)
  show "GetFee r nSize = (2 ^ 64 + ?x) div 1000" "9 * 10 ^ 15 < GetFee r nSize"
    using a b by (simp_all add: GetFee_def Let_def f)
qed

theorem fee_is_rounded_product_witness:
  "GetFee \<lparr>nSatoshisPerK = 1000\<rparr> 250 = 250 \<and> GetFee \<lparr>nSatoshisPerK = 3\<rparr> 100 = 3 \<and>
   GetFee \<lparr>nSatoshisPerK = - 1000\<rparr> 1000 = 18446744073708551"
  using fee_is_rounded_product [of "\<lparr>nSatoshisPerK = 1000\<rparr>" 250] fee_is_rounded_product [of "\<lparr>nSatoshisPerK = 3\<rparr>" 100]
    fee_is_rounded_product [of "\<lparr>nSatoshisPerK = - 1000\<rparr>" 1000]
  by simp

end
