(* ===== verification/Transaction.thy ===== *)
theory Transaction
  imports Serialize Subsidy
begin

unbundle bit_operations_syntax

text \<open>
  Transactions (\<^verbatim>\<open>primitives/transaction.h\<close>, \<^verbatim>\<open>primitives/transaction.cpp\<close>, the proofs of \<^verbatim>\<open>zcash/Proof.hpp\<close>): the classes as records, their
  wire format, hashes and sums of values. A \<open>uint256\<close> and an array of bytes are byte lists. Reading overwrites an existing object, so
  \<open>tx_Unserialize\<close> takes the object that is read into: the members that a format does not have keep their values.
\<close>

section \<open>Inputs and outputs\<close>

record COutPoint =
  out_hash :: bytes
  out_n :: u32

definition outpoint_null :: COutPoint where
  "outpoint_null = \<lparr>out_hash = replicate 32 0, out_n = - 1\<rparr>"

definition outpoint_IsNull :: "COutPoint \<Rightarrow> bool" where
  "outpoint_IsNull a \<longleftrightarrow> list_all (\<lambda>b. b = 0) (out_hash a) \<and> out_n a = - 1"

definition put_COutPoint :: "COutPoint \<Rightarrow> bytes" where
  "put_COutPoint a = out_hash a @ WriteLE32 (out_n a)"

definition get_COutPoint :: "COutPoint reader" where
  "get_COutPoint = then_read (read_bytes 32) (\<lambda>h. then_read ser_readdata32 (\<lambda>n. give \<lparr>out_hash = h, out_n = n\<rparr>))"

definition ok_COutPoint :: "COutPoint \<Rightarrow> bool" where
  "ok_COutPoint a \<longleftrightarrow> length (out_hash a) = 32"

record CTxIn =
  prevout :: COutPoint
  scriptSig :: CScript
  nSequence :: u32

definition txin_IsFinal :: "CTxIn \<Rightarrow> bool" where
  "txin_IsFinal a \<longleftrightarrow> nSequence a = - 1"

definition put_CTxIn :: "CTxIn \<Rightarrow> bytes" where
  "put_CTxIn a = put_COutPoint (prevout a) @ put_bytes (scriptSig a) @ WriteLE32 (nSequence a)"

definition get_CTxIn :: "CTxIn reader" where
  "get_CTxIn = then_read get_COutPoint (\<lambda>p. then_read get_bytes (\<lambda>s. then_read ser_readdata32 (\<lambda>n.
     give \<lparr>prevout = p, scriptSig = s, nSequence = n\<rparr>)))"

definition ok_CTxIn :: "CTxIn \<Rightarrow> bool" where
  "ok_CTxIn a \<longleftrightarrow> ok_COutPoint (prevout a) \<and> length (scriptSig a) \<le> 0x2000000"

record CTxOut =
  nValue :: int
  scriptPubKey :: CScript

definition txout_null :: CTxOut where
  "txout_null = \<lparr>nValue = - 1, scriptPubKey = []\<rparr>"

definition txout_IsNull :: "CTxOut \<Rightarrow> bool" where
  "txout_IsNull a \<longleftrightarrow> nValue a = - 1"

definition put_CTxOut :: "CTxOut \<Rightarrow> bytes" where
  "put_CTxOut a = put_int64 (nValue a) @ put_bytes (scriptPubKey a)"

definition get_CTxOut :: "CTxOut reader" where
  "get_CTxOut = then_read get_int64 (\<lambda>v. then_read get_bytes (\<lambda>s. give \<lparr>nValue = v, scriptPubKey = s\<rparr>))"

definition ok_CTxOut :: "CTxOut \<Rightarrow> bool" where
  "ok_CTxOut a \<longleftrightarrow> in_int64 (nValue a) \<and> length (scriptPubKey a) \<le> 0x2000000"

definition txout_GetHash :: "CTxOut \<Rightarrow> bytes" where
  "txout_GetHash a = Hash1 (put_CTxOut a)"

section \<open>Shielded parts\<close>

record SpendDescription =
  spend_cv :: bytes
  spend_anchor :: bytes
  spend_nullifier :: bytes
  spend_rk :: bytes
  spend_zkproof :: bytes
  spendAuthSig :: bytes

definition put_SpendDescription :: "SpendDescription \<Rightarrow> bytes" where
  "put_SpendDescription a = spend_cv a @ spend_anchor a @ spend_nullifier a @ spend_rk a @ spend_zkproof a @ spendAuthSig a"

definition get_SpendDescription :: "SpendDescription reader" where
  "get_SpendDescription = then_read (read_bytes 32) (\<lambda>cv. then_read (read_bytes 32) (\<lambda>anchor. then_read (read_bytes 32) (\<lambda>nf.
     then_read (read_bytes 32) (\<lambda>rk. then_read (read_bytes 192) (\<lambda>proof. then_read (read_bytes 64) (\<lambda>auth.
     give \<lparr>spend_cv = cv, spend_anchor = anchor, spend_nullifier = nf, spend_rk = rk, spend_zkproof = proof, spendAuthSig = auth\<rparr>))))))"

definition ok_SpendDescription :: "SpendDescription \<Rightarrow> bool" where
  "ok_SpendDescription a \<longleftrightarrow> length (spend_cv a) = 32 \<and> length (spend_anchor a) = 32 \<and> length (spend_nullifier a) = 32 \<and>
     length (spend_rk a) = 32 \<and> length (spend_zkproof a) = 192 \<and> length (spendAuthSig a) = 64"

record OutputDescription =
  output_cv :: bytes
  output_cm :: bytes
  output_ephemeralKey :: bytes
  encCiphertext :: bytes
  outCiphertext :: bytes
  output_zkproof :: bytes

definition put_OutputDescription :: "OutputDescription \<Rightarrow> bytes" where
  "put_OutputDescription a = output_cv a @ output_cm a @ output_ephemeralKey a @ encCiphertext a @ outCiphertext a @ output_zkproof a"

definition get_OutputDescription :: "OutputDescription reader" where
  "get_OutputDescription = then_read (read_bytes 32) (\<lambda>cv. then_read (read_bytes 32) (\<lambda>cm. then_read (read_bytes 32) (\<lambda>key.
     then_read (read_bytes 580) (\<lambda>enc. then_read (read_bytes 80) (\<lambda>out. then_read (read_bytes 192) (\<lambda>proof.
     give \<lparr>output_cv = cv, output_cm = cm, output_ephemeralKey = key, encCiphertext = enc, outCiphertext = out, output_zkproof = proof\<rparr>))))))"

definition ok_OutputDescription :: "OutputDescription \<Rightarrow> bool" where
  "ok_OutputDescription a \<longleftrightarrow> length (output_cv a) = 32 \<and> length (output_cm a) = 32 \<and> length (output_ephemeralKey a) = 32 \<and>
     length (encCiphertext a) = 580 \<and> length (outCiphertext a) = 80 \<and> length (output_zkproof a) = 192"

text \<open>A compressed point is its leading bit and the bytes of its coordinate; the groups differ in the prefix and the length.\<close>

record CompressedPoint =
  y_bit :: bool
  x_coord :: bytes

definition put_point :: "u8 \<Rightarrow> CompressedPoint \<Rightarrow> bytes" where
  "put_point prefix p = (let leadingByte = (if y_bit p then prefix OR 1 else prefix) in ser_writedata8 leadingByte @ x_coord p)"

definition get_point :: "u8 \<Rightarrow> nat \<Rightarrow> CompressedPoint reader" where
  "get_point prefix len = then_read ser_readdata8 (\<lambda>leadingByte.
     if leadingByte AND NOT 1 \<noteq> prefix then throw_read ''lead byte of point not recognized''
     else then_read (read_bytes len) (\<lambda>x. give \<lparr>y_bit = (leadingByte AND 1 \<noteq> 0), x_coord = x\<rparr>))"

record PHGRProof =
  g_A :: CompressedPoint
  g_A_prime :: CompressedPoint
  g_B :: CompressedPoint
  g_B_prime :: CompressedPoint
  g_C :: CompressedPoint
  g_C_prime :: CompressedPoint
  g_K :: CompressedPoint
  g_H :: CompressedPoint

definition put_PHGRProof :: "PHGRProof \<Rightarrow> bytes" where
  "put_PHGRProof p = put_point 0x02 (g_A p) @ put_point 0x02 (g_A_prime p) @ put_point 0x0a (g_B p) @ put_point 0x02 (g_B_prime p) @
     put_point 0x02 (g_C p) @ put_point 0x02 (g_C_prime p) @ put_point 0x02 (g_K p) @ put_point 0x02 (g_H p)"

definition get_PHGRProof :: "PHGRProof reader" where
  "get_PHGRProof = then_read (get_point 0x02 32) (\<lambda>a. then_read (get_point 0x02 32) (\<lambda>a'. then_read (get_point 0x0a 64) (\<lambda>b.
     then_read (get_point 0x02 32) (\<lambda>b'. then_read (get_point 0x02 32) (\<lambda>c. then_read (get_point 0x02 32) (\<lambda>c'.
     then_read (get_point 0x02 32) (\<lambda>k. then_read (get_point 0x02 32) (\<lambda>h.
     give \<lparr>g_A = a, g_A_prime = a', g_B = b, g_B_prime = b', g_C = c, g_C_prime = c', g_K = k, g_H = h\<rparr>))))))))"

datatype SproutProof = PHGR PHGRProof | Groth bytes

fun put_SproutProof :: "bool \<Rightarrow> SproutProof \<Rightarrow> failure + bytes" where
  "put_SproutProof useGroth (PHGR proof) = (if useGroth
     then Inl (Thrown ''Invalid Sprout proof for transaction format (expected GrothProof, found PHGRProof)'')
     else Inr (put_PHGRProof proof))"
| "put_SproutProof useGroth (Groth proof) = (if \<not> useGroth
     then Inl (Thrown ''Invalid Sprout proof for transaction format (expected PHGRProof, found GrothProof)'')
     else Inr proof)"

definition get_SproutProof :: "bool \<Rightarrow> SproutProof reader" where
  "get_SproutProof useGroth = (if useGroth then then_read (read_bytes 192) (\<lambda>p. give (Groth p))
     else then_read get_PHGRProof (\<lambda>p. give (PHGR p)))"

record JSDescription =
  vpub_old :: int
  vpub_new :: int
  js_anchor :: bytes
  nullifiers :: "bytes list"
  commitments :: "bytes list"
  js_ephemeralKey :: bytes
  ciphertexts :: "bytes list"
  randomSeed :: bytes
  macs :: "bytes list"
  js_proof :: SproutProof

definition put_JSDescription :: "bool \<Rightarrow> JSDescription \<Rightarrow> failure + bytes" where
  "put_JSDescription useGroth a = and_then (put_SproutProof useGroth (js_proof a)) (\<lambda>proof.
     Inr (put_int64 (vpub_old a) @ put_int64 (vpub_new a) @ js_anchor a @ put_array (\<lambda>b. b) (nullifiers a) @
       put_array (\<lambda>b. b) (commitments a) @ js_ephemeralKey a @ randomSeed a @ put_array (\<lambda>b. b) (macs a) @ proof @
       put_array (\<lambda>b. b) (ciphertexts a)))"

definition get_JSDescription :: "bool \<Rightarrow> JSDescription reader" where
  "get_JSDescription useGroth = then_read get_int64 (\<lambda>old. then_read get_int64 (\<lambda>new. then_read (read_bytes 32) (\<lambda>anchor.
     then_read (get_array (read_bytes 32) 2) (\<lambda>nfs. then_read (get_array (read_bytes 32) 2) (\<lambda>cms.
     then_read (read_bytes 32) (\<lambda>key. then_read (read_bytes 32) (\<lambda>seed. then_read (get_array (read_bytes 32) 2) (\<lambda>ms.
     then_read (get_SproutProof useGroth) (\<lambda>proof. then_read (get_array (read_bytes 601) 2) (\<lambda>cts.
     give \<lparr>vpub_old = old, vpub_new = new, js_anchor = anchor, nullifiers = nfs, commitments = cms, js_ephemeralKey = key,
       ciphertexts = cts, randomSeed = seed, macs = ms, js_proof = proof\<rparr>))))))))))"

section \<open>Transactions\<close>

record CTransaction =
  fOverwintered :: bool
  nVersion :: int
  nVersionGroupId :: u32
  vin :: "CTxIn list"
  vout :: "CTxOut list"
  nLockTime :: u32
  nExpiryHeight :: u32
  valueBalance :: int
  vShieldedSpend :: "SpendDescription list"
  vShieldedOutput :: "OutputDescription list"
  vJoinSplit :: "JSDescription list"
  joinSplitPubKey :: bytes
  joinSplitSig :: bytes
  bindingSig :: bytes

abbreviation (input) OVERWINTER_VERSION_GROUP_ID :: u32 where "OVERWINTER_VERSION_GROUP_ID \<equiv> 0x03C48270"
abbreviation (input) SAPLING_VERSION_GROUP_ID :: u32 where "SAPLING_VERSION_GROUP_ID \<equiv> 0x892F2085"

definition CMutableTransaction :: CTransaction where
  "CMutableTransaction = \<lparr>fOverwintered = False, nVersion = 1, nVersionGroupId = 0, vin = [], vout = [], nLockTime = 0,
     nExpiryHeight = 0, valueBalance = 0, vShieldedSpend = [], vShieldedOutput = [], vJoinSplit = [],
     joinSplitPubKey = replicate 32 0, joinSplitSig = replicate 64 0, bindingSig = replicate 64 0\<rparr>"

definition GetHeader :: "CTransaction \<Rightarrow> u32" where
  "GetHeader tx = (let header = word_of_int (nVersion tx) in if fOverwintered tx then header OR push_bit 31 1 else header)"

definition isOverwinterV3 :: "CTransaction \<Rightarrow> bool" where
  "isOverwinterV3 tx \<longleftrightarrow> fOverwintered tx \<and> nVersionGroupId tx = OVERWINTER_VERSION_GROUP_ID \<and> nVersion tx = 3"

definition isSaplingV4 :: "CTransaction \<Rightarrow> bool" where
  "isSaplingV4 tx \<longleftrightarrow> fOverwintered tx \<and> nVersionGroupId tx = SAPLING_VERSION_GROUP_ID \<and> nVersion tx = 4"

definition header_useGroth :: "u32 \<Rightarrow> bool" where
  "header_useGroth header \<longleftrightarrow> drop_bit 31 header \<noteq> 0 \<and> uint (header AND 0x7FFFFFFF) \<ge> 4"

fun put_each :: "('a \<Rightarrow> failure + bytes) \<Rightarrow> 'a list \<Rightarrow> failure + bytes" where
  "put_each put [] = Inr []"
| "put_each put (x # xs) = and_then (put x) (\<lambda>b. and_then (put_each put xs) (\<lambda>bs. Inr (b @ bs)))"

definition tx_Serialize :: "CTransaction \<Rightarrow> failure + bytes" where
  "tx_Serialize tx =
     (if fOverwintered tx \<and> \<not> (isOverwinterV3 tx \<or> isSaplingV4 tx) then Inl (Thrown ''Unknown transaction format'')
      else and_then (if nVersion tx \<ge> 2 then put_each (put_JSDescription (header_useGroth (GetHeader tx))) (vJoinSplit tx) else Inr []) (\<lambda>js.
      Inr (WriteLE32 (GetHeader tx) @
        (if fOverwintered tx then WriteLE32 (nVersionGroupId tx) else []) @
        put_vector put_CTxIn (vin tx) @ put_vector put_CTxOut (vout tx) @ WriteLE32 (nLockTime tx) @
        (if isOverwinterV3 tx \<or> isSaplingV4 tx then WriteLE32 (nExpiryHeight tx) else []) @
        (if isSaplingV4 tx then put_int64 (valueBalance tx) @ put_vector put_SpendDescription (vShieldedSpend tx) @
           put_vector put_OutputDescription (vShieldedOutput tx) else []) @
        (if nVersion tx \<ge> 2 then WriteCompactSize (of_nat (length (vJoinSplit tx))) @ js @
           (if length (vJoinSplit tx) > 0 then joinSplitPubKey tx @ joinSplitSig tx else []) else []) @
        (if isSaplingV4 tx \<and> \<not> (vShieldedSpend tx = [] \<and> vShieldedOutput tx = []) then bindingSig tx else []))))"

text \<open>The conditional members, each read into the object where its format has it.\<close>

definition read_group :: "CTransaction \<Rightarrow> CTransaction reader" where
  "read_group tx = (if fOverwintered tx then then_read ser_readdata32 (\<lambda>g. give (tx\<lparr>nVersionGroupId := g\<rparr>)) else give tx)"

definition read_expiry :: "CTransaction \<Rightarrow> CTransaction reader" where
  "read_expiry tx = (if isOverwinterV3 tx \<or> isSaplingV4 tx then then_read ser_readdata32 (\<lambda>e. give (tx\<lparr>nExpiryHeight := e\<rparr>)) else give tx)"

definition read_sapling :: "CTransaction \<Rightarrow> CTransaction reader" where
  "read_sapling tx = (if isSaplingV4 tx then then_read get_int64 (\<lambda>vb. then_read (get_vector get_SpendDescription) (\<lambda>ss.
       then_read (get_vector get_OutputDescription) (\<lambda>os. give (tx\<lparr>valueBalance := vb, vShieldedSpend := ss, vShieldedOutput := os\<rparr>))))
     else give tx)"

definition read_joinsplits :: "u32 \<Rightarrow> CTransaction \<Rightarrow> CTransaction reader" where
  "read_joinsplits header tx = (if nVersion tx \<ge> 2 then then_read (get_vector (get_JSDescription (header_useGroth header))) (\<lambda>js.
       if length js > 0 then then_read (read_bytes 32) (\<lambda>k. then_read (read_bytes 64) (\<lambda>sg.
         give (tx\<lparr>vJoinSplit := js, joinSplitPubKey := k, joinSplitSig := sg\<rparr>)))
       else give (tx\<lparr>vJoinSplit := js\<rparr>))
     else give tx)"

definition read_binding :: "CTransaction \<Rightarrow> CTransaction reader" where
  "read_binding tx = (if isSaplingV4 tx \<and> \<not> (vShieldedSpend tx = [] \<and> vShieldedOutput tx = [])
     then then_read (read_bytes 64) (\<lambda>b. give (tx\<lparr>bindingSig := b\<rparr>)) else give tx)"

definition tx_Unserialize :: "CTransaction \<Rightarrow> CTransaction reader" where
  "tx_Unserialize tx = then_read ser_readdata32 (\<lambda>header.
     then_read (read_group (tx\<lparr>fOverwintered := (drop_bit 31 header \<noteq> 0), nVersion := uint (header AND 0x7FFFFFFF)\<rparr>)) (\<lambda>tx.
     if fOverwintered tx \<and> \<not> (isOverwinterV3 tx \<or> isSaplingV4 tx) then throw_read ''Unknown transaction format''
     else then_read (get_vector get_CTxIn) (\<lambda>ins. then_read (get_vector get_CTxOut) (\<lambda>outs. then_read ser_readdata32 (\<lambda>lock.
     then_read (read_expiry (tx\<lparr>vin := ins, vout := outs, nLockTime := lock\<rparr>)) (\<lambda>tx.
     then_read (read_sapling tx) (\<lambda>tx. then_read (read_joinsplits header tx) read_binding)))))))"

definition tx_GetHash :: "CTransaction \<Rightarrow> failure + bytes" where
  "tx_GetHash tx = and_then (tx_Serialize tx) (\<lambda>b. Inr (Hash1 b))"

text \<open>The constructor that moves out of a \<open>CMutableTransaction\<close>, which the deserialising constructor calls, has no initialiser for \<open>bindingSig\<close>.\<close>

definition CTransaction_copy :: "CTransaction \<Rightarrow> CTransaction" where
  "CTransaction_copy tx = tx"

definition CTransaction_move :: "CTransaction \<Rightarrow> CTransaction" where
  "CTransaction_move tx = tx\<lparr>bindingSig := replicate 64 0\<rparr>"

definition tx_IsNull :: "CTransaction \<Rightarrow> bool" where
  "tx_IsNull tx \<longleftrightarrow> vin tx = [] \<and> vout tx = []"

definition IsCoinBase :: "CTransaction \<Rightarrow> bool" where
  "IsCoinBase tx \<longleftrightarrow> length (vin tx) = 1 \<and> outpoint_IsNull (prevout (vin tx ! 0))"

fun value_loop :: "string \<Rightarrow> int \<Rightarrow> int list \<Rightarrow> failure + int" where
  "value_loop msg nValueOut [] = Inr nValueOut"
| "value_loop msg nValueOut (v # vs) = (let nValueOut = nValueOut + v in
     if \<not> MoneyRange v \<or> \<not> MoneyRange nValueOut then Inl (Thrown msg) else value_loop msg nValueOut vs)"

definition GetValueOut :: "CTransaction \<Rightarrow> failure + int" where
  "GetValueOut tx = (let msg = ''CTransaction::GetValueOut(): value out of range'' in
     and_then (value_loop msg 0 (map nValue (vout tx))) (\<lambda>nValueOut.
     and_then (if valueBalance tx \<le> 0 then
         let nValueOut = nValueOut + - valueBalance tx in
         if \<not> MoneyRange (- valueBalance tx) \<or> \<not> MoneyRange nValueOut then Inl (Thrown msg) else Inr nValueOut
       else Inr nValueOut) (\<lambda>nValueOut.
     value_loop msg nValueOut (map vpub_old (vJoinSplit tx)))))"

definition GetShieldedValueIn :: "CTransaction \<Rightarrow> failure + int" where
  "GetShieldedValueIn tx = (let msg = ''CTransaction::GetShieldedValueIn(): value out of range'' in
     and_then (if valueBalance tx \<ge> 0 then
         if \<not> MoneyRange (valueBalance tx) \<or> \<not> MoneyRange (valueBalance tx) then Inl (Thrown msg) else Inr (valueBalance tx)
       else Inr 0) (\<lambda>nValue.
     value_loop msg nValue (map vpub_new (vJoinSplit tx))))"

fun modified_size_loop :: "nat \<Rightarrow> CTxIn list \<Rightarrow> nat" where
  "modified_size_loop nTxSize [] = nTxSize"
| "modified_size_loop nTxSize (txin # txins) = (let offset = 41 + min 110 (length (scriptSig txin)) in
     modified_size_loop (if nTxSize > offset then nTxSize - offset else nTxSize) txins)"

definition GetSerializeSize_tx :: "CTransaction \<Rightarrow> failure + nat" where
  "GetSerializeSize_tx tx = and_then (tx_Serialize tx) (\<lambda>b. Inr (length b))"

definition CalculateModifiedSize :: "CTransaction \<Rightarrow> nat \<Rightarrow> failure + nat" where
  "CalculateModifiedSize tx nTxSize =
     and_then (if nTxSize = 0 then GetSerializeSize_tx tx else Inr nTxSize) (\<lambda>nTxSize.
     Inr (modified_size_loop nTxSize (vin tx)))"

definition GetDustThreshold :: "CFeeRate \<Rightarrow> CTxOut \<Rightarrow> int" where
  "GetDustThreshold minRelayTxFee txout = (if IsUnspendable (scriptPubKey txout) then 0
     else let nSize = of_nat (length (put_CTxOut txout)) + 148 in 3 * GetFee minRelayTxFee nSize)"

definition IsDust :: "CFeeRate \<Rightarrow> CTxOut \<Rightarrow> bool" where
  "IsDust minRelayTxFee txout \<longleftrightarrow> nValue txout < GetDustThreshold minRelayTxFee txout"

section \<open>Codecs\<close>

interpretation outpoint: codec put_COutPoint get_COutPoint ok_COutPoint
  by unfold_locales (auto simp: put_COutPoint_def get_COutPoint_def ok_COutPoint_def read_iff)

interpretation txin: codec put_CTxIn get_CTxIn ok_CTxIn
  by unfold_locales (auto simp: put_CTxIn_def get_CTxIn_def ok_CTxIn_def read_iff)

interpretation txout: codec put_CTxOut get_CTxOut ok_CTxOut
  by unfold_locales (auto simp: put_CTxOut_def get_CTxOut_def ok_CTxOut_def read_iff)

interpretation shielded_spend: codec put_SpendDescription get_SpendDescription ok_SpendDescription
  by unfold_locales (auto simp: put_SpendDescription_def get_SpendDescription_def ok_SpendDescription_def read_iff)

interpretation shielded_output: codec put_OutputDescription get_OutputDescription ok_OutputDescription
  by unfold_locales (auto simp: put_OutputDescription_def get_OutputDescription_def ok_OutputDescription_def read_iff)

lemma and_1_u8: "b AND 1 = (if bit b 0 then 1 else 0)" for b :: u8
  by (rule bit_word_eqI) (auto simp: bit_simps intro!: gr0I)

lemma low_bit_split: "b = (if b AND 1 \<noteq> 0 then (b AND NOT 1) OR 1 else b AND NOT 1)" for b :: u8
proof -
  have "b = (b AND NOT 1) OR (b AND 1)" by (rule bit_word_eqI) (auto simp: bit_simps)
  then show ?thesis by (metis or.right_neutral and_1_u8)
qed

lemma point_codec:
  assumes "(prefix OR 1) AND NOT 1 = prefix" "prefix AND NOT 1 = prefix" "prefix AND 1 = 0"
  shows "codec (put_point prefix) (get_point prefix n) (\<lambda>p. length (x_coord p) = n)"
proof -
  have "(prefix OR 1) AND 1 \<noteq> 0" using and_1_u8 [of "prefix OR 1"] by (simp add: bit_simps)
  moreover have "b AND 1 \<noteq> 0 \<Longrightarrow> (b AND - 2) OR 1 = b" "b AND 1 = 0 \<Longrightarrow> b AND - 2 = b" for b :: u8
    using low_bit_split [of b] by auto
  ultimately show ?thesis
    by unfold_locales
      (use assms in \<open>auto simp: put_point_def get_point_def ser_writedata8_def Let_def read_iff split: if_splits\<close>)
qed

interpretation g1: codec "put_point 0x02" "get_point 0x02 32" "\<lambda>p. length (x_coord p) = 32"
  by (rule point_codec) simp_all

interpretation g2: codec "put_point 0x0a" "get_point 0x0a 64" "\<lambda>p. length (x_coord p) = 64"
  by (rule point_codec) simp_all

definition ok_PHGRProof :: "PHGRProof \<Rightarrow> bool" where
  "ok_PHGRProof p \<longleftrightarrow> length (x_coord (g_A p)) = 32 \<and> length (x_coord (g_A_prime p)) = 32 \<and> length (x_coord (g_B p)) = 64 \<and>
     length (x_coord (g_B_prime p)) = 32 \<and> length (x_coord (g_C p)) = 32 \<and> length (x_coord (g_C_prime p)) = 32 \<and>
     length (x_coord (g_K p)) = 32 \<and> length (x_coord (g_H p)) = 32"

interpretation phgr: codec put_PHGRProof get_PHGRProof ok_PHGRProof
  by unfold_locales (auto simp: put_PHGRProof_def get_PHGRProof_def ok_PHGRProof_def read_iff)

fun proof_bytes :: "SproutProof \<Rightarrow> bytes" where
  "proof_bytes (PHGR p) = put_PHGRProof p"
| "proof_bytes (Groth p) = p"

fun ok_SproutProof :: "bool \<Rightarrow> SproutProof \<Rightarrow> bool" where
  "ok_SproutProof useGroth (PHGR p) \<longleftrightarrow> \<not> useGroth \<and> ok_PHGRProof p"
| "ok_SproutProof useGroth (Groth p) \<longleftrightarrow> useGroth \<and> length p = 192"

interpretation sprout_proof: codec proof_bytes "get_SproutProof g" "ok_SproutProof g" for g
proof
  fix p s
  show "ok_SproutProof g p \<Longrightarrow> get_SproutProof g (proof_bytes p @ s) = Inr (p, s)"
    by (cases p) (auto simp: get_SproutProof_def)
next
  fix bs p s
  show "get_SproutProof g bs = Inr (p, s) \<Longrightarrow> ok_SproutProof g p \<and> bs = proof_bytes p @ s"
    by (auto simp: get_SproutProof_def read_iff split: if_splits)
qed

interpretation blob_array: codec "put_array (\<lambda>b. b)" "get_array (read_bytes n) k" "\<lambda>xs. length xs = k \<and> list_all (\<lambda>b. length b = n) xs" for n k
  by (rule blob.array)

definition js_bytes :: "JSDescription \<Rightarrow> bytes" where
  "js_bytes a = put_int64 (vpub_old a) @ put_int64 (vpub_new a) @ js_anchor a @ put_array (\<lambda>b. b) (nullifiers a) @
     put_array (\<lambda>b. b) (commitments a) @ js_ephemeralKey a @ randomSeed a @ put_array (\<lambda>b. b) (macs a) @ proof_bytes (js_proof a) @
     put_array (\<lambda>b. b) (ciphertexts a)"

definition ok_JSDescription :: "bool \<Rightarrow> JSDescription \<Rightarrow> bool" where
  "ok_JSDescription useGroth a \<longleftrightarrow> in_int64 (vpub_old a) \<and> in_int64 (vpub_new a) \<and> length (js_anchor a) = 32 \<and>
     length (nullifiers a) = 2 \<and> list_all (\<lambda>b. length b = 32) (nullifiers a) \<and>
     length (commitments a) = 2 \<and> list_all (\<lambda>b. length b = 32) (commitments a) \<and>
     length (js_ephemeralKey a) = 32 \<and> length (randomSeed a) = 32 \<and>
     length (macs a) = 2 \<and> list_all (\<lambda>b. length b = 32) (macs a) \<and> ok_SproutProof useGroth (js_proof a) \<and>
     length (ciphertexts a) = 2 \<and> list_all (\<lambda>b. length b = 601) (ciphertexts a)"

interpretation joinsplit: codec js_bytes "get_JSDescription g" "ok_JSDescription g" for g
  by unfold_locales (auto simp: js_bytes_def get_JSDescription_def ok_JSDescription_def read_iff)

interpretation txins: codec "put_vector put_CTxIn" "get_vector get_CTxIn" "\<lambda>xs. length xs \<le> 0x2000000 \<and> list_all ok_CTxIn xs"
  by (rule txin.vector)

interpretation txouts: codec "put_vector put_CTxOut" "get_vector get_CTxOut" "\<lambda>xs. length xs \<le> 0x2000000 \<and> list_all ok_CTxOut xs"
  by (rule txout.vector)

interpretation spends: codec "put_vector put_SpendDescription" "get_vector get_SpendDescription"
    "\<lambda>xs. length xs \<le> 0x2000000 \<and> list_all ok_SpendDescription xs"
  by (rule shielded_spend.vector)

interpretation outputs: codec "put_vector put_OutputDescription" "get_vector get_OutputDescription"
    "\<lambda>xs. length xs \<le> 0x2000000 \<and> list_all ok_OutputDescription xs"
  by (rule shielded_output.vector)

interpretation joinsplits: codec "put_vector js_bytes" "get_vector (get_JSDescription g)"
    "\<lambda>xs. length xs \<le> 0x2000000 \<and> list_all (ok_JSDescription g) xs" for g
  by (rule joinsplit.vector)

lemma put_JSDescription_ok: "ok_JSDescription g a \<Longrightarrow> put_JSDescription g a = Inr (js_bytes a)"
proof -
  assume "ok_JSDescription g a"
  then have "put_SproutProof g (js_proof a) = Inr (proof_bytes (js_proof a))"
    by (cases "js_proof a") (auto simp: ok_JSDescription_def)
  then show ?thesis by (simp add: put_JSDescription_def js_bytes_def)
qed

lemma put_each_ok: "list_all (ok_JSDescription g) xs \<Longrightarrow> put_each (put_JSDescription g) xs = Inr (concat (map js_bytes xs))"
  by (induction xs) (simp_all add: put_JSDescription_ok)

section \<open>The format of transactions\<close>

definition tx_bytes :: "CTransaction \<Rightarrow> bytes" where
  "tx_bytes tx = WriteLE32 (GetHeader tx) @
     (if fOverwintered tx then WriteLE32 (nVersionGroupId tx) else []) @
     put_vector put_CTxIn (vin tx) @ put_vector put_CTxOut (vout tx) @ WriteLE32 (nLockTime tx) @
     (if isOverwinterV3 tx \<or> isSaplingV4 tx then WriteLE32 (nExpiryHeight tx) else []) @
     (if isSaplingV4 tx then put_int64 (valueBalance tx) @ put_vector put_SpendDescription (vShieldedSpend tx) @
        put_vector put_OutputDescription (vShieldedOutput tx) else []) @
     (if nVersion tx \<ge> 2 then put_vector js_bytes (vJoinSplit tx) @
        (if length (vJoinSplit tx) > 0 then joinSplitPubKey tx @ joinSplitSig tx else []) else []) @
     (if isSaplingV4 tx \<and> \<not> (vShieldedSpend tx = [] \<and> vShieldedOutput tx = []) then bindingSig tx else [])"

definition ok_tx :: "CTransaction \<Rightarrow> bool" where
  "ok_tx tx \<longleftrightarrow> 0 \<le> nVersion tx \<and> nVersion tx < 2 ^ 31 \<and> (fOverwintered tx \<longrightarrow> isOverwinterV3 tx \<or> isSaplingV4 tx) \<and>
     length (vin tx) \<le> 0x2000000 \<and> list_all ok_CTxIn (vin tx) \<and> length (vout tx) \<le> 0x2000000 \<and> list_all ok_CTxOut (vout tx) \<and>
     (isSaplingV4 tx \<longrightarrow> in_int64 (valueBalance tx) \<and>
        length (vShieldedSpend tx) \<le> 0x2000000 \<and> list_all ok_SpendDescription (vShieldedSpend tx) \<and>
        length (vShieldedOutput tx) \<le> 0x2000000 \<and> list_all ok_OutputDescription (vShieldedOutput tx) \<and>
        (\<not> (vShieldedSpend tx = [] \<and> vShieldedOutput tx = []) \<longrightarrow> length (bindingSig tx) = 64)) \<and>
     (nVersion tx \<ge> 2 \<longrightarrow> length (vJoinSplit tx) \<le> 0x2000000 \<and>
        list_all (ok_JSDescription (header_useGroth (GetHeader tx))) (vJoinSplit tx) \<and>
        (vJoinSplit tx \<noteq> [] \<longrightarrow> length (joinSplitPubKey tx) = 32 \<and> length (joinSplitSig tx) = 64))"

text \<open>What reading the bytes of \<open>tx\<close> into \<open>tx0\<close> leaves: the members that the format of \<open>tx\<close> has, and the others as they were.\<close>

definition overlay :: "CTransaction \<Rightarrow> CTransaction \<Rightarrow> CTransaction" where
  "overlay tx0 tx = tx\<lparr>
     nVersionGroupId := if fOverwintered tx then nVersionGroupId tx else nVersionGroupId tx0,
     nExpiryHeight := if fOverwintered tx then nExpiryHeight tx else nExpiryHeight tx0,
     valueBalance := if isSaplingV4 tx then valueBalance tx else valueBalance tx0,
     vShieldedSpend := if isSaplingV4 tx then vShieldedSpend tx else vShieldedSpend tx0,
     vShieldedOutput := if isSaplingV4 tx then vShieldedOutput tx else vShieldedOutput tx0,
     vJoinSplit := if nVersion tx \<ge> 2 then vJoinSplit tx else vJoinSplit tx0,
     joinSplitPubKey := if nVersion tx \<ge> 2 \<and> vJoinSplit tx \<noteq> [] then joinSplitPubKey tx else joinSplitPubKey tx0,
     joinSplitSig := if nVersion tx \<ge> 2 \<and> vJoinSplit tx \<noteq> [] then joinSplitSig tx else joinSplitSig tx0,
     bindingSig := if isSaplingV4 tx \<and> \<not> (vShieldedSpend tx = [] \<and> vShieldedOutput tx = []) then bindingSig tx else bindingSig tx0\<rparr>"

lemma tx_Serialize_ok: "ok_tx tx \<Longrightarrow> tx_Serialize tx = Inr (tx_bytes tx)"
  by (auto simp: tx_Serialize_def tx_bytes_def ok_tx_def put_each_ok put_vector_def)

lemma top_bit_u32: "drop_bit 31 h \<noteq> 0 \<longleftrightarrow> bit h 31" for h :: u32
proof -
  have "bit (drop_bit 31 h) n \<longleftrightarrow> n = 0 \<and> bit h 31" for n
    using bit_imp_le_length [of h "31 + n"] by (cases n) (auto simp: bit_drop_bit_eq)
  then have "drop_bit 31 h = (if bit h 31 then 1 else 0)" by (intro bit_word_eqI) (auto simp: bit_1_iff)
  then show ?thesis by simp
qed

lemma low_mask_u32: "(0x7FFFFFFF :: u32) = mask 31"
  by (simp add: mask_eq_exp_minus_1)

lemma bit_header_flag: "bit (push_bit 31 1 :: u32) n \<longleftrightarrow> n = 31"
  using bit_exp_iff [of 31 n, where 'a = u32] by (auto simp: possible_bit_word)

lemma header_word:
  fixes b :: bool
  assumes "0 \<le> v" "v < 2 ^ 31" "h = (if b then word_of_int v OR push_bit 31 1 else word_of_int v :: u32)"
  shows "(drop_bit 31 h \<noteq> 0) = b" "uint (h AND 0x7FFFFFFF) = v"
proof -
  have v: "uint (word_of_int v :: u32) = v" using assms by (simp add: uint_word_of_int)
  have bits: "\<not> bit v n" if "31 \<le> n" for n
    using that assms(1,2) by (metis bit_take_bit_iff not_le take_bit_int_eq_self)
  then have bits': "n < 31" if "bit v n" for n using that not_le by blast
  define t :: u32 where "t = push_bit 31 1"
  have t: "bit t n \<longleftrightarrow> n = 31" for n unfolding t_def by (rule bit_header_flag)
  have "h AND mask 31 = word_of_int v"
    unfolding assms(3) t_def [symmetric]
    by (rule bit_word_eqI) (use bits' in \<open>auto simp: t bit_and_iff bit_or_iff bit_mask_iff bit_word_of_int_iff not_less\<close>)
  then show "uint (h AND 0x7FFFFFFF) = v" using v unfolding low_mask_u32 by simp
  show "(drop_bit 31 h \<noteq> 0) = b"
    using bits [of 31] unfolding top_bit_u32 assms(3) t_def [symmetric] by (auto simp: t bit_or_iff bit_word_of_int_iff)
qed

lemma header_back:
  fixes h :: u32
  shows "(if drop_bit 31 h \<noteq> 0 then word_of_int (uint (h AND 0x7FFFFFFF)) OR push_bit 31 1 else word_of_int (uint (h AND 0x7FFFFFFF))) = h"
    "uint (h AND 0x7FFFFFFF) < 2 ^ 31"
proof -
  define t :: u32 where "t = push_bit 31 1"
  have t: "bit t n \<longleftrightarrow> n = 31" for n unfolding t_def by (rule bit_header_flag)
  have top: "bit h n \<Longrightarrow> n \<noteq> 31 \<Longrightarrow> n < 31" for n using bit_imp_le_length [of h n] by simp
  show "(if drop_bit 31 h \<noteq> 0 then word_of_int (uint (h AND 0x7FFFFFFF)) OR push_bit 31 1 else word_of_int (uint (h AND 0x7FFFFFFF))) = h"
    unfolding low_mask_u32 top_bit_u32 word_of_int_uint t_def [symmetric]
  proof (rule bit_word_eqI)
    fix n
    show "bit (if bit h 31 then (h AND mask 31) OR t else h AND mask 31) n \<longleftrightarrow> bit h n"
      using top [of n] by (cases "n = 31") (auto simp: t bit_and_iff bit_or_iff bit_mask_iff)
  qed
  show "uint (h AND 0x7FFFFFFF) < 2 ^ 31"
    unfolding low_mask_u32 take_bit_eq_mask [symmetric] using take_bit_int_less_exp [of 31 "uint h"] by (simp add: unsigned_take_bit_eq)
qed

lemmas tx_stages = read_group_def read_expiry_def read_sapling_def read_joinsplits_def read_binding_def

lemma GetHeader_fields:
  assumes "0 \<le> nVersion tx" "nVersion tx < 2 ^ 31"
  shows "(drop_bit 31 (GetHeader tx) \<noteq> 0) = fOverwintered tx" "uint (GetHeader tx AND 0x7FFFFFFF) = nVersion tx"
  using header_word [OF assms, of "GetHeader tx" "fOverwintered tx"] by (simp_all add: GetHeader_def Let_def)

lemma GetHeader_back: "GetHeader (tx\<lparr>fOverwintered := (drop_bit 31 h \<noteq> 0), nVersion := uint (h AND 0x7FFFFFFF)\<rparr>) = h"
  using header_back(1) [of h] by (simp add: GetHeader_def Let_def split: if_splits)

lemma format_update [simp]:
  "isSaplingV4 (tx\<lparr>vin := a, vout := b, nLockTime := c\<rparr>) = isSaplingV4 tx"
  "isOverwinterV3 (tx\<lparr>vin := a, vout := b, nLockTime := c\<rparr>) = isOverwinterV3 tx"
  "isSaplingV4 (tx\<lparr>nExpiryHeight := e\<rparr>) = isSaplingV4 tx" "isOverwinterV3 (tx\<lparr>nExpiryHeight := e\<rparr>) = isOverwinterV3 tx"
  "isSaplingV4 (tx\<lparr>valueBalance := v, vShieldedSpend := ss, vShieldedOutput := os\<rparr>) = isSaplingV4 tx"
  "isSaplingV4 (tx\<lparr>vJoinSplit := js\<rparr>) = isSaplingV4 tx"
  "isSaplingV4 (tx\<lparr>vJoinSplit := js, joinSplitPubKey := k, joinSplitSig := sg\<rparr>) = isSaplingV4 tx"
  by (simp_all add: isSaplingV4_def isOverwinterV3_def)

lemma tx_Unserialize_bytes:
  assumes "ok_tx tx"
  shows "tx_Unserialize tx0 (tx_bytes tx @ s) = Inr (overlay tx0 tx, s)"
proof -
  have v: "0 \<le> nVersion tx" "nVersion tx < 2 ^ 31" using assms by (simp_all add: ok_tx_def)
  note hdr = GetHeader_fields [OF v]
  consider (1) "\<not> fOverwintered tx" | (3) "fOverwintered tx" "nVersionGroupId tx = OVERWINTER_VERSION_GROUP_ID" "nVersion tx = 3"
    | (4) "fOverwintered tx" "nVersionGroupId tx = SAPLING_VERSION_GROUP_ID" "nVersion tx = 4"
    using assms by (auto simp: ok_tx_def isOverwinterV3_def isSaplingV4_def)
  then show ?thesis
  proof cases
    case 1
    then show ?thesis
      using assms unfolding tx_Unserialize_def tx_bytes_def tx_stages
      by (simp add: hdr ok_tx_def overlay_def isOverwinterV3_def isSaplingV4_def Let_def)
  next
    case 3
    then show ?thesis
      using assms unfolding tx_Unserialize_def tx_bytes_def tx_stages
      by (simp add: hdr ok_tx_def overlay_def isOverwinterV3_def isSaplingV4_def Let_def)
  next
    case 4
    then show ?thesis
      using assms unfolding tx_Unserialize_def tx_bytes_def tx_stages
      by (simp add: hdr ok_tx_def overlay_def isOverwinterV3_def isSaplingV4_def Let_def)
  qed
qed

text \<open>What each stage read, in terms of the object it returns.\<close>

lemma read_group_D: "read_group tx bs = Inr (tx', s) \<Longrightarrow>
    tx' = tx\<lparr>nVersionGroupId := nVersionGroupId tx'\<rparr> \<and> bs = (if fOverwintered tx then WriteLE32 (nVersionGroupId tx') else []) @ s"
  by (auto simp: read_group_def read_iff split: if_splits)

lemma read_expiry_D: "read_expiry tx bs = Inr (tx', s) \<Longrightarrow> tx' = tx\<lparr>nExpiryHeight := nExpiryHeight tx'\<rparr> \<and>
    bs = (if isOverwinterV3 tx \<or> isSaplingV4 tx then WriteLE32 (nExpiryHeight tx') else []) @ s"
  by (auto simp: read_expiry_def read_iff split: if_splits)

lemma read_sapling_D: "read_sapling tx bs = Inr (tx', s) \<Longrightarrow>
    tx' = tx\<lparr>valueBalance := valueBalance tx', vShieldedSpend := vShieldedSpend tx', vShieldedOutput := vShieldedOutput tx'\<rparr> \<and>
    (isSaplingV4 tx \<longrightarrow> in_int64 (valueBalance tx') \<and> length (vShieldedSpend tx') \<le> 0x2000000 \<and>
       list_all ok_SpendDescription (vShieldedSpend tx') \<and> length (vShieldedOutput tx') \<le> 0x2000000 \<and>
       list_all ok_OutputDescription (vShieldedOutput tx')) \<and>
    bs = (if isSaplingV4 tx then put_int64 (valueBalance tx') @ put_vector put_SpendDescription (vShieldedSpend tx') @
        put_vector put_OutputDescription (vShieldedOutput tx') else []) @ s"
  by (cases "isSaplingV4 tx") (clarsimp simp: read_sapling_def read_iff)+

lemma read_joinsplits_Inr: "read_joinsplits h tx bs = Inr (tx', s) \<Longrightarrow>
    (if nVersion tx \<ge> 2 then \<exists>js. length js \<le> 0x2000000 \<and> list_all (ok_JSDescription (header_useGroth h)) js \<and>
       (if js = [] then tx' = tx\<lparr>vJoinSplit := js\<rparr> \<and> bs = put_vector js_bytes js @ s
        else \<exists>k sg. tx' = tx\<lparr>vJoinSplit := js, joinSplitPubKey := k, joinSplitSig := sg\<rparr> \<and> length k = 32 \<and> length sg = 64 \<and>
          bs = put_vector js_bytes js @ k @ sg @ s)
     else tx' = tx \<and> bs = s)"
  by (simp add: read_joinsplits_def read_iff split: if_splits) blast

lemma read_joinsplits_D: "read_joinsplits h tx bs = Inr (tx', s) \<Longrightarrow>
    tx' = tx\<lparr>vJoinSplit := vJoinSplit tx', joinSplitPubKey := joinSplitPubKey tx', joinSplitSig := joinSplitSig tx'\<rparr> \<and>
    (nVersion tx \<ge> 2 \<longrightarrow> length (vJoinSplit tx') \<le> 0x2000000 \<and> list_all (ok_JSDescription (header_useGroth h)) (vJoinSplit tx') \<and>
       (vJoinSplit tx' \<noteq> [] \<longrightarrow> length (joinSplitPubKey tx') = 32 \<and> length (joinSplitSig tx') = 64)) \<and>
    bs = (if nVersion tx \<ge> 2 then put_vector js_bytes (vJoinSplit tx') @
        (if length (vJoinSplit tx') > 0 then joinSplitPubKey tx' @ joinSplitSig tx' else []) else []) @ s"
  by (drule read_joinsplits_Inr) (auto split: if_splits)

lemma read_binding_D: "read_binding tx bs = Inr (tx', s) \<Longrightarrow> tx' = tx\<lparr>bindingSig := bindingSig tx'\<rparr> \<and>
    (isSaplingV4 tx \<and> \<not> (vShieldedSpend tx = [] \<and> vShieldedOutput tx = []) \<longrightarrow> length (bindingSig tx') = 64) \<and>
    bs = (if isSaplingV4 tx \<and> \<not> (vShieldedSpend tx = [] \<and> vShieldedOutput tx = []) then bindingSig tx' else []) @ s"
  by (auto simp: read_binding_def read_iff split: if_splits)

lemma tx_Unserialize_stages:
  assumes "tx_Unserialize tx0 bs = Inr (tx, s)"
  obtains h tx1 ins outs lock tx2 tx3 tx4 bs1 bs2 bs3 bs4 bs5 where
    "bs = WriteLE32 h @ bs1"
    "read_group (tx0\<lparr>fOverwintered := (drop_bit 31 h \<noteq> 0), nVersion := uint (h AND 0x7FFFFFFF)\<rparr>) bs1 =
       Inr (tx1, put_vector put_CTxIn ins @ put_vector put_CTxOut outs @ WriteLE32 lock @ bs2)"
    "fOverwintered tx1 \<longrightarrow> isOverwinterV3 tx1 \<or> isSaplingV4 tx1"
    "length ins \<le> 0x2000000" "list_all ok_CTxIn ins" "length outs \<le> 0x2000000" "list_all ok_CTxOut outs"
    "read_expiry (tx1\<lparr>vin := ins, vout := outs, nLockTime := lock\<rparr>) bs2 = Inr (tx2, bs3)"
    "read_sapling tx2 bs3 = Inr (tx3, bs4)" "read_joinsplits h tx3 bs4 = Inr (tx4, bs5)" "read_binding tx4 bs5 = Inr (tx, s)"
  using assms unfolding tx_Unserialize_def
  by (simp add: u32_codec.then_get_Inr txins.then_get_Inr txouts.then_get_Inr then_read_Inr [of "read_group _"]
      then_read_Inr [of "read_expiry _"] then_read_Inr [of "read_sapling _"] then_read_Inr [of "read_joinsplits _ _"] split: if_splits) blast

lemma tx_Unserialize_canonical:
  assumes "tx_Unserialize tx0 bs = Inr (tx, s)"
  shows "ok_tx tx \<and> bs = tx_bytes tx @ s"
proof -
  obtain h tx1 ins outs lock tx2 tx3 tx4 bs1 bs2 bs3 bs4 bs5 where st:
    "bs = WriteLE32 h @ bs1"
    "read_group (tx0\<lparr>fOverwintered := (drop_bit 31 h \<noteq> 0), nVersion := uint (h AND 0x7FFFFFFF)\<rparr>) bs1 =
       Inr (tx1, put_vector put_CTxIn ins @ put_vector put_CTxOut outs @ WriteLE32 lock @ bs2)"
    "fOverwintered tx1 \<longrightarrow> isOverwinterV3 tx1 \<or> isSaplingV4 tx1"
    "length ins \<le> 0x2000000" "list_all ok_CTxIn ins" "length outs \<le> 0x2000000" "list_all ok_CTxOut outs"
    "read_expiry (tx1\<lparr>vin := ins, vout := outs, nLockTime := lock\<rparr>) bs2 = Inr (tx2, bs3)"
    "read_sapling tx2 bs3 = Inr (tx3, bs4)" "read_joinsplits h tx3 bs4 = Inr (tx4, bs5)" "read_binding tx4 bs5 = Inr (tx, s)"
    using tx_Unserialize_stages [OF assms] .
  define t1 where "t1 = tx0\<lparr>fOverwintered := (drop_bit 31 h \<noteq> 0), nVersion := uint (h AND 0x7FFFFFFF)\<rparr>"
  have t1: "GetHeader t1 = h" "0 \<le> nVersion t1" "nVersion t1 < 2 ^ 31"
    using GetHeader_back [of h tx0] header_back(2) [of h] by (auto simp: t1_def)
  note D1 = read_group_D [OF st(2), folded t1_def]
  note D2 = read_expiry_D [OF st(8)] and D3 = read_sapling_D [OF st(9)] and D4 = read_joinsplits_D [OF st(10)] and D5 = read_binding_D [OF st(11)]
  obtain g where tx1: "tx1 = t1\<lparr>nVersionGroupId := g\<rparr>" using D1 by blast
  obtain e where tx2: "tx2 = t1\<lparr>nVersionGroupId := g, vin := ins, vout := outs, nLockTime := lock, nExpiryHeight := e\<rparr>"
    using D2 unfolding tx1 by auto
  obtain vb ss os where tx3: "tx3 = tx2\<lparr>valueBalance := vb, vShieldedSpend := ss, vShieldedOutput := os\<rparr>" using D3 by blast
  obtain js k sg where tx4: "tx4 = tx3\<lparr>vJoinSplit := js, joinSplitPubKey := k, joinSplitSig := sg\<rparr>" using D4 by blast
  obtain b where tx: "tx = tx4\<lparr>bindingSig := b\<rparr>" using D5 by blast
  have same: "isSaplingV4 tx2 = isSaplingV4 tx1" "isSaplingV4 tx3 = isSaplingV4 tx1" "isSaplingV4 tx4 = isSaplingV4 tx1" "isSaplingV4 tx = isSaplingV4 tx1"
    "isOverwinterV3 tx = isOverwinterV3 tx1" "GetHeader tx = h" "fOverwintered tx = fOverwintered tx1" "nVersion tx = nVersion t1"
    using t1(1) unfolding tx tx4 tx3 tx2 tx1 by (simp_all add: isSaplingV4_def isOverwinterV3_def GetHeader_def)
  have ok: "ok_tx tx"
    unfolding ok_tx_def same
    using st(3-7) t1(2,3) D3 D4 D5 unfolding same by (simp add: tx tx4 tx3 tx2 tx1)
  have "bs = tx_bytes tx @ s"
    unfolding tx_bytes_def same st(1)
    using D1 D2 D3 D4 D5 unfolding same by (simp add: tx tx4 tx3 tx2 tx1)
  with ok show ?thesis ..
qed

section \<open>Properties\<close>

lemma tx_Unserialize_Serialize:
  assumes "tx_Unserialize tx0 bs = Inr (tx, s)"
  shows "\<exists>p. bs = p @ s \<and> tx_Serialize tx = Inr p \<and> tx_GetHash tx = Inr (Hash1 p)"
  using tx_Unserialize_canonical [OF assms] tx_Serialize_ok [of tx] by (auto simp: tx_GetHash_def)

text \<open>C20: The wire format of transactions is exact: a well-formed transaction of any supported format is written without an error and
  read back, with the members that the format lacks left as they were; and whatever bytes are read successfully are the
  serialization of the transaction that results, so its identifier is the hash of the bytes that were received.\<close>

theorem transaction_wire_format_exact:
  "(ok_tx tx \<longrightarrow> (\<exists>p. tx_Serialize tx = Inr p \<and> tx_Unserialize tx0 (p @ s) = Inr (overlay tx0 tx, s))) \<and>
   (tx_Unserialize tx0 bs = Inr (tx', s') \<longrightarrow>
     ok_tx tx' \<and> (\<exists>p. bs = p @ s' \<and> tx_Serialize tx' = Inr p \<and> tx_GetHash tx' = Inr (Hash1 p)))"
  using tx_Serialize_ok tx_Unserialize_bytes tx_Unserialize_canonical tx_Unserialize_Serialize by blast

theorem transaction_wire_format_exact_witness:
  "\<exists>p. tx_Serialize CMutableTransaction = Inr p \<and> tx_Unserialize CMutableTransaction (p @ [7]) = Inr (CMutableTransaction, [7])"
proof -
  have "ok_tx CMutableTransaction" by (simp add: ok_tx_def CMutableTransaction_def isSaplingV4_def)
  moreover have "overlay CMutableTransaction CMutableTransaction = CMutableTransaction" by (simp add: overlay_def)
  ultimately show ?thesis
    using conjunct1 [OF transaction_wire_format_exact [of CMutableTransaction CMutableTransaction "[7]"]] by simp
qed

text \<open>A Sapling transaction with shielded spends or outputs does not survive the deserialising constructor: it goes through the
  constructor that moves a \<open>CMutableTransaction\<close>, which leaves the binding signature zero, so the object serialises to other bytes
  than the ones it was read from, and passes through the copying constructor only.\<close>

theorem moved_transaction_loses_binding_signature:
  assumes "tx_Unserialize tx0 bs = Inr (tx, [])" "isSaplingV4 tx" "vShieldedSpend tx \<noteq> [] \<or> vShieldedOutput tx \<noteq> []"
    and "bindingSig tx \<noteq> replicate 64 0"
  shows "tx_Serialize (CTransaction_copy tx) = Inr bs \<and> tx_Serialize (CTransaction_move tx) \<noteq> Inr bs"
proof -
  have ok: "ok_tx tx" "bs = tx_bytes tx" using tx_Unserialize_canonical [OF assms(1)] by auto
  let ?m = "tx\<lparr>bindingSig := replicate 64 0\<rparr>"
  have same: "isSaplingV4 ?m" "isOverwinterV3 ?m = isOverwinterV3 tx" "GetHeader ?m = GetHeader tx"
    using assms(2) by (simp_all add: isSaplingV4_def isOverwinterV3_def GetHeader_def)
  have "ok_tx ?m" using ok(1) assms(2) same by (simp add: ok_tx_def)
  moreover have "tx_bytes ?m \<noteq> tx_bytes tx"
    using assms(2-4) by (simp add: tx_bytes_def same)
  ultimately show ?thesis using ok tx_Serialize_ok by (simp add: CTransaction_copy_def CTransaction_move_def)
qed

theorem moved_transaction_loses_binding_signature_witness:
  "\<exists>tx bs. tx_Serialize (CTransaction_copy tx) = Inr bs \<and> tx_Serialize (CTransaction_move tx) \<noteq> Inr bs"
proof -
  let ?spend = "\<lparr>spend_cv = replicate 32 1, spend_anchor = replicate 32 2, spend_nullifier = replicate 32 3, spend_rk = replicate 32 4,
    spend_zkproof = replicate 192 5, spendAuthSig = replicate 64 6\<rparr>"
  let ?tx = "CMutableTransaction\<lparr>fOverwintered := True, nVersion := 4, nVersionGroupId := SAPLING_VERSION_GROUP_ID,
    vShieldedSpend := [?spend], bindingSig := replicate 64 9\<rparr>"
  have ok: "ok_tx ?tx"
    by (simp add: ok_tx_def CMutableTransaction_def isSaplingV4_def isOverwinterV3_def ok_SpendDescription_def in_int64_def)
  have sap: "isSaplingV4 ?tx" by (simp add: isSaplingV4_def)
  have "overlay ?tx ?tx = ?tx" by (simp add: overlay_def)
  then have "tx_Unserialize ?tx (tx_bytes ?tx) = Inr (?tx, [])" using tx_Unserialize_bytes [OF ok, of ?tx "[]"] by simp
  from moved_transaction_loses_binding_signature [OF this sap] show ?thesis by (auto simp: replicate_eq_replicate)
qed

end
