(* ===== verification/PubKey.thy ===== *)
theory PubKey
  imports Hash
begin

unbundle bit_operations_syntax

text \<open>
  Public keys (\<^verbatim>\<open>pubkey.h\<close>, \<^verbatim>\<open>pubkey.cpp\<close>). A \<open>CPubKey\<close> is the list of its serialised bytes; the first byte determines how many
  there are, and an invalid key is the single byte \<open>0xFF\<close>. The operations of libsecp256k1 are the fields of a
  record of parameters over abstract types of parsed keys and signatures.
\<close>

record ('k, 's) secp256k1 =
  ec_pubkey_parse :: "bytes \<Rightarrow> 'k option"
  ec_pubkey_serialize :: "'k \<Rightarrow> bool \<Rightarrow> bytes"
  ec_pubkey_tweak_add :: "'k \<Rightarrow> bytes \<Rightarrow> 'k option"
  ecdsa_signature_parse_der :: "bytes \<Rightarrow> 's option"
  ecdsa_signature_normalize :: "'s \<Rightarrow> bool \<times> 's"
  ecdsa_verify :: "'s \<Rightarrow> bytes \<Rightarrow> 'k \<Rightarrow> bool"
  ecdsa_recoverable_parse_compact :: "bytes \<Rightarrow> nat \<Rightarrow> 's option"
  ecdsa_recover :: "'s \<Rightarrow> bytes \<Rightarrow> 'k option"

section \<open>The code\<close>

type_synonym CPubKey = bytes

definition GetLen :: "u8 \<Rightarrow> nat" where
  "GetLen chHeader = (if chHeader = 2 \<or> chHeader = 3 then 33
     else if chHeader = 4 \<or> chHeader = 6 \<or> chHeader = 7 then 65 else 0)"

definition pubkey_invalid :: CPubKey where
  "pubkey_invalid = [0xFF]"

definition pubkey_Set :: "bytes \<Rightarrow> CPubKey" where
  "pubkey_Set p = (let len = (if p = [] then 0 else GetLen (p ! 0))
     in if len \<noteq> 0 \<and> len = length p then p else pubkey_invalid)"

definition pubkey_size :: "CPubKey \<Rightarrow> nat" where
  "pubkey_size k = GetLen (k ! 0)"

definition pubkey_IsValid :: "CPubKey \<Rightarrow> bool" where
  "pubkey_IsValid k \<longleftrightarrow> pubkey_size k > 0"

definition IsCompressed :: "CPubKey \<Rightarrow> bool" where
  "IsCompressed k \<longleftrightarrow> pubkey_size k = 33"

definition GetID :: "CPubKey \<Rightarrow> bytes" where
  "GetID k = Hash160 (take (pubkey_size k) k)"

definition pubkey_Verify :: "('k, 's) secp256k1 \<Rightarrow> CPubKey \<Rightarrow> bytes \<Rightarrow> bytes \<Rightarrow> bool" where
  "pubkey_Verify secp k hash vchSig =
     (if \<not> pubkey_IsValid k then False
      else case ec_pubkey_parse secp k of None \<Rightarrow> False
      | Some pubkey \<Rightarrow>
         if vchSig = [] then False
         else case ecdsa_signature_parse_der secp vchSig of None \<Rightarrow> False
         | Some sig \<Rightarrow> ecdsa_verify secp (snd (ecdsa_signature_normalize secp sig)) hash pubkey)"

definition RecoverCompact :: "('k, 's) secp256k1 \<Rightarrow> bytes \<Rightarrow> bytes \<Rightarrow> CPubKey option" where
  "RecoverCompact secp hash vchSig =
     (if length vchSig \<noteq> 65 then None
      else let recid = unat ((vchSig ! 0 - 27) AND 3); fComp = ((vchSig ! 0 - 27) AND 4 \<noteq> 0)
      in case ecdsa_recoverable_parse_compact secp (drop 1 vchSig) recid of None \<Rightarrow> None
      | Some sig \<Rightarrow> (case ecdsa_recover secp sig hash of None \<Rightarrow> None
        | Some pubkey \<Rightarrow> Some (pubkey_Set (ec_pubkey_serialize secp pubkey fComp))))"

definition IsFullyValid :: "('k, 's) secp256k1 \<Rightarrow> CPubKey \<Rightarrow> bool" where
  "IsFullyValid secp k \<longleftrightarrow> pubkey_IsValid k \<and> ec_pubkey_parse secp k \<noteq> None"

definition Decompress :: "('k, 's) secp256k1 \<Rightarrow> CPubKey \<Rightarrow> CPubKey option" where
  "Decompress secp k =
     (if \<not> pubkey_IsValid k then None
      else case ec_pubkey_parse secp k of None \<Rightarrow> None
      | Some pubkey \<Rightarrow> Some (pubkey_Set (ec_pubkey_serialize secp pubkey False)))"

definition pubkey_Derive :: "('k, 's) secp256k1 \<Rightarrow> CPubKey \<Rightarrow> u32 \<Rightarrow> bytes \<Rightarrow> failure + (CPubKey \<times> bytes) option" where
  "pubkey_Derive secp k nChild cc =
     and_then (cassert (pubkey_IsValid k)) (\<lambda>_.
     and_then (cassert (drop_bit 31 nChild = 0)) (\<lambda>_.
     and_then (cassert (pubkey_size k = 33)) (\<lambda>_.
       let out = BIP32Hash cc nChild (k ! 0) (drop 1 k); ccChild = take 32 (drop 32 out)
       in case ec_pubkey_parse secp k of None \<Rightarrow> Inr None
       | Some pubkey \<Rightarrow> (case ec_pubkey_tweak_add secp pubkey (take 32 out) of None \<Rightarrow> Inr None
         | Some child \<Rightarrow> Inr (Some (pubkey_Set (ec_pubkey_serialize secp child True), ccChild))))))"

definition CheckLowS :: "('k, 's) secp256k1 \<Rightarrow> bytes \<Rightarrow> bool" where
  "CheckLowS secp vchSig = (case ecdsa_signature_parse_der secp vchSig of None \<Rightarrow> False
     | Some sig \<Rightarrow> \<not> fst (ecdsa_signature_normalize secp sig))"

record CExtPubKey =
  nDepth :: u8
  vchFingerprint :: bytes
  nChild :: u32
  chaincode :: bytes
  ext_pubkey :: CPubKey

definition ext_Encode :: "CExtPubKey \<Rightarrow> failure + bytes" where
  "ext_Encode k = and_then (cassert (pubkey_size (ext_pubkey k) = 33)) (\<lambda>_.
     Inr ([nDepth k] @ take 4 (vchFingerprint k) @
       [ucast (drop_bit 24 (nChild k) AND 0xFF), ucast (drop_bit 16 (nChild k) AND 0xFF),
        ucast (drop_bit 8 (nChild k) AND 0xFF), ucast (nChild k AND 0xFF)] @
       take 32 (chaincode k) @ take 33 (ext_pubkey k)))"

definition ext_Decode :: "bytes \<Rightarrow> CExtPubKey" where
  "ext_Decode code = \<lparr>nDepth = code ! 0, vchFingerprint = take 4 (drop 1 code),
     nChild = push_bit 24 (ucast (code ! 5)) OR push_bit 16 (ucast (code ! 6)) OR push_bit 8 (ucast (code ! 7)) OR ucast (code ! 8),
     chaincode = take 32 (drop 9 code), ext_pubkey = pubkey_Set (take 33 (drop 41 code))\<rparr>"

definition ext_Derive :: "('k, 's) secp256k1 \<Rightarrow> CExtPubKey \<Rightarrow> u32 \<Rightarrow> failure + CExtPubKey option" where
  "ext_Derive secp k n = and_then (pubkey_Derive secp (ext_pubkey k) n (chaincode k)) (\<lambda>r.
     Inr (map_option (\<lambda>(child, cc). \<lparr>nDepth = nDepth k + 1, vchFingerprint = take 4 (GetID (ext_pubkey k)), nChild = n,
       chaincode = cc, ext_pubkey = child\<rparr>) r))"

section \<open>Well-formed keys\<close>

definition pubkey_wf :: "CPubKey \<Rightarrow> bool" where
  "pubkey_wf k \<longleftrightarrow> k \<noteq> [] \<and> (pubkey_size k = length k \<or> k = pubkey_invalid)"

definition ext_wf :: "CExtPubKey \<Rightarrow> bool" where
  "ext_wf k \<longleftrightarrow> length (vchFingerprint k) = 4 \<and> length (chaincode k) = 32 \<and> length (ext_pubkey k) = 33 \<and>
     pubkey_size (ext_pubkey k) = 33"

lemma pubkey_Set_wf: "pubkey_wf (pubkey_Set p)"
  by (auto simp: pubkey_Set_def pubkey_wf_def pubkey_size_def pubkey_invalid_def Let_def)

lemma pubkey_Set_valid:
  "pubkey_IsValid (pubkey_Set p) \<longleftrightarrow> p \<noteq> [] \<and> length p = GetLen (p ! 0)"
  "p \<noteq> [] \<Longrightarrow> length p = GetLen (p ! 0) \<Longrightarrow> pubkey_Set p = p"
  by (auto simp: pubkey_Set_def pubkey_IsValid_def pubkey_size_def pubkey_invalid_def Let_def GetLen_def)

lemma BE_bytes:
  "[ucast (drop_bit 24 n AND 0xFF), ucast (drop_bit 16 n AND 0xFF), ucast (drop_bit 8 n AND 0xFF), ucast (n AND 0xFF)] = WriteBE32 n"
  unfolding ucast_mask_byte by (simp add: WriteBE32_def WriteLE32_def)

lemma BE_word:
  "push_bit 24 (ucast a) OR push_bit 16 (ucast b) OR push_bit 8 (ucast c) OR ucast d = ReadBE32 (a # b # c # d # rest)"
  by (simp add: ReadBE32_def ReadLE32_def ac_simps)

lemma ext_Encode_wf:
  "ext_wf k \<Longrightarrow> ext_Encode k = Inr (nDepth k # vchFingerprint k @ WriteBE32 (nChild k) @ chaincode k @ ext_pubkey k)"
  by (simp add: ext_Encode_def ext_wf_def BE_bytes)

lemma ext_Decode_parts:
  assumes "length fp = 4" "length n = 4" "length cc = 32" "length p = 33" "GetLen (p ! 0) = 33"
  shows "ext_Decode (d # fp @ n @ cc @ p) = \<lparr>nDepth = d, vchFingerprint = fp, nChild = ReadBE32 n, chaincode = cc, ext_pubkey = p\<rparr>"
proof -
  obtain f0 f1 f2 f3 where fp: "fp = [f0, f1, f2, f3]" using assms(1) by (auto simp: numeral_eq_Suc length_Suc_conv)
  obtain n0 n1 n2 n3 where n: "n = [n0, n1, n2, n3]" using assms(2) by (auto simp: numeral_eq_Suc length_Suc_conv)
  have "pubkey_Set p = p" using assms by (intro pubkey_Set_valid) auto
  then show ?thesis using assms(3,4) BE_word [of n0 n1 n2 n3 "[]"] by (simp add: ext_Decode_def fp n)
qed

lemma split_bytes: "xs = take a xs @ take b (drop a xs) @ drop (a + b) xs"
  by (metis add.commute append_take_drop_id drop_drop)

text \<open>Extended public keys survive serialisation: a key with a compressed public key is encoded without failing an assertion
  into 74 bytes, decoding gives it back, and any 74 bytes that hold a compressed key are what decoding and
  encoding them again gives.\<close>

theorem extended_key_roundtrip:
  assumes "ext_wf k"
  shows "\<exists>code. ext_Encode k = Inr code \<and> length code = 74 \<and> ext_Decode code = k \<and>
    (length c = 74 \<and> GetLen (c ! 41) = 33 \<longrightarrow> ext_Encode (ext_Decode c) = Inr c)"
proof -
  have k: "length (vchFingerprint k) = 4" "length (chaincode k) = 32" "length (ext_pubkey k) = 33"
    "GetLen (ext_pubkey k ! 0) = 33" using assms by (auto simp: ext_wf_def pubkey_size_def)
  have dec: "ext_Decode (nDepth k # vchFingerprint k @ WriteBE32 (nChild k) @ chaincode k @ ext_pubkey k) = k"
    using k ReadBE32_WriteBE32 [of "nChild k" "[]"] by (simp add: ext_Decode_parts)
  have enc: "ext_Encode (ext_Decode c) = Inr c" if c: "length c = 74" "GetLen (c ! 41) = 33"
  proof -
    obtain c0 r where c0: "c = c0 # r" "length r = 73" using c(1) by (cases c) auto
    define fp where "fp = take 4 r"
    define n where "n = take 4 (drop 4 r)"
    define cc where "cc = take 32 (drop 8 r)"
    define p where "p = drop 40 r"
    have len: "length fp = 4" "length n = 4" "length cc = 32" "length p = 33" "GetLen (p ! 0) = 33"
      using c c0 by (simp_all add: fp_def n_def cc_def p_def)
    have "r = fp @ n @ drop 8 r" using split_bytes [of r 4 4] by (simp add: fp_def n_def)
    moreover have "drop 8 r = cc @ p" using append_take_drop_id [of 32 "drop 8 r"] by (simp add: cc_def p_def)
    ultimately have split: "c = c0 # fp @ n @ cc @ p" using c0 by simp
    have "ext_wf \<lparr>nDepth = c0, vchFingerprint = fp, nChild = ReadBE32 n, chaincode = cc, ext_pubkey = p\<rparr>"
      using len by (simp add: ext_wf_def pubkey_size_def)
    then show ?thesis
      unfolding split by (simp add: ext_Decode_parts [OF len] ext_Encode_wf WriteBE32_ReadBE32 len)
  qed
  show ?thesis using ext_Encode_wf [OF assms] dec enc k by auto
qed

definition sample_ext :: CExtPubKey where
  "sample_ext = \<lparr>nDepth = 1, vchFingerprint = [1, 2, 3, 4], nChild = 5, chaincode = replicate 32 7, ext_pubkey = 2 # replicate 32 9\<rparr>"

theorem extended_key_roundtrip_witness:
  "ext_wf sample_ext \<and> (\<exists>code. ext_Encode sample_ext = Inr code \<and> length code = 74 \<and> ext_Decode code = sample_ext)"
proof -
  have wf: "ext_wf sample_ext" by (simp add: ext_wf_def sample_ext_def pubkey_size_def GetLen_def)
  from extended_key_roundtrip [OF wf] wf show ?thesis by blast
qed

end
