(* ===== verification/Interpreter.thy ===== *)
theory Interpreter
  imports Script PubKey
begin

unbundle bit_operations_syntax

text \<open>
  The script machine of \<^verbatim>\<open>script/interpreter.cpp\<close>: the encoding checks on signatures and keys, \<open>EvalScript\<close> with every case of its
  switch, and \<open>VerifyScript\<close>.

  A stack is a list with the top at its head, so \<open>stacktop(-i)\<close> is element \<open>i - 1\<close>, \<open>push_back\<close> is \<open>#\<close> and \<open>popstack\<close> is the
  tail; \<open>vfExec\<close> is kept the same way. Leaving the machine early is a value: \<open>Fail e\<close> is \<open>return set_error(serror, e)\<close>, \<open>Throw\<close> an
  exception, which \<open>EvalScript\<close> catches, and \<open>Abort\<close> a failed assertion. Each group of cases of the switch is a
  definition of its own. What the machine takes from outside, the flags, the two virtual functions of the
  signature checker, the check for low S values and the branch id, is a record.
\<close>

section \<open>Errors and flags\<close>

datatype ScriptError = SCRIPT_ERR_OK | SCRIPT_ERR_UNKNOWN_ERROR | SCRIPT_ERR_EVAL_FALSE | SCRIPT_ERR_OP_RETURN
  | SCRIPT_ERR_SCRIPT_SIZE | SCRIPT_ERR_PUSH_SIZE | SCRIPT_ERR_OP_COUNT | SCRIPT_ERR_STACK_SIZE | SCRIPT_ERR_SIG_COUNT
  | SCRIPT_ERR_PUBKEY_COUNT | SCRIPT_ERR_VERIFY | SCRIPT_ERR_EQUALVERIFY | SCRIPT_ERR_CHECKMULTISIGVERIFY
  | SCRIPT_ERR_CHECKSIGVERIFY | SCRIPT_ERR_NUMEQUALVERIFY | SCRIPT_ERR_BAD_OPCODE | SCRIPT_ERR_DISABLED_OPCODE
  | SCRIPT_ERR_INVALID_STACK_OPERATION | SCRIPT_ERR_INVALID_ALTSTACK_OPERATION | SCRIPT_ERR_UNBALANCED_CONDITIONAL
  | SCRIPT_ERR_NEGATIVE_LOCKTIME | SCRIPT_ERR_UNSATISFIED_LOCKTIME | SCRIPT_ERR_SIG_HASHTYPE | SCRIPT_ERR_SIG_DER
  | SCRIPT_ERR_MINIMALDATA | SCRIPT_ERR_SIG_PUSHONLY | SCRIPT_ERR_SIG_HIGH_S | SCRIPT_ERR_SIG_NULLDUMMY
  | SCRIPT_ERR_PUBKEYTYPE | SCRIPT_ERR_CLEANSTACK | SCRIPT_ERR_DISCOURAGE_UPGRADABLE_NOPS | SCRIPT_ERR_ERROR_COUNT

fun ScriptErrorString :: "ScriptError \<Rightarrow> string" where
  "ScriptErrorString SCRIPT_ERR_OK = ''No error''"
| "ScriptErrorString SCRIPT_ERR_EVAL_FALSE = ''Script evaluated without error but finished with a false/empty top stack element''"
| "ScriptErrorString SCRIPT_ERR_VERIFY = ''Script failed an OP_VERIFY operation''"
| "ScriptErrorString SCRIPT_ERR_EQUALVERIFY = ''Script failed an OP_EQUALVERIFY operation''"
| "ScriptErrorString SCRIPT_ERR_CHECKMULTISIGVERIFY = ''Script failed an OP_CHECKMULTISIGVERIFY operation''"
| "ScriptErrorString SCRIPT_ERR_CHECKSIGVERIFY = ''Script failed an OP_CHECKSIGVERIFY operation''"
| "ScriptErrorString SCRIPT_ERR_NUMEQUALVERIFY = ''Script failed an OP_NUMEQUALVERIFY operation''"
| "ScriptErrorString SCRIPT_ERR_SCRIPT_SIZE = ''Script is too big''"
| "ScriptErrorString SCRIPT_ERR_PUSH_SIZE = ''Push value size limit exceeded''"
| "ScriptErrorString SCRIPT_ERR_OP_COUNT = ''Operation limit exceeded''"
| "ScriptErrorString SCRIPT_ERR_STACK_SIZE = ''Stack size limit exceeded''"
| "ScriptErrorString SCRIPT_ERR_SIG_COUNT = ''Signature count negative or greater than pubkey count''"
| "ScriptErrorString SCRIPT_ERR_PUBKEY_COUNT = ''Pubkey count negative or limit exceeded''"
| "ScriptErrorString SCRIPT_ERR_BAD_OPCODE = ''Opcode missing or not understood''"
| "ScriptErrorString SCRIPT_ERR_DISABLED_OPCODE = ''Attempted to use a disabled opcode''"
| "ScriptErrorString SCRIPT_ERR_INVALID_STACK_OPERATION = ''Operation not valid with the current stack size''"
| "ScriptErrorString SCRIPT_ERR_INVALID_ALTSTACK_OPERATION = ''Operation not valid with the current altstack size''"
| "ScriptErrorString SCRIPT_ERR_OP_RETURN = ''OP_RETURN was encountered''"
| "ScriptErrorString SCRIPT_ERR_UNBALANCED_CONDITIONAL = ''Invalid OP_IF construction''"
| "ScriptErrorString SCRIPT_ERR_NEGATIVE_LOCKTIME = ''Negative locktime''"
| "ScriptErrorString SCRIPT_ERR_UNSATISFIED_LOCKTIME = ''Locktime requirement not satisfied''"
| "ScriptErrorString SCRIPT_ERR_SIG_HASHTYPE = ''Signature hash type missing or not understood''"
| "ScriptErrorString SCRIPT_ERR_SIG_DER = ''Non-canonical DER signature''"
| "ScriptErrorString SCRIPT_ERR_MINIMALDATA = ''Data push larger than necessary''"
| "ScriptErrorString SCRIPT_ERR_SIG_PUSHONLY = ''Only non-push operators allowed in signatures''"
| "ScriptErrorString SCRIPT_ERR_SIG_HIGH_S = ''Non-canonical signature: S value is unnecessarily high''"
| "ScriptErrorString SCRIPT_ERR_SIG_NULLDUMMY = ''Dummy CHECKMULTISIG argument must be zero''"
| "ScriptErrorString SCRIPT_ERR_DISCOURAGE_UPGRADABLE_NOPS = ''NOPx reserved for soft-fork upgrades''"
| "ScriptErrorString SCRIPT_ERR_PUBKEYTYPE = ''Public key is neither compressed or uncompressed''"
| "ScriptErrorString _ = ''unknown error''"

datatype script_exit = Fail ScriptError | Throw | Abort

definition lift_failure :: "failure + 'a \<Rightarrow> script_exit + 'a" where
  "lift_failure r = (case r of Inl (Thrown _) \<Rightarrow> Inl Throw | Inl _ \<Rightarrow> Inl Abort | Inr x \<Rightarrow> Inr x)"

abbreviation (input) SCRIPT_VERIFY_P2SH :: u32 where "SCRIPT_VERIFY_P2SH \<equiv> 0x1"
abbreviation (input) SCRIPT_VERIFY_STRICTENC :: u32 where "SCRIPT_VERIFY_STRICTENC \<equiv> 0x2"
abbreviation (input) SCRIPT_VERIFY_LOW_S :: u32 where "SCRIPT_VERIFY_LOW_S \<equiv> 0x8"
abbreviation (input) SCRIPT_VERIFY_NULLDUMMY :: u32 where "SCRIPT_VERIFY_NULLDUMMY \<equiv> 0x10"
abbreviation (input) SCRIPT_VERIFY_SIGPUSHONLY :: u32 where "SCRIPT_VERIFY_SIGPUSHONLY \<equiv> 0x20"
abbreviation (input) SCRIPT_VERIFY_MINIMALDATA :: u32 where "SCRIPT_VERIFY_MINIMALDATA \<equiv> 0x40"
abbreviation (input) SCRIPT_VERIFY_DISCOURAGE_UPGRADABLE_NOPS :: u32 where "SCRIPT_VERIFY_DISCOURAGE_UPGRADABLE_NOPS \<equiv> 0x80"
abbreviation (input) SCRIPT_VERIFY_CLEANSTACK :: u32 where "SCRIPT_VERIFY_CLEANSTACK \<equiv> 0x100"
abbreviation (input) SCRIPT_VERIFY_CHECKLOCKTIMEVERIFY :: u32 where "SCRIPT_VERIFY_CHECKLOCKTIMEVERIFY \<equiv> 0x200"

record eval_env =
  env_flags :: u32
  env_CheckSig :: "bytes \<Rightarrow> bytes \<Rightarrow> CScript \<Rightarrow> u32 \<Rightarrow> bool"
  env_CheckLockTime :: "CScriptNum \<Rightarrow> bool"
  env_CheckLowS :: "bytes \<Rightarrow> bool"
  env_branchId :: u32

definition flag :: "eval_env \<Rightarrow> u32 \<Rightarrow> bool" where
  "flag env f \<longleftrightarrow> env_flags env AND f \<noteq> 0"

section \<open>Encodings\<close>

fun CastToBool :: "bytes \<Rightarrow> bool" where
  "CastToBool [] = False"
| "CastToBool (b # vch) = (if b \<noteq> 0 then (if vch = [] \<and> b = 0x80 then False else True) else CastToBool vch)"

definition IsCompressedOrUncompressedPubKey :: "bytes \<Rightarrow> bool" where
  "IsCompressedOrUncompressedPubKey vchPubKey =
     (if length vchPubKey < 33 then False
      else if vchPubKey ! 0 = 0x04 then (if length vchPubKey \<noteq> 65 then False else True)
      else if vchPubKey ! 0 = 0x02 \<or> vchPubKey ! 0 = 0x03 then (if length vchPubKey \<noteq> 33 then False else True)
      else False)"

definition IsValidSignatureEncoding :: "bytes \<Rightarrow> bool" where
  "IsValidSignatureEncoding sig =
     (if length sig < 9 then False
      else if length sig > 73 then False
      else if sig ! 0 \<noteq> 0x30 then False
      else if unat (sig ! 1) \<noteq> length sig - 3 then False
      else let lenR = unat (sig ! 3) in
      if 5 + lenR \<ge> length sig then False
      else let lenS = unat (sig ! (5 + lenR)) in
      if lenR + lenS + 7 \<noteq> length sig then False
      else if sig ! 2 \<noteq> 0x02 then False
      else if lenR = 0 then False
      else if sig ! 4 AND 0x80 \<noteq> 0 then False
      else if lenR > 1 \<and> sig ! 4 = 0x00 \<and> \<not> (sig ! 5 AND 0x80 \<noteq> 0) then False
      else if sig ! (lenR + 4) \<noteq> 0x02 then False
      else if lenS = 0 then False
      else if sig ! (lenR + 6) AND 0x80 \<noteq> 0 then False
      else if lenS > 1 \<and> sig ! (lenR + 6) = 0x00 \<and> \<not> (sig ! (lenR + 7) AND 0x80 \<noteq> 0) then False
      else True)"

text \<open>
  The checks that take \<open>serror\<close> return \<open>Inl (Some e)\<close> where they set an error and return false, and \<open>Inl None\<close> where they return
  false without setting one.
\<close>

definition IsLowDERSignature :: "eval_env \<Rightarrow> bytes \<Rightarrow> ScriptError option + unit" where
  "IsLowDERSignature env vchSig =
     (if \<not> IsValidSignatureEncoding vchSig then Inl (Some SCRIPT_ERR_SIG_DER)
      else if env_CheckLowS env (take (length vchSig - 1) vchSig) then Inr () else Inl None)"

definition IsDefinedHashtypeSignature :: "bytes \<Rightarrow> bool" where
  "IsDefinedHashtypeSignature vchSig =
     (if vchSig = [] then False
      else let nHashType = vchSig ! (length vchSig - 1) AND NOT 0x80
      in if nHashType < 1 \<or> nHashType > 3 then False else True)"

definition CheckSignatureEncoding :: "eval_env \<Rightarrow> bytes \<Rightarrow> ScriptError option + unit" where
  "CheckSignatureEncoding env vchSig =
     (if vchSig = [] then Inr ()
      else if \<not> IsValidSignatureEncoding vchSig then Inl (Some SCRIPT_ERR_SIG_DER)
      else case (if flag env SCRIPT_VERIFY_LOW_S then IsLowDERSignature env vchSig else Inr ()) of
        Inl e \<Rightarrow> Inl e
      | Inr _ \<Rightarrow>
          if flag env SCRIPT_VERIFY_STRICTENC \<and> \<not> IsDefinedHashtypeSignature vchSig
          then Inl (Some SCRIPT_ERR_SIG_HASHTYPE) else Inr ())"

definition CheckPubKeyEncoding :: "eval_env \<Rightarrow> bytes \<Rightarrow> ScriptError option + unit" where
  "CheckPubKeyEncoding env vchPubKey =
     (if flag env SCRIPT_VERIFY_STRICTENC \<and> \<not> IsCompressedOrUncompressedPubKey vchPubKey
      then Inl (Some SCRIPT_ERR_PUBKEYTYPE) else Inr ())"

definition CheckMinimalPush :: "bytes \<Rightarrow> opcodetype \<Rightarrow> bool" where
  "CheckMinimalPush data opcode =
     (if length data = 0 then opcode = OP_0
      else if length data = 1 \<and> data ! 0 \<ge> 1 \<and> data ! 0 \<le> 16 then opcode = OP_1 + (unat (data ! 0) - 1)
      else if length data = 1 \<and> data ! 0 = 0x81 then opcode = OP_1NEGATE
      else if length data \<le> 75 then opcode = length data
      else if length data \<le> 255 then opcode = OP_PUSHDATA1
      else if length data \<le> 65535 then opcode = OP_PUSHDATA2
      else True)"

section \<open>Cases of the switch\<close>

record script_state =
  stack :: "bytes list"
  altstack :: "bytes list"
  vfExec :: "bool list"
  nOpCount :: int

abbreviation (input) vchFalse :: bytes where "vchFalse \<equiv> []"
abbreviation (input) vchTrue :: bytes where "vchTrue \<equiv> [1]"

definition vch_bool :: "bool \<Rightarrow> bytes" where
  "vch_bool b = (if b then vchTrue else vchFalse)"

definition bad_stack :: "script_exit + 'a" where
  "bad_stack = Inl (Fail SCRIPT_ERR_INVALID_STACK_OPERATION)"

definition script_num :: "eval_env \<Rightarrow> bytes \<Rightarrow> nat \<Rightarrow> script_exit + CScriptNum" where
  "script_num env vch nMax = lift_failure (CScriptNum_of vch (flag env SCRIPT_VERIFY_MINIMALDATA) nMax)"

definition op_push_number :: "opcodetype \<Rightarrow> script_state \<Rightarrow> script_exit + script_state" where
  "op_push_number opcode st = Inr (st\<lparr>stack := CScriptNum_serialize (int opcode - int (OP_1 - 1)) # stack st\<rparr>)"

definition op_checklocktime :: "eval_env \<Rightarrow> script_state \<Rightarrow> script_exit + script_state" where
  "op_checklocktime env st =
     (if \<not> flag env SCRIPT_VERIFY_CHECKLOCKTIMEVERIFY then
        if flag env SCRIPT_VERIFY_DISCOURAGE_UPGRADABLE_NOPS then Inl (Fail SCRIPT_ERR_DISCOURAGE_UPGRADABLE_NOPS) else Inr st
      else case stack st of [] \<Rightarrow> bad_stack
      | vch # _ \<Rightarrow> and_then (script_num env vch 5) (\<lambda>nLockTime.
          if nLockTime < 0 then Inl (Fail SCRIPT_ERR_NEGATIVE_LOCKTIME)
          else if \<not> env_CheckLockTime env nLockTime then Inl (Fail SCRIPT_ERR_UNSATISFIED_LOCKTIME)
          else Inr st))"

definition op_nop :: "eval_env \<Rightarrow> script_state \<Rightarrow> script_exit + script_state" where
  "op_nop env st = (if flag env SCRIPT_VERIFY_DISCOURAGE_UPGRADABLE_NOPS
     then Inl (Fail SCRIPT_ERR_DISCOURAGE_UPGRADABLE_NOPS) else Inr st)"

definition op_control :: "bool \<Rightarrow> opcodetype \<Rightarrow> script_state \<Rightarrow> script_exit + script_state" where
  "op_control fExec opcode st =
     (if opcode = OP_IF \<or> opcode = OP_NOTIF then
        if fExec then
          case stack st of [] \<Rightarrow> Inl (Fail SCRIPT_ERR_UNBALANCED_CONDITIONAL)
          | vch # rest \<Rightarrow>
              let fValue = CastToBool vch; fValue = (if opcode = OP_NOTIF then \<not> fValue else fValue)
              in Inr (st\<lparr>stack := rest, vfExec := fValue # vfExec st\<rparr>)
        else Inr (st\<lparr>vfExec := False # vfExec st\<rparr>)
      else if opcode = OP_ELSE then
        case vfExec st of [] \<Rightarrow> Inl (Fail SCRIPT_ERR_UNBALANCED_CONDITIONAL)
        | f # fs \<Rightarrow> Inr (st\<lparr>vfExec := (\<not> f) # fs\<rparr>)
      else if opcode = OP_ENDIF then
        case vfExec st of [] \<Rightarrow> Inl (Fail SCRIPT_ERR_UNBALANCED_CONDITIONAL)
        | f # fs \<Rightarrow> Inr (st\<lparr>vfExec := fs\<rparr>)
      else if opcode = OP_VERIFY then
        case stack st of [] \<Rightarrow> bad_stack
        | vch # rest \<Rightarrow> if CastToBool vch then Inr (st\<lparr>stack := rest\<rparr>) else Inl (Fail SCRIPT_ERR_VERIFY)
      else Inl (Fail SCRIPT_ERR_OP_RETURN))"

definition op_stack :: "opcodetype \<Rightarrow> script_state \<Rightarrow> script_exit + script_state" where
  "op_stack opcode st =
     (if opcode = OP_TOALTSTACK then
        case stack st of x # s \<Rightarrow> Inr (st\<lparr>stack := s, altstack := x # altstack st\<rparr>) | _ \<Rightarrow> bad_stack
      else if opcode = OP_FROMALTSTACK then
        case altstack st of x # s \<Rightarrow> Inr (st\<lparr>stack := x # stack st, altstack := s\<rparr>)
        | _ \<Rightarrow> Inl (Fail SCRIPT_ERR_INVALID_ALTSTACK_OPERATION)
      else if opcode = OP_2DROP then
        case stack st of x2 # x1 # s \<Rightarrow> Inr (st\<lparr>stack := s\<rparr>) | _ \<Rightarrow> bad_stack
      else if opcode = OP_2DUP then
        case stack st of x2 # x1 # s \<Rightarrow> Inr (st\<lparr>stack := x2 # x1 # x2 # x1 # s\<rparr>) | _ \<Rightarrow> bad_stack
      else if opcode = OP_3DUP then
        case stack st of x3 # x2 # x1 # s \<Rightarrow> Inr (st\<lparr>stack := x3 # x2 # x1 # x3 # x2 # x1 # s\<rparr>) | _ \<Rightarrow> bad_stack
      else if opcode = OP_2OVER then
        case stack st of x4 # x3 # x2 # x1 # s \<Rightarrow> Inr (st\<lparr>stack := x2 # x1 # x4 # x3 # x2 # x1 # s\<rparr>) | _ \<Rightarrow> bad_stack
      else if opcode = OP_2ROT then
        case stack st of x6 # x5 # x4 # x3 # x2 # x1 # s \<Rightarrow> Inr (st\<lparr>stack := x2 # x1 # x6 # x5 # x4 # x3 # s\<rparr>) | _ \<Rightarrow> bad_stack
      else if opcode = OP_2SWAP then
        case stack st of x4 # x3 # x2 # x1 # s \<Rightarrow> Inr (st\<lparr>stack := x2 # x1 # x4 # x3 # s\<rparr>) | _ \<Rightarrow> bad_stack
      else if opcode = OP_IFDUP then
        case stack st of x # s \<Rightarrow> Inr (if CastToBool x then st\<lparr>stack := x # x # s\<rparr> else st) | _ \<Rightarrow> bad_stack
      else if opcode = OP_DEPTH then
        Inr (st\<lparr>stack := CScriptNum_serialize (int (length (stack st))) # stack st\<rparr>)
      else if opcode = OP_DROP then
        case stack st of x # s \<Rightarrow> Inr (st\<lparr>stack := s\<rparr>) | _ \<Rightarrow> bad_stack
      else
        case stack st of x # s \<Rightarrow> Inr (st\<lparr>stack := x # x # s\<rparr>) | _ \<Rightarrow> bad_stack)"

definition op_stack2 :: "eval_env \<Rightarrow> opcodetype \<Rightarrow> script_state \<Rightarrow> script_exit + script_state" where
  "op_stack2 env opcode st =
     (if opcode = OP_NIP then
        case stack st of x2 # x1 # s \<Rightarrow> Inr (st\<lparr>stack := x2 # s\<rparr>) | _ \<Rightarrow> bad_stack
      else if opcode = OP_OVER then
        case stack st of x2 # x1 # s \<Rightarrow> Inr (st\<lparr>stack := x1 # x2 # x1 # s\<rparr>) | _ \<Rightarrow> bad_stack
      else if opcode = OP_PICK \<or> opcode = OP_ROLL then
        if length (stack st) < 2 then bad_stack
        else and_then (script_num env (hd (stack st)) nDefaultMaxNumSize) (\<lambda>bn.
          let n = getint bn; s = tl (stack st) in
          if n < 0 \<or> n \<ge> int (length s) then bad_stack
          else let vch = s ! nat n;
                   s = (if opcode = OP_ROLL then take (nat n) s @ drop (nat n + 1) s else s)
               in Inr (st\<lparr>stack := vch # s\<rparr>))
      else if opcode = OP_ROT then
        case stack st of x3 # x2 # x1 # s \<Rightarrow> Inr (st\<lparr>stack := x1 # x3 # x2 # s\<rparr>) | _ \<Rightarrow> bad_stack
      else if opcode = OP_SWAP then
        case stack st of x2 # x1 # s \<Rightarrow> Inr (st\<lparr>stack := x1 # x2 # s\<rparr>) | _ \<Rightarrow> bad_stack
      else if opcode = OP_TUCK then
        case stack st of x2 # x1 # s \<Rightarrow> Inr (st\<lparr>stack := x2 # x1 # x2 # s\<rparr>) | _ \<Rightarrow> bad_stack
      else
        case stack st of x # s \<Rightarrow> Inr (st\<lparr>stack := CScriptNum_serialize (int (length x)) # x # s\<rparr>) | _ \<Rightarrow> bad_stack)"

definition op_equal :: "opcodetype \<Rightarrow> script_state \<Rightarrow> script_exit + script_state" where
  "op_equal opcode st =
     (case stack st of vch2 # vch1 # s \<Rightarrow>
        let fEqual = (vch1 = vch2) in
        if opcode = OP_EQUALVERIFY then
          if fEqual then Inr (st\<lparr>stack := s\<rparr>) else Inl (Fail SCRIPT_ERR_EQUALVERIFY)
        else Inr (st\<lparr>stack := vch_bool fEqual # s\<rparr>)
      | _ \<Rightarrow> bad_stack)"

definition unary_num :: "opcodetype \<Rightarrow> CScriptNum \<Rightarrow> failure + CScriptNum" where
  "unary_num opcode bn =
     (if opcode = OP_1ADD then num_add bn 1
      else if opcode = OP_1SUB then num_sub bn 1
      else if opcode = OP_NEGATE then num_neg bn
      else if opcode = OP_ABS then (if bn < 0 then num_neg bn else Inr bn)
      else if opcode = OP_NOT then Inr (of_bool (bn = 0))
      else if opcode = OP_0NOTEQUAL then Inr (of_bool (bn \<noteq> 0))
      else Inl AssertionFailed)"

definition op_unary :: "eval_env \<Rightarrow> opcodetype \<Rightarrow> script_state \<Rightarrow> script_exit + script_state" where
  "op_unary env opcode st =
     (case stack st of x # s \<Rightarrow>
        and_then (script_num env x nDefaultMaxNumSize) (\<lambda>bn.
        and_then (lift_failure (unary_num opcode bn)) (\<lambda>bn.
        Inr (st\<lparr>stack := CScriptNum_serialize bn # s\<rparr>)))
      | _ \<Rightarrow> bad_stack)"

definition binary_num :: "opcodetype \<Rightarrow> CScriptNum \<Rightarrow> CScriptNum \<Rightarrow> failure + CScriptNum" where
  "binary_num opcode bn1 bn2 =
     (if opcode = OP_ADD then Inr (bn1 + bn2)
      else if opcode = OP_SUB then Inr (bn1 - bn2)
      else if opcode = OP_BOOLAND then Inr (of_bool (bn1 \<noteq> 0 \<and> bn2 \<noteq> 0))
      else if opcode = OP_BOOLOR then Inr (of_bool (bn1 \<noteq> 0 \<or> bn2 \<noteq> 0))
      else if opcode = OP_NUMEQUAL then Inr (of_bool (bn1 = bn2))
      else if opcode = OP_NUMEQUALVERIFY then Inr (of_bool (bn1 = bn2))
      else if opcode = OP_NUMNOTEQUAL then Inr (of_bool (bn1 \<noteq> bn2))
      else if opcode = OP_LESSTHAN then Inr (of_bool (bn1 < bn2))
      else if opcode = OP_GREATERTHAN then Inr (of_bool (bn1 > bn2))
      else if opcode = OP_LESSTHANOREQUAL then Inr (of_bool (bn1 \<le> bn2))
      else if opcode = OP_GREATERTHANOREQUAL then Inr (of_bool (bn1 \<ge> bn2))
      else if opcode = OP_MIN then Inr (if bn1 < bn2 then bn1 else bn2)
      else if opcode = OP_MAX then Inr (if bn1 > bn2 then bn1 else bn2)
      else Inl AssertionFailed)"

definition op_binary :: "eval_env \<Rightarrow> opcodetype \<Rightarrow> script_state \<Rightarrow> script_exit + script_state" where
  "op_binary env opcode st =
     (case stack st of x2 # x1 # s \<Rightarrow>
        and_then (script_num env x1 nDefaultMaxNumSize) (\<lambda>bn1.
        and_then (script_num env x2 nDefaultMaxNumSize) (\<lambda>bn2.
        and_then (lift_failure (binary_num opcode bn1 bn2)) (\<lambda>bn.
        let out = CScriptNum_serialize bn in
        if opcode = OP_NUMEQUALVERIFY then
          if CastToBool out then Inr (st\<lparr>stack := s\<rparr>) else Inl (Fail SCRIPT_ERR_NUMEQUALVERIFY)
        else Inr (st\<lparr>stack := out # s\<rparr>))))
      | _ \<Rightarrow> bad_stack)"

definition op_within :: "eval_env \<Rightarrow> script_state \<Rightarrow> script_exit + script_state" where
  "op_within env st =
     (case stack st of x3 # x2 # x1 # s \<Rightarrow>
        and_then (script_num env x1 nDefaultMaxNumSize) (\<lambda>bn1.
        and_then (script_num env x2 nDefaultMaxNumSize) (\<lambda>bn2.
        and_then (script_num env x3 nDefaultMaxNumSize) (\<lambda>bn3.
        Inr (st\<lparr>stack := vch_bool (bn2 \<le> bn1 \<and> bn1 < bn3) # s\<rparr>))))
      | _ \<Rightarrow> bad_stack)"

definition op_hash :: "opcodetype \<Rightarrow> script_state \<Rightarrow> script_exit + script_state" where
  "op_hash opcode st =
     (case stack st of vch # s \<Rightarrow>
        let vchHash =
          (if opcode = OP_RIPEMD160 then CRIPEMD160_Finalize (CRIPEMD160_Write CRIPEMD160 vch)
           else if opcode = OP_SHA1 then CSHA1_Finalize (CSHA1_Write CSHA1 vch)
           else if opcode = OP_SHA256 then CSHA256_Finalize (CSHA256_Write CSHA256 vch)
           else if opcode = OP_HASH160 then CHash160_Finalize (CHash160_Write CHash160 vch)
           else CHash256_Finalize (CHash256_Write CHash256 vch))
        in Inr (st\<lparr>stack := vchHash # s\<rparr>)
      | _ \<Rightarrow> bad_stack)"

text \<open>An encoding check that returned false leaves \<open>serror\<close> as \<open>EvalScript\<close> initialised it, unless the check set it.\<close>

definition check_encodings :: "eval_env \<Rightarrow> bytes \<Rightarrow> bytes \<Rightarrow> script_exit + unit" where
  "check_encodings env vchSig vchPubKey =
     (case CheckSignatureEncoding env vchSig of
        Inl e \<Rightarrow> Inl (Fail (case e of Some err \<Rightarrow> err | None \<Rightarrow> SCRIPT_ERR_UNKNOWN_ERROR))
      | Inr _ \<Rightarrow> (case CheckPubKeyEncoding env vchPubKey of
          Inl e \<Rightarrow> Inl (Fail (case e of Some err \<Rightarrow> err | None \<Rightarrow> SCRIPT_ERR_UNKNOWN_ERROR))
        | Inr _ \<Rightarrow> Inr ()))"

definition op_checksig :: "eval_env \<Rightarrow> CScript \<Rightarrow> opcodetype \<Rightarrow> script_state \<Rightarrow> script_exit + script_state" where
  "op_checksig env script opcode st =
     (case stack st of vchPubKey # vchSig # s \<Rightarrow>
        and_then (check_encodings env vchSig vchPubKey) (\<lambda>_.
        let fSuccess = env_CheckSig env vchSig vchPubKey script (env_branchId env) in
        if opcode = OP_CHECKSIGVERIFY then
          if fSuccess then Inr (st\<lparr>stack := s\<rparr>) else Inl (Fail SCRIPT_ERR_CHECKSIGVERIFY)
        else Inr (st\<lparr>stack := vch_bool fSuccess # s\<rparr>))
      | _ \<Rightarrow> bad_stack)"

text \<open>
  The loop of \<open>OP_CHECKMULTISIG\<close>, entered with at most as many signatures as keys, so that the counts stay natural numbers. The
  indices count from the top of the stack, starting with one.
\<close>

function multisig_loop :: "eval_env \<Rightarrow> CScript \<Rightarrow> bytes list \<Rightarrow> nat \<Rightarrow> nat \<Rightarrow> nat \<Rightarrow> nat \<Rightarrow> script_exit + bool" where
  "multisig_loop env script s isig ikey nSigsCount nKeysCount =
     (if nSigsCount = 0 then Inr True
      else let vchSig = s ! (isig - 1); vchPubKey = s ! (ikey - 1) in
      case check_encodings env vchSig vchPubKey of Inl e \<Rightarrow> Inl e
      | Inr _ \<Rightarrow>
          let fOk = env_CheckSig env vchSig vchPubKey script (env_branchId env);
              isig' = (if fOk then isig + 1 else isig);
              nSigs' = (if fOk then nSigsCount - 1 else nSigsCount);
              nKeys' = nKeysCount - 1
          in if nSigs' > nKeys' then Inr False
             else multisig_loop env script s isig' (ikey + 1) nSigs' nKeys')"
  by pat_completeness auto
termination
  by (relation "measure (\<lambda>(_, _, _, _, _, nSigs, nKeys). nSigs + nKeys)") (auto split: if_splits)

declare multisig_loop.simps [simp del]

definition op_checkmultisig :: "eval_env \<Rightarrow> CScript \<Rightarrow> opcodetype \<Rightarrow> script_state \<Rightarrow> script_exit + script_state" where
  "op_checkmultisig env script opcode st = (let s = stack st in
     if length s < 1 then bad_stack
     else and_then (script_num env (s ! 0) nDefaultMaxNumSize) (\<lambda>bn.
     let nKeysCount = getint bn in
     if nKeysCount < 0 \<or> nKeysCount > 20 then Inl (Fail SCRIPT_ERR_PUBKEY_COUNT)
     else let nOps = nOpCount st + nKeysCount; nKeys = nat nKeysCount; i = 2 + nKeys in
     if nOps > 201 then Inl (Fail SCRIPT_ERR_OP_COUNT)
     else if length s < i then bad_stack
     else and_then (script_num env (s ! (i - 1)) nDefaultMaxNumSize) (\<lambda>bn.
     let nSigsCount = getint bn in
     if nSigsCount < 0 \<or> nSigsCount > nKeysCount then Inl (Fail SCRIPT_ERR_SIG_COUNT)
     else let nSigs = nat nSigsCount; isig = i + 1; i = i + 1 + nSigs in
     if length s < i then bad_stack
     else and_then (multisig_loop env script s isig 2 nSigs nKeys) (\<lambda>fSuccess.
     let s = drop (i - 1) s in
     if length s < 1 then bad_stack
     else if flag env SCRIPT_VERIFY_NULLDUMMY \<and> length (s ! 0) > 0 then Inl (Fail SCRIPT_ERR_SIG_NULLDUMMY)
     else let s = drop 1 s; st = st\<lparr>nOpCount := nOps\<rparr> in
     if opcode = OP_CHECKMULTISIGVERIFY then
       if fSuccess then Inr (st\<lparr>stack := s\<rparr>) else Inl (Fail SCRIPT_ERR_CHECKMULTISIGVERIFY)
     else Inr (st\<lparr>stack := vch_bool fSuccess # s\<rparr>)))))"

section \<open>The machine\<close>

definition disabled_opcode :: "opcodetype \<Rightarrow> bool" where
  "disabled_opcode opcode \<longleftrightarrow> opcode \<in> {OP_CAT, OP_SUBSTR, OP_LEFT, OP_RIGHT, OP_INVERT, OP_AND, OP_OR, OP_XOR, OP_2MUL, OP_2DIV,
     OP_MUL, OP_DIV, OP_MOD, OP_LSHIFT, OP_RSHIFT, OP_CODESEPARATOR}"

definition eval_op :: "eval_env \<Rightarrow> CScript \<Rightarrow> bool \<Rightarrow> opcodetype \<Rightarrow> script_state \<Rightarrow> script_exit + script_state" where
  "eval_op env script fExec opcode st =
     (if opcode = OP_1NEGATE \<or> (OP_1 \<le> opcode \<and> opcode \<le> OP_16) then op_push_number opcode st
      else if opcode = OP_NOP then Inr st
      else if opcode = OP_CHECKLOCKTIMEVERIFY then op_checklocktime env st
      else if opcode = OP_NOP1 \<or> (OP_NOP3 \<le> opcode \<and> opcode \<le> OP_NOP10) then op_nop env st
      else if opcode \<in> {OP_IF, OP_NOTIF, OP_ELSE, OP_ENDIF, OP_VERIFY, OP_RETURN} then op_control fExec opcode st
      else if opcode \<in> {OP_TOALTSTACK, OP_FROMALTSTACK, OP_2DROP, OP_2DUP, OP_3DUP, OP_2OVER, OP_2ROT, OP_2SWAP, OP_IFDUP,
          OP_DEPTH, OP_DROP, OP_DUP} then op_stack opcode st
      else if opcode \<in> {OP_NIP, OP_OVER, OP_PICK, OP_ROLL, OP_ROT, OP_SWAP, OP_TUCK, OP_SIZE} then op_stack2 env opcode st
      else if opcode \<in> {OP_EQUAL, OP_EQUALVERIFY} then op_equal opcode st
      else if opcode \<in> {OP_1ADD, OP_1SUB, OP_NEGATE, OP_ABS, OP_NOT, OP_0NOTEQUAL} then op_unary env opcode st
      else if opcode \<in> {OP_ADD, OP_SUB, OP_BOOLAND, OP_BOOLOR, OP_NUMEQUAL, OP_NUMEQUALVERIFY, OP_NUMNOTEQUAL, OP_LESSTHAN,
          OP_GREATERTHAN, OP_LESSTHANOREQUAL, OP_GREATERTHANOREQUAL, OP_MIN, OP_MAX} then op_binary env opcode st
      else if opcode = OP_WITHIN then op_within env st
      else if opcode \<in> {OP_RIPEMD160, OP_SHA1, OP_SHA256, OP_HASH160, OP_HASH256} then op_hash opcode st
      else if opcode = OP_CHECKSIG \<or> opcode = OP_CHECKSIGVERIFY then op_checksig env script opcode st
      else if opcode = OP_CHECKMULTISIG \<or> opcode = OP_CHECKMULTISIGVERIFY then op_checkmultisig env script opcode st
      else Inl (Fail SCRIPT_ERR_BAD_OPCODE))"

definition eval_step :: "eval_env \<Rightarrow> CScript \<Rightarrow> opcodetype \<Rightarrow> bytes \<Rightarrow> script_state \<Rightarrow> script_exit + script_state" where
  "eval_step env script opcode vchPushValue st = (let
     fExec = (False \<notin> set (vfExec st));
     st = (if opcode > OP_16 then st\<lparr>nOpCount := nOpCount st + 1\<rparr> else st) in
     if length vchPushValue > MAX_SCRIPT_ELEMENT_SIZE then Inl (Fail SCRIPT_ERR_PUSH_SIZE)
     else if opcode > OP_16 \<and> nOpCount st > 201 then Inl (Fail SCRIPT_ERR_OP_COUNT)
     else if disabled_opcode opcode then Inl (Fail SCRIPT_ERR_DISABLED_OPCODE)
     else and_then
       (if fExec \<and> opcode \<le> OP_PUSHDATA4 then
          if flag env SCRIPT_VERIFY_MINIMALDATA \<and> \<not> CheckMinimalPush vchPushValue opcode then Inl (Fail SCRIPT_ERR_MINIMALDATA)
          else Inr (st\<lparr>stack := vchPushValue # stack st\<rparr>)
        else if fExec \<or> (OP_IF \<le> opcode \<and> opcode \<le> OP_ENDIF) then eval_op env script fExec opcode st
        else Inr st)
       (\<lambda>st. if length (stack st) + length (altstack st) > 1000 then Inl (Fail SCRIPT_ERR_STACK_SIZE) else Inr st))"

function eval_loop :: "eval_env \<Rightarrow> CScript \<Rightarrow> script_state \<Rightarrow> bytes \<Rightarrow> script_exit + script_state" where
  "eval_loop env script st pc =
     (if pc = [] then Inr st
      else case GetOp2 pc of (ok, opcode, vchPushValue, pc') \<Rightarrow>
        if \<not> ok then Inl (Fail SCRIPT_ERR_BAD_OPCODE)
        else case eval_step env script opcode vchPushValue st of Inl e \<Rightarrow> Inl e
          | Inr st' \<Rightarrow> eval_loop env script st' pc')"
  by pat_completeness auto
termination
  by (relation "measure (\<lambda>(_, _, _, pc). length pc)") (auto dest!: sym [of _ "GetOp2 _"] GetOp2_shorter)

declare eval_loop.simps [simp del]

definition EvalScript :: "eval_env \<Rightarrow> bytes list \<Rightarrow> CScript \<Rightarrow> script_exit + bytes list" where
  "EvalScript env s script =
     (if length script > MAX_SCRIPT_SIZE then Inl (Fail SCRIPT_ERR_SCRIPT_SIZE)
      else case eval_loop env script \<lparr>stack = s, altstack = [], vfExec = [], nOpCount = 0\<rparr> script of
        Inl Throw \<Rightarrow> Inl (Fail SCRIPT_ERR_UNKNOWN_ERROR)
      | Inl e \<Rightarrow> Inl e
      | Inr st \<Rightarrow> if vfExec st \<noteq> [] then Inl (Fail SCRIPT_ERR_UNBALANCED_CONDITIONAL) else Inr (stack st))"

definition eval_true :: "bytes list \<Rightarrow> script_exit + unit" where
  "eval_true s = (if s = [] then Inl (Fail SCRIPT_ERR_EVAL_FALSE)
     else if \<not> CastToBool (hd s) then Inl (Fail SCRIPT_ERR_EVAL_FALSE) else Inr ())"

definition VerifyScript :: "eval_env \<Rightarrow> CScript \<Rightarrow> CScript \<Rightarrow> script_exit + unit" where
  "VerifyScript env scriptSig scriptPubKey =
     (if flag env SCRIPT_VERIFY_SIGPUSHONLY \<and> \<not> IsPushOnly scriptSig then Inl (Fail SCRIPT_ERR_SIG_PUSHONLY)
      else and_then (EvalScript env [] scriptSig) (\<lambda>stackCopy.
      and_then (EvalScript env stackCopy scriptPubKey) (\<lambda>s.
      and_then (eval_true s) (\<lambda>_.
      and_then
        (if flag env SCRIPT_VERIFY_P2SH \<and> IsPayToScriptHash scriptPubKey then
           if \<not> IsPushOnly scriptSig then Inl (Fail SCRIPT_ERR_SIG_PUSHONLY)
           else if stackCopy = [] then Inl Abort
           else let pubKey2 = hd stackCopy
             in and_then (EvalScript env (tl stackCopy) pubKey2) (\<lambda>s.
                and_then (eval_true s) (\<lambda>_. Inr s))
         else Inr s) (\<lambda>s.
      if flag env SCRIPT_VERIFY_CLEANSTACK then
        if \<not> flag env SCRIPT_VERIFY_P2SH then Inl Abort
        else if length s \<noteq> 1 then Inl (Fail SCRIPT_ERR_CLEANSTACK) else Inr ()
      else Inr ())))))"

end
