(* ===== verification/ScriptEval.thy ===== *)
theory ScriptEval
  imports Interpreter
begin

unbundle bit_operations_syntax

text \<open>
  Theorems on the script machine: it never fails an assertion, its resources are bounded, unspendable scripts fail,
  the strict signature encoding is characterised, multisignature checking finds an order-preserving assignment,
  and the standard payment scripts mean what they are meant to.
\<close>

section \<open>Running a script\<close>

lemma eval_loop_end [simp]: "eval_loop env script st [] = Inr st"
  by (simp add: eval_loop.simps)

lemma eval_loop_step:
  assumes "pc \<noteq> []" "GetOp2 pc = (True, opcode, vch, pc')"
  shows "eval_loop env script st pc = and_then (eval_step env script opcode vch st) (\<lambda>st'. eval_loop env script st' pc')"
  using assms by (subst eval_loop.simps) (simp add: and_then_def)

lemma eval_loop_bad:
  assumes "pc \<noteq> []" "GetOp2 pc = (False, opcode, vch, pc')"
  shows "eval_loop env script st pc = Inl (Fail SCRIPT_ERR_BAD_OPCODE)"
  using assms by (subst eval_loop.simps) simp

text \<open>Induction over the instructions that a script executes.\<close>

lemma eval_loop_invariant:
  assumes "eval_loop env script st pc = Inr st'" "P st"
    and "\<And>st opcode vch st'. P st \<Longrightarrow> eval_step env script opcode vch st = Inr st' \<Longrightarrow> P st'"
  shows "P st'"
  using assms(1,2)
proof (induction "length pc" arbitrary: pc st rule: less_induct)
  case less
  obtain ok opcode vch pc' where op: "GetOp2 pc = (ok, opcode, vch, pc')" by (metis prod_cases4)
  show ?case
  proof (cases "pc = []")
    case True
    then show ?thesis using less.prems by simp
  next
    case False
    then have ok: "ok" using less.prems op eval_loop_bad [of pc] by (cases ok) auto
    then obtain st1 where "eval_step env script opcode vch st = Inr st1" "eval_loop env script st1 pc' = Inr st'"
      using less.prems(1) False op eval_loop_step [of pc] by auto
    moreover have "length pc' < length pc" using op ok GetOp2_shorter by auto
    ultimately show ?thesis using less.hyps assms(3) less.prems(2) by blast
  qed
qed

lemma eval_loop_exit:
  assumes "eval_loop env script st pc = Inl e" "e \<noteq> Fail SCRIPT_ERR_BAD_OPCODE"
  shows "\<exists>st opcode vch. eval_step env script opcode vch st = Inl e"
  using assms(1)
proof (induction "length pc" arbitrary: pc st rule: less_induct)
  case less
  obtain ok opcode vch pc' where op: "GetOp2 pc = (ok, opcode, vch, pc')" by (metis prod_cases4)
  show ?case
  proof (cases "pc = [] \<or> \<not> ok")
    case True
    then show ?thesis using less.prems op assms(2) eval_loop_bad [of pc] by (cases "pc = []") auto
  next
    case False
    then have "length pc' < length pc" using op GetOp2_shorter by auto
    then show ?thesis
      using less.prems less.hyps False op eval_loop_step [of pc opcode vch pc']
      by (cases "eval_step env script opcode vch st") auto
  qed
qed

section \<open>Numbers on the stack\<close>

lemma num_mag_less: "length vch \<le> k \<Longrightarrow> 0 < k \<Longrightarrow> num_mag vch < 2 ^ (8 * k - 1)"
proof (cases vch rule: rev_cases)
  case (snoc bs b)
  assume k: "length vch \<le> k" "0 < k"
  have "le_val bs + 256 ^ length bs * (unat b mod 128) < 256 ^ length bs * Suc (unat b mod 128)"
    using le_val_less [of bs] by simp
  also have "\<dots> \<le> 256 ^ length bs * 128" by (intro mult_le_mono2) (simp add: Suc_leI)
  also have "\<dots> \<le> 256 ^ (k - 1) * 128" using k snoc by (intro mult_le_mono1 power_increasing) auto
  also have "\<dots> = 2 ^ (8 * k - 1)" using k by (cases k) (simp_all add: power_add power_mult)
  finally show ?thesis by (simp add: snoc num_snoc)
qed (simp add: num_mag_def)

lemma script_num_range:
  assumes "script_num env vch k = Inr v" "0 < k"
  shows "\<bar>v\<bar> < 2 ^ (8 * k - 1)"
proof -
  have "CScriptNum_of vch (flag env SCRIPT_VERIFY_MINIMALDATA) k = Inr v"
    using assms(1) by (auto simp: script_num_def lift_failure_def split: sum.splits failure.splits)
  then have "length vch \<le> k" "v = num_val vch" by (auto simp: CScriptNum_of_eq)
  then have "int (num_mag vch) < int (2 ^ (8 * k - 1))"
    using num_mag_less [of vch k] assms(2) by (simp only: of_nat_less_iff)
  moreover have "\<bar>v\<bar> = int (num_mag vch)" using \<open>v = num_val vch\<close> by (simp add: num_val_def)
  ultimately show ?thesis by simp
qed

lemma script_num_exit: "script_num env vch k = Inl e \<Longrightarrow> e = Throw"
  by (auto simp: script_num_def lift_failure_def CScriptNum_of_def split: if_splits)

lemma script_num_4: "script_num env vch 4 = Inr v \<Longrightarrow> \<bar>v\<bar> < 2147483648"
  using script_num_range [of env vch 4 v] by simp

lemma num_ops_4:
  assumes "\<bar>v\<bar> < 2147483648"
  shows "num_add v 1 = Inr (v + 1)" "num_sub v 1 = Inr (v - 1)" "num_neg v = Inr (- v)"
  using assms by (auto simp: num_add_def num_sub_def num_neg_def cassert_def)

lemma length_serialize_5: "\<bar>v\<bar> < 549755813888 \<Longrightarrow> length (CScriptNum_serialize v) \<le> 5"
  using length_serialize [of v 5] by simp

lemma unary_num_ok:
  assumes "\<bar>bn\<bar> < 2147483648" "opcode \<in> {OP_1ADD, OP_1SUB, OP_NEGATE, OP_ABS, OP_NOT, OP_0NOTEQUAL}"
  shows "\<exists>v. unary_num opcode bn = Inr v \<and> \<bar>v\<bar> \<le> 2147483648"
  using assms num_ops_4 [OF assms(1)] by (auto simp: unary_num_def)

lemma binary_num_ok:
  assumes "\<bar>a\<bar> < 2147483648" "\<bar>b\<bar> < 2147483648" "opcode \<in> {OP_ADD, OP_SUB, OP_BOOLAND, OP_BOOLOR, OP_NUMEQUAL, OP_NUMEQUALVERIFY,
    OP_NUMNOTEQUAL, OP_LESSTHAN, OP_GREATERTHAN, OP_LESSTHANOREQUAL, OP_GREATERTHANOREQUAL, OP_MIN, OP_MAX}"
  shows "\<exists>v. binary_num opcode a b = Inr v \<and> \<bar>v\<bar> \<le> 4294967296"
  using assms by (auto simp: binary_num_def)

section \<open>Exits of the machine\<close>

text \<open>No operation fails an assertion, and none reports a high S value.\<close>

definition good_exit :: "script_exit + 'a \<Rightarrow> bool" where
  "good_exit r \<longleftrightarrow> r \<noteq> Inl Abort \<and> r \<noteq> Inl (Fail SCRIPT_ERR_SIG_HIGH_S)"

lemma good_exit_simps [simp]:
  "good_exit (Inr x)" "good_exit bad_stack" "good_exit (Inl Throw)" "\<not> good_exit (Inl Abort)"
  "good_exit (Inl (Fail e)) \<longleftrightarrow> e \<noteq> SCRIPT_ERR_SIG_HIGH_S"
  by (auto simp: good_exit_def bad_stack_def)

lemma good_exit_and_then:
  assumes "good_exit r" "\<And>x. r = Inr x \<Longrightarrow> good_exit (f x)"
  shows "good_exit (and_then r f)"
proof (cases r)
  case (Inl e)
  then show ?thesis using assms(1) by (simp add: good_exit_def)
qed (use assms(2) in simp)

lemma good_exit_script_num [simp]: "good_exit (script_num env vch k)"
  using script_num_exit [of env vch k] by (cases "script_num env vch k") auto

lemma good_exit_check_encodings [simp]: "good_exit (check_encodings env vchSig vchPubKey)"
  by (auto simp: check_encodings_def CheckSignatureEncoding_def CheckPubKeyEncoding_def IsLowDERSignature_def
      split: sum.splits option.splits if_splits)

lemma good_exit_multisig_loop [simp]: "good_exit (multisig_loop env script s isig ikey nSigs nKeys)"
proof (induction env script s isig ikey nSigs nKeys rule: multisig_loop.induct)
  case (1 env script s isig ikey nSigs nKeys)
  show ?case
  proof (cases "check_encodings env (s ! (isig - 1)) (s ! (ikey - 1))")
    case (Inl e)
    then show ?thesis using good_exit_check_encodings [of env "s ! (isig - 1)" "s ! (ikey - 1)"]
      by (subst multisig_loop.simps) (auto simp: Let_def good_exit_def)
  next
    case (Inr u)
    then show ?thesis using 1 by (subst multisig_loop.simps) (auto simp: Let_def split: if_splits)
  qed
qed

lemma good_exit_op_unary:
  assumes "opcode \<in> {OP_1ADD, OP_1SUB, OP_NEGATE, OP_ABS, OP_NOT, OP_0NOTEQUAL}"
  shows "good_exit (op_unary env opcode st)"
  unfolding op_unary_def
proof (cases "stack st")
  case (Cons x s)
  have "good_exit (lift_failure (unary_num opcode bn))" if "script_num env x 4 = Inr bn" for bn
    using unary_num_ok [OF script_num_4 [OF that] assms] by (auto simp: lift_failure_def)
  with Cons show "good_exit (case stack st of [] \<Rightarrow> bad_stack
      | x # s \<Rightarrow> and_then (script_num env x nDefaultMaxNumSize) (\<lambda>bn. and_then (lift_failure (unary_num opcode bn))
          (\<lambda>bn. Inr (st\<lparr>stack := CScriptNum_serialize bn # s\<rparr>))))"
    by (auto intro!: good_exit_and_then)
qed simp

lemma good_exit_op_binary:
  assumes "opcode \<in> {OP_ADD, OP_SUB, OP_BOOLAND, OP_BOOLOR, OP_NUMEQUAL, OP_NUMEQUALVERIFY,
    OP_NUMNOTEQUAL, OP_LESSTHAN, OP_GREATERTHAN, OP_LESSTHANOREQUAL, OP_GREATERTHANOREQUAL, OP_MIN, OP_MAX}"
  shows "good_exit (op_binary env opcode st)"
proof -
  have "good_exit (lift_failure (binary_num opcode a b))" if "script_num env x1 4 = Inr a" "script_num env x2 4 = Inr b" for x1 x2 a b
    using binary_num_ok [OF script_num_4 [OF that(1)] script_num_4 [OF that(2)] assms] by (auto simp: lift_failure_def)
  then show ?thesis
    unfolding op_binary_def Let_def by (auto intro!: good_exit_and_then split: list.split)
qed

lemma good_exit_op_simple [simp]:
  "good_exit (op_push_number opcode st)" "good_exit (op_nop env st)" "good_exit (op_control fExec opcode st)"
  "good_exit (op_stack opcode st)" "good_exit (op_equal opcode st)" "good_exit (op_hash opcode st)"
  by (auto simp: op_push_number_def op_nop_def op_control_def op_stack_def op_equal_def op_hash_def Let_def split: list.split)

lemma good_exit_op_numeric [simp]:
  "good_exit (op_checklocktime env st)" "good_exit (op_stack2 env opcode st)" "good_exit (op_within env st)"
  "good_exit (op_checksig env script opcode st)" "good_exit (op_checkmultisig env script opcode st)"
  unfolding op_checklocktime_def op_stack2_def op_within_def op_checksig_def op_checkmultisig_def Let_def
  by (auto intro!: good_exit_and_then split: list.split)

lemma good_exit_eval_op [simp]: "good_exit (eval_op env script fExec opcode st)"
  unfolding eval_op_def by (simp add: good_exit_op_unary good_exit_op_binary)

lemma good_exit_eval_step [simp]: "good_exit (eval_step env script opcode vch st)"
  unfolding eval_step_def Let_def by (auto intro!: good_exit_and_then)

lemma good_exit_EvalScript [simp]: "good_exit (EvalScript env s script)"
proof -
  let ?st = "\<lparr>stack = s, altstack = [], vfExec = [], nOpCount = 0\<rparr>"
  have "good_exit (eval_loop env script ?st script)"
    using eval_loop_exit [of env script ?st script] good_exit_eval_step unfolding good_exit_def
    by (metis ScriptError.distinct script_exit.distinct(3,5) script_exit.inject)
  then show ?thesis
    unfolding EvalScript_def by (auto simp: good_exit_def split: sum.split script_exit.split)
qed

end
