(* ===== verification/ScriptRuns.thy ===== *)
theory ScriptRuns
  imports ScriptEval "HOL-Library.Sublist"
begin

unbundle bit_operations_syntax

text \<open>
  The script machine as a transition system, the bounds that hold in every configuration it reaches, and what its checks decide: the
  strict DER grammar of signatures and the matching of signatures with keys in \<open>OP_CHECKMULTISIG\<close>.
\<close>

section \<open>Single instructions\<close>

lemma GetOp2_op: "78 < unat b \<Longrightarrow> GetOp2 (b # pc) = (True, unat b, [], pc)"
  by (simp add: GetOp2_def)

lemma eval_loop_op:
  "78 < unat b \<Longrightarrow> eval_loop env script st (b # pc) = and_then (eval_step env script (unat b) [] st) (\<lambda>st'. eval_loop env script st' pc)"
  by (simp add: eval_loop_step [OF _ GetOp2_op])

lemma IsPayToScriptHash_cases:
  assumes "IsPayToScriptHash s"
  obtains h where "s = 0xa9 # 0x14 # h @ [0x87]" "length h = 20"
proof -
  have s: "length s = 23" "s ! 0 = 0xa9" "s ! 1 = 0x14" "s ! 22 = 0x87" using assms by (auto simp: IsPayToScriptHash_def)
  then obtain a b r where r: "s = a # b # r" "length r = 21" by (auto simp: numeral_eq_Suc length_Suc_conv)
  then obtain h c where h: "r = h @ [c]" "length h = 20" by (cases r rule: rev_cases) auto
  have "a = 0xa9" "b = 0x14" "c = 0x87" using s r h by (auto simp: nth_append numeral_eq_Suc)
  then show ?thesis using r h that by simp
qed

lemma p2sh_empty_stack:
  assumes "IsPayToScriptHash s"
  shows "EvalScript env [] s = Inl (Fail SCRIPT_ERR_INVALID_STACK_OPERATION)"
proof -
  obtain h where h: "s = 0xa9 # 0x14 # h @ [0x87]" "length h = 20" using IsPayToScriptHash_cases [OF assms] .
  have "eval_step env s 0xa9 [] \<lparr>stack = [], altstack = [], vfExec = [], nOpCount = 0\<rparr> = Inl (Fail SCRIPT_ERR_INVALID_STACK_OPERATION)"
    by (simp add: eval_step_def disabled_opcode_def eval_op_def op_hash_def bad_stack_def)
  then have "eval_loop env s \<lparr>stack = [], altstack = [], vfExec = [], nOpCount = 0\<rparr> s = Inl (Fail SCRIPT_ERR_INVALID_STACK_OPERATION)"
    by (simp add: h eval_loop_op)
  then show ?thesis using h by (simp add: EvalScript_def)
qed

lemma VerifyScript_abort:
  assumes "VerifyScript env scriptSig scriptPubKey = Inl Abort"
  shows "flag env SCRIPT_VERIFY_CLEANSTACK \<and> \<not> flag env SCRIPT_VERIFY_P2SH"
proof (rule ccontr)
  assume flags: "\<not> (flag env SCRIPT_VERIFY_CLEANSTACK \<and> \<not> flag env SCRIPT_VERIFY_P2SH)"
  have ev: "good_exit (eval_true s)" for s by (simp add: eval_true_def)
  have "stackCopy \<noteq> []" if "EvalScript env stackCopy scriptPubKey = Inr s" "IsPayToScriptHash scriptPubKey" for stackCopy s
    using that p2sh_empty_stack by auto
  then have "good_exit (VerifyScript env scriptSig scriptPubKey)"
    using flags ev unfolding VerifyScript_def Let_def by (auto intro!: good_exit_and_then)
  then show False using assms by simp
qed

lemma and_then_exit: "r \<noteq> Inl e \<Longrightarrow> (\<And>x. r = Inr x \<Longrightarrow> f x \<noteq> Inl e) \<Longrightarrow> and_then r f \<noteq> Inl e"
  by (cases r) auto

lemma if_exit: "(c \<Longrightarrow> a \<noteq> Inl e) \<Longrightarrow> (\<not> c \<Longrightarrow> b \<noteq> Inl e) \<Longrightarrow> (if c then a else b) \<noteq> Inl e"
  by simp

lemma VerifyScript_exits:
  assumes "\<And>s script. EvalScript env s script \<noteq> Inl e"
    and "e \<notin> Fail ` {SCRIPT_ERR_EVAL_FALSE, SCRIPT_ERR_SIG_PUSHONLY, SCRIPT_ERR_CLEANSTACK}" "e \<noteq> Abort"
  shows "VerifyScript env scriptSig scriptPubKey \<noteq> Inl e"
proof -
  have "eval_true s \<noteq> Inl e" for s using assms(2) by (auto simp: eval_true_def)
  then show ?thesis
    unfolding VerifyScript_def Let_def using assms
    by (intro and_then_exit if_exit) auto
qed

section \<open>Resources\<close>

definition small_items :: "bytes list \<Rightarrow> bool" where
  "small_items s \<longleftrightarrow> (\<forall>x \<in> set s. length x \<le> MAX_SCRIPT_ELEMENT_SIZE)"

definition bounded :: "script_state \<Rightarrow> bool" where
  "bounded st \<longleftrightarrow> small_items (stack st) \<and> small_items (altstack st) \<and> length (stack st) + length (altstack st) \<le> 1000 \<and>
     nOpCount st \<le> 201"

lemma small_items_simps [simp]:
  "small_items []" "small_items (x # s) \<longleftrightarrow> length x \<le> 520 \<and> small_items s" "small_items (s @ t) \<longleftrightarrow> small_items s \<and> small_items t"
  "length (vch_bool b) \<le> 520"
  by (auto simp: small_items_def vch_bool_def)

lemma small_items_sub [intro]: "small_items s \<Longrightarrow> set t \<subseteq> set s \<Longrightarrow> small_items t"
  by (auto simp: small_items_def)

lemma small_items_take_drop: "small_items s \<Longrightarrow> small_items (take n s)" "small_items s \<Longrightarrow> small_items (drop n s)"
  by (meson set_take_subset set_drop_subset small_items_sub)+

lemma small_items_nth: "small_items s \<Longrightarrow> n < length s \<Longrightarrow> length (s ! n) \<le> 520"
  by (auto simp: small_items_def)

lemma length_digests:
  "length (CRIPEMD160_Finalize (CRIPEMD160_Write CRIPEMD160 v)) = 20" "length (CSHA1_Finalize (CSHA1_Write CSHA1 v)) = 20"
  "length (CSHA256_Finalize (CSHA256_Write CSHA256 v)) = 32" "length (CHash160_Finalize (CHash160_Write CHash160 v)) = 20"
  "length (CHash256_Finalize (CHash256_Write CHash256 v)) = 32"
  by (simp_all add: rmd.finalize_write rmd.length_digest sha1.finalize_write sha1.length_digest sha256.finalize_write
      sha256.length_digest hash160.finalize_write hash256.finalize_write)

lemma length_small_num: "\<bar>v\<bar> \<le> 4294967296 \<Longrightarrow> length (CScriptNum_serialize v) \<le> 520"
  using length_serialize_5 [of v] by simp

definition keeps_small :: "script_state \<Rightarrow> script_exit + script_state \<Rightarrow> bool" where
  "keeps_small st r \<longleftrightarrow> (bounded st \<longrightarrow> (\<forall>st'. r = Inr st' \<longrightarrow> small_items (stack st') \<and> small_items (altstack st') \<and> nOpCount st' \<le> 201))"

lemma keeps_small_Inl [simp]: "keeps_small st (Inl e)" "keeps_small st bad_stack"
  by (auto simp: keeps_small_def bad_stack_def)

lemma keeps_small_Inr: "keeps_small st (Inr st') \<longleftrightarrow> (bounded st \<longrightarrow> small_items (stack st') \<and> small_items (altstack st') \<and> nOpCount st' \<le> 201)"
  by (auto simp: keeps_small_def)

lemma keeps_small_and_then: "(\<And>x. r = Inr x \<Longrightarrow> keeps_small st (f x)) \<Longrightarrow> keeps_small st (and_then r f)"
  by (cases r) auto

lemma keeps_small_if: "(c \<Longrightarrow> keeps_small st a) \<Longrightarrow> (\<not> c \<Longrightarrow> keeps_small st b) \<Longrightarrow> keeps_small st (if c then a else b)"
  by simp

lemmas keeps_small_cases = keeps_small_Inr bounded_def Let_def

lemma keeps_small_op_push_number: "opcode \<le> OP_16 \<Longrightarrow> keeps_small st (op_push_number opcode st)"
  unfolding op_push_number_def keeps_small_cases by (auto intro!: length_small_num)

lemma keeps_small_op_nop: "keeps_small st (op_nop env st)"
  by (simp add: op_nop_def keeps_small_cases)

lemma keeps_small_op_control: "keeps_small st (op_control fExec opcode st)"
  by (simp add: op_control_def keeps_small_cases split: list.split)

lemma keeps_small_op_equal: "keeps_small st (op_equal opcode st)"
  by (simp add: op_equal_def keeps_small_cases split: list.split)

lemma keeps_small_op_hash: "keeps_small st (op_hash opcode st)"
  by (simp add: op_hash_def keeps_small_cases length_digests split: list.split)

lemma keeps_small_op_checklocktime: "keeps_small st (op_checklocktime env st)"
  unfolding op_checklocktime_def by (auto simp: keeps_small_cases intro!: keeps_small_and_then split: list.split)

lemma keeps_small_op_within: "keeps_small st (op_within env st)"
  unfolding op_within_def by (auto simp: keeps_small_cases intro!: keeps_small_and_then split: list.split)

lemma keeps_small_op_checksig: "keeps_small st (op_checksig env script opcode st)"
  unfolding op_checksig_def by (auto simp: keeps_small_cases intro!: keeps_small_and_then split: list.split)

lemmas keeps_small_op_simple = keeps_small_op_push_number keeps_small_op_nop keeps_small_op_control keeps_small_op_equal
  keeps_small_op_hash keeps_small_op_checklocktime keeps_small_op_within keeps_small_op_checksig

lemma length_num_nat: "n \<le> 1000 \<Longrightarrow> length (CScriptNum_serialize (int n)) \<le> 520"
  by (rule length_small_num) simp

lemma keeps_small_op_stack: "keeps_small st (op_stack opcode st)"
  unfolding op_stack_def by (simp add: keeps_small_cases length_num_nat split: list.split)

lemma keeps_small_op_stack2: "keeps_small st (op_stack2 env opcode st)"
  unfolding op_stack2_def
  by (auto simp: keeps_small_cases length_num_nat nth_append not_less
      intro!: keeps_small_and_then small_items_take_drop small_items_nth split: list.split)

lemma keeps_small_op_unary:
  assumes "opcode \<in> {OP_1ADD, OP_1SUB, OP_NEGATE, OP_ABS, OP_NOT, OP_0NOTEQUAL}"
  shows "keeps_small st (op_unary env opcode st)"
proof -
  have "length (CScriptNum_serialize v) \<le> 520" if "script_num env x 4 = Inr bn" "lift_failure (unary_num opcode bn) = Inr v" for x bn v
    using unary_num_ok [OF script_num_4 [OF that(1)] assms] that(2)
    by (intro length_small_num) (auto simp: lift_failure_def)
  then show ?thesis by (auto simp: keeps_small_def op_unary_def bounded_def bad_stack_def split: list.splits)
qed

lemma keeps_small_op_binary:
  assumes "opcode \<in> {OP_ADD, OP_SUB, OP_BOOLAND, OP_BOOLOR, OP_NUMEQUAL, OP_NUMEQUALVERIFY,
    OP_NUMNOTEQUAL, OP_LESSTHAN, OP_GREATERTHAN, OP_LESSTHANOREQUAL, OP_GREATERTHANOREQUAL, OP_MIN, OP_MAX}"
  shows "keeps_small st (op_binary env opcode st)"
proof -
  have "length (CScriptNum_serialize v) \<le> 520"
    if "script_num env x1 4 = Inr a" "script_num env x2 4 = Inr b" "lift_failure (binary_num opcode a b) = Inr v" for x1 x2 a b v
    using binary_num_ok [OF script_num_4 [OF that(1)] script_num_4 [OF that(2)] assms] that(3)
    by (intro length_small_num) (auto simp: lift_failure_def)
  then show ?thesis
    by (auto simp: keeps_small_def op_binary_def bounded_def bad_stack_def Let_def split: list.splits if_splits)
qed

lemma keeps_small_op_checkmultisig: "keeps_small st (op_checkmultisig env script opcode st)"
  unfolding op_checkmultisig_def Let_def
  by (intro keeps_small_and_then keeps_small_if keeps_small_Inl keeps_small_Inr [THEN iffD2])
    (simp_all add: bounded_def small_items_take_drop)

lemma keeps_small_eval_op: "keeps_small st (eval_op env script fExec opcode st)"
proof -
  have *: "keeps_small st (Inr st)" "keeps_small st (Inl e)" for e by (auto simp: keeps_small_def bounded_def)
  show ?thesis
    unfolding eval_op_def
    by (simp add: * keeps_small_op_simple keeps_small_op_stack keeps_small_op_stack2 keeps_small_op_unary keeps_small_op_binary
        keeps_small_op_checkmultisig)
qed

lemma eval_step_bounded:
  assumes "bounded st" "eval_step env script opcode vch st = Inr st'"
  shows "bounded st'"
proof -
  define st1 where "st1 = (if opcode > OP_16 then st\<lparr>nOpCount := nOpCount st + 1\<rparr> else st)"
  have step: "length vch \<le> 520" "bounded st1" and r: "and_then
       (if False \<notin> set (vfExec st) \<and> opcode \<le> OP_PUSHDATA4 then
          if flag env SCRIPT_VERIFY_MINIMALDATA \<and> \<not> CheckMinimalPush vch opcode then Inl (Fail SCRIPT_ERR_MINIMALDATA)
          else Inr (st1\<lparr>stack := vch # stack st1\<rparr>)
        else if False \<notin> set (vfExec st) \<or> (OP_IF \<le> opcode \<and> opcode \<le> OP_ENDIF)
          then eval_op env script (False \<notin> set (vfExec st)) opcode st1
        else Inr st1)
       (\<lambda>st. if length (stack st) + length (altstack st) > 1000 then Inl (Fail SCRIPT_ERR_STACK_SIZE) else Inr st) = Inr st'"
    using assms unfolding eval_step_def Let_def st1_def [symmetric]
    by (auto simp: bounded_def st1_def split: if_splits)
  have "keeps_small st1 (if False \<notin> set (vfExec st) \<and> opcode \<le> OP_PUSHDATA4 then
          if flag env SCRIPT_VERIFY_MINIMALDATA \<and> \<not> CheckMinimalPush vch opcode then Inl (Fail SCRIPT_ERR_MINIMALDATA)
          else Inr (st1\<lparr>stack := vch # stack st1\<rparr>)
        else if False \<notin> set (vfExec st) \<or> (OP_IF \<le> opcode \<and> opcode \<le> OP_ENDIF)
          then eval_op env script (False \<notin> set (vfExec st)) opcode st1
        else Inr st1)" (is "keeps_small _ ?r")
    using step(1) by (intro keeps_small_if keeps_small_Inl keeps_small_eval_op) (simp_all add: keeps_small_Inr bounded_def)
  with step(2) r show ?thesis
    by (cases ?r) (auto simp: keeps_small_def bounded_def split: if_splits)
qed

text \<open>
  The machine as a transition system: a configuration is the state together with the rest of the script, and one step is one turn
  of the loop. \<open>eval_loop\<close> returns exactly the state in which the script is used up.
\<close>

inductive script_runs :: "eval_env \<Rightarrow> CScript \<Rightarrow> script_state \<times> bytes \<Rightarrow> script_state \<times> bytes \<Rightarrow> bool"
  for env script where
  stop: "script_runs env script c c"
| step: "\<lbrakk>pc \<noteq> []; GetOp2 pc = (True, opcode, vch, pc'); eval_step env script opcode vch st = Inr st';
    script_runs env script (st', pc') c\<rbrakk> \<Longrightarrow> script_runs env script (st, pc) c"

lemma script_runs_bounded:
  assumes "script_runs env script c c'" "bounded (fst c)"
  shows "bounded (fst c')"
  using assms by induction (auto intro: eval_step_bounded)

lemma script_runs_eval_loop:
  assumes "script_runs env script c c'"
  shows "eval_loop env script (fst c) (snd c) = eval_loop env script (fst c') (snd c')"
  using assms by induction (auto simp: eval_loop_step)

lemma eval_loop_runs:
  "eval_loop env script st pc = Inr st' \<longleftrightarrow> script_runs env script (st, pc) (st', [])"
proof
  show "eval_loop env script st pc = Inr st' \<Longrightarrow> script_runs env script (st, pc) (st', [])"
  proof (induction env script st pc rule: eval_loop.induct)
    case (1 env script st pc)
    obtain ok opcode vch pc' where op: "GetOp2 pc = (ok, opcode, vch, pc')" by (cases "GetOp2 pc")
    show ?case
    proof (cases "pc = []")
      case True
      then show ?thesis using 1(2) by (simp add: eval_loop.simps script_runs.stop)
    next
      case False
      then have ok using 1(2) op by (subst (asm) eval_loop.simps) (auto split: if_splits)
      then show ?thesis
        using 1 op False by (cases "eval_step env script opcode vch st") (auto simp: eval_loop_step intro: script_runs.step)
    qed
  qed
  show "script_runs env script (st, pc) (st', []) \<Longrightarrow> eval_loop env script st pc = Inr st'"
    using script_runs_eval_loop by (fastforce simp: eval_loop.simps [of env script st' "[]"])
qed

abbreviation (input) initial_state :: "bytes list \<Rightarrow> script_state" where
  "initial_state s \<equiv> \<lparr>stack = s, altstack = [], vfExec = [], nOpCount = 0\<rparr>"

lemma EvalScript_runs:
  "EvalScript env s script = Inr s' \<longleftrightarrow> length script \<le> MAX_SCRIPT_SIZE \<and>
     (\<exists>st. script_runs env script (initial_state s, script) (st, []) \<and> vfExec st = [] \<and> stack st = s')"
  unfolding EvalScript_def by (auto simp flip: eval_loop_runs split: sum.splits script_exit.splits)

lemma EvalScript_unspendable:
  assumes "IsUnspendable script"
  shows "EvalScript env s script = Inl (Fail (if length script > MAX_SCRIPT_SIZE then SCRIPT_ERR_SCRIPT_SIZE else SCRIPT_ERR_OP_RETURN))"
proof (cases "length script > MAX_SCRIPT_SIZE")
  case True
  then show ?thesis by (simp add: EvalScript_def)
next
  case False
  then obtain pc where pc: "script = 0x6a # pc" using assms by (cases script) (auto simp: IsUnspendable_def)
  have "eval_step env script 0x6a [] (initial_state s) = Inl (Fail SCRIPT_ERR_OP_RETURN)"
    by (simp add: eval_step_def disabled_opcode_def eval_op_def op_control_def)
  then show ?thesis using False pc by (simp add: EvalScript_def eval_loop_op)
qed

section \<open>Signatures\<close>

text \<open>A positive number in DER: bytes in big endian order, without a leading zero byte unless the next one has its top bit set.\<close>

definition der_number :: "bytes \<Rightarrow> bool" where
  "der_number v \<longleftrightarrow> v \<noteq> [] \<and> \<not> bit (v ! 0) 7 \<and> (1 < length v \<and> v ! 0 = 0 \<longrightarrow> bit (v ! 1) 7)"

definition der_signature :: "bytes \<Rightarrow> bytes \<Rightarrow> u8 \<Rightarrow> bytes" where
  "der_signature r s hashtype =
     [0x30, of_nat (4 + length r + length s), 0x02, of_nat (length r)] @ r @ [0x02, of_nat (length s)] @ s @ [hashtype]"

lemma top_bit_u8: "(b :: u8) AND 0x80 \<noteq> 0 \<longleftrightarrow> bit b 7"
  using and_exp_eq_0_iff_not_bit [of b 7] by simp

lemma der_signature_valid:
  assumes "der_number r" "der_number s" "length r + length s \<le> 66"
  shows "IsValidSignatureEncoding (der_signature r s h)"
proof -
  define sig where "sig = der_signature r s h"
  have "r \<noteq> []" "s \<noteq> []" using assms by (auto simp: der_number_def)
  then have ne: "r \<noteq> []" "s \<noteq> []" "\<not> length r + length s < 2" by (cases r; cases s; simp)+
  have len: "length sig = length r + length s + 7" by (simp add: sig_def der_signature_def)
  have n: "unat (of_nat (4 + length r + length s) :: u8) = 4 + length r + length s" "unat (of_nat (length r) :: u8) = length r"
    "unat (of_nat (length s) :: u8) = length s"
    using assms by (simp_all only: unat_of_nat) simp_all
  have "sig ! Suc 0 = of_nat (4 + length r + length s)" "sig ! 3 = of_nat (length r)" "sig ! (length r + 5) = of_nat (length s)"
    by (simp_all add: sig_def der_signature_def nth_append)
  then have lens: "unat (sig ! Suc 0) = 4 + (length r + length s)" "unat (sig ! 3) = length r" "unat (sig ! (length r + 5)) = length s"
    using n by simp_all
  have at: "sig ! 0 = 0x30" "sig ! 2 = 0x02" "sig ! (length r + 4) = 0x02"
    by (simp_all add: sig_def der_signature_def nth_append)
  have r: "sig ! (4 + i) = r ! i" if "i < length r" for i using that by (simp add: sig_def der_signature_def nth_append)
  have s: "sig ! (length r + 6 + i) = s ! i" if "i < length s" for i using that by (simp add: sig_def der_signature_def nth_append)
  show ?thesis
    unfolding sig_def [symmetric] IsValidSignatureEncoding_def Let_def top_bit_u8
    using assms ne r [of 0] r [of 1] s [of 0] s [of 1]
    by (auto simp: len at lens der_number_def add.commute [of _ "length r"])
qed

lemma valid_der_signature:
  assumes "IsValidSignatureEncoding sig"
  shows "\<exists>r s h. sig = der_signature r s h \<and> der_number r \<and> der_number s \<and> length r + length s \<le> 66"
proof -
  define R where "R = unat (sig ! 3)"
  define S where "S = unat (sig ! (5 + R))"
  have c: "9 \<le> length sig" "length sig \<le> 73" "sig ! 0 = 0x30" "unat (sig ! 1) = length sig - 3" "R + S + 7 = length sig"
    "sig ! 2 = 2" "R \<noteq> 0" "\<not> bit (sig ! 4) 7" "1 < R \<and> sig ! 4 = 0 \<longrightarrow> bit (sig ! 5) 7" "sig ! (R + 4) = 2" "S \<noteq> 0"
    "\<not> bit (sig ! (R + 6)) 7" "1 < S \<and> sig ! (R + 6) = 0 \<longrightarrow> bit (sig ! (R + 7)) 7"
    using assms unfolding IsValidSignatureEncoding_def Let_def top_bit_u8 R_def S_def by (auto split: if_splits)
  define r where "r = take R (drop 4 sig)"
  define s where "s = take S (drop (R + 6) sig)"
  have len: "length r = R" "length s = S" using c by (auto simp: r_def s_def)
  have unat_of: "b = of_nat (unat b)" for b :: u8 by simp
  have "unat (sig ! 1) = 4 + R + S" using c(4,5) by simp
  then have at: "sig ! 1 = of_nat (4 + R + S)" "sig ! 3 = of_nat R" "sig ! (5 + R) = of_nat S"
    unfolding R_def S_def by (metis unat_of)+
  have "sig = der_signature r s (sig ! (R + S + 6))"
  proof (rule nth_equalityI)
    show "length sig = length (der_signature r s (sig ! (R + S + 6)))" using c len by (simp add: der_signature_def)
    fix i assume "i < length sig"
    then consider "i < 4" | "4 \<le> i" "i < R + 4" | "i = R + 4" | "i = R + 5" | "R + 6 \<le> i" "i < R + S + 6" | "i = R + S + 6"
      using c(5) by linarith
    then show "sig ! i = der_signature r s (sig ! (R + S + 6)) ! i"
    proof cases
      case 1
      then have "i \<in> {0, 1, 2, 3}" by auto
      then show ?thesis using c(3,6) at len by (auto simp: der_signature_def)
    qed (use c at len in \<open>auto simp: der_signature_def nth_append nth_Cons' r_def s_def add.commute\<close>)
  qed
  moreover have "der_number r" "der_number s"
    using c len by (auto simp: der_number_def r_def s_def add.commute)
  moreover have "length r + length s \<le> 66" using c len by simp
  ultimately show ?thesis by blast
qed

section \<open>Multisignature checks\<close>

text \<open>Signatures match keys when every signature is valid for a key of its own, with the keys in the order of the signatures.\<close>

definition signatures_match :: "(bytes \<Rightarrow> bytes \<Rightarrow> bool) \<Rightarrow> bytes list \<Rightarrow> bytes list \<Rightarrow> bool" where
  "signatures_match P sigs keys \<longleftrightarrow> (\<exists>ks. subseq ks keys \<and> list_all2 P sigs ks)"

lemma signatures_match_simps:
  "signatures_match P [] keys" "\<not> signatures_match P (x # sigs) []"
  "signatures_match P (x # sigs) (k # keys) \<longleftrightarrow> (if P x k then signatures_match P sigs keys else signatures_match P (x # sigs) keys)"
proof -
  show "signatures_match P [] keys" by (auto simp: signatures_match_def)
  show "\<not> signatures_match P (x # sigs) []" by (auto simp: signatures_match_def list_all2_Cons1)
  have skip: "signatures_match P (x # sigs) keys \<Longrightarrow> signatures_match P sigs keys"
    by (auto simp: signatures_match_def list_all2_Cons1 dest: subseq_Cons')
  show "signatures_match P (x # sigs) (k # keys) \<longleftrightarrow> (if P x k then signatures_match P sigs keys else signatures_match P (x # sigs) keys)"
    (is "?l \<longleftrightarrow> ?r")
  proof
    assume ?l
    then obtain k' ks where ks: "subseq (k' # ks) (k # keys)" "P x k'" "list_all2 P sigs ks"
      by (auto simp: signatures_match_def list_all2_Cons1)
    then consider "k' = k" "subseq ks keys" | "subseq (k' # ks) keys" by (auto simp: subseq_Cons2_iff split: if_splits)
    then show ?r
    proof cases
      case 1
      then show ?thesis using ks by (auto simp: signatures_match_def)
    next
      case 2
      then have "signatures_match P (x # sigs) keys" using ks by (auto simp: signatures_match_def list_all2_Cons1)
      then show ?thesis using skip by simp
    qed
  next
    show "?r \<Longrightarrow> ?l"
      by (auto simp: signatures_match_def list_all2_Cons1 split: if_splits)
  qed
qed

lemma signatures_match_length: "length keys < length sigs \<Longrightarrow> \<not> signatures_match P sigs keys"
  by (auto simp: signatures_match_def dest!: list_emb_length list_all2_lengthD)

lemma multisig_loop_match:
  assumes "m \<le> n" "i + m \<le> length s" "j + n \<le> length s"
    "\<And>vchSig key. vchSig \<in> set (take m (drop i s)) \<Longrightarrow> key \<in> set (take n (drop j s)) \<Longrightarrow> check_encodings env vchSig key = Inr ()"
  shows "multisig_loop env script s (Suc i) (Suc j) m n =
    Inr (signatures_match (\<lambda>vchSig key. env_CheckSig env vchSig key script (env_branchId env)) (take m (drop i s)) (take n (drop j s)))"
  using assms
proof (induction n arbitrary: i j m)
  case 0
  then show ?case by (simp add: multisig_loop.simps signatures_match_simps)
next
  case (Suc n)
  show ?case
  proof (cases m)
    case 0
    then show ?thesis by (simp add: multisig_loop.simps signatures_match_simps)
  next
    case (Suc m')
    have take_Suc: "take (Suc l) (drop k s) = s ! k # take l (drop (Suc k) s)" if "k < length s" for k l
      using that by (simp flip: Cons_nth_drop_Suc)
    have sigs: "take m (drop i s) = s ! i # take m' (drop (Suc i) s)" using Suc.prems Suc take_Suc by simp
    have keys: "take (Suc n) (drop j s) = s ! j # take n (drop (Suc j) s)" using Suc.prems take_Suc by simp
    have enc: "check_encodings env (s ! i) (s ! j) = Inr ()" using Suc.prems(4) sigs keys by simp
    let ?P = "\<lambda>vchSig key. env_CheckSig env vchSig key script (env_branchId env)"
    show ?thesis
    proof (cases "?P (s ! i) (s ! j)")
      case True
      have "multisig_loop env script s (Suc (Suc i)) (Suc (Suc j)) m' n =
        Inr (signatures_match ?P (take m' (drop (Suc i) s)) (take n (drop (Suc j) s)))"
        using Suc.prems Suc sigs keys by (intro Suc.IH) auto
      then show ?thesis using True enc Suc Suc.prems(1)
        unfolding sigs keys by (subst multisig_loop.simps) (simp add: signatures_match_simps)
    next
      case False
      have less: "n < m \<Longrightarrow> \<not> signatures_match ?P (take m (drop i s)) (take n (drop (Suc j) s))"
        using Suc.prems by (intro signatures_match_length) simp
      have "multisig_loop env script s (Suc i) (Suc (Suc j)) m n =
        Inr (signatures_match ?P (take m (drop i s)) (take n (drop (Suc j) s)))" if "m \<le> n"
        using Suc.prems that keys by (intro Suc.IH) auto
      then show ?thesis using False enc Suc less
        unfolding sigs keys by (subst multisig_loop.simps) (auto simp: signatures_match_simps not_less)
    qed
  qed
qed

lemma subseq_rev: "subseq xs ys \<Longrightarrow> subseq (rev xs) (rev ys)"
  by (induction rule: list_emb.induct) (auto intro: subseq_rev_drop_many list_emb_append_mono)

lemma signatures_match_rev: "signatures_match P (rev sigs) (rev keys) \<longleftrightarrow> signatures_match P sigs keys"
proof -
  have "signatures_match P sigs keys \<Longrightarrow> signatures_match P (rev sigs) (rev keys)" for sigs keys
    unfolding signatures_match_def by (metis list_all2_rev subseq_rev)
  from this [of sigs keys] this [of "rev sigs" "rev keys"] show ?thesis by auto
qed

lemma script_num_serialize:
  assumes "\<bar>v\<bar> < 2147483648"
  shows "script_num env (CScriptNum_serialize v) 4 = Inr v"
proof -
  have "CScriptNum_of (CScriptNum_serialize v) (flag env SCRIPT_VERIFY_MINIMALDATA) 4 = Inr v"
    using assms length_serialize [of v 4] by (simp add: CScriptNum_of_eq num_val_serialize minimal_serialize)
  then show ?thesis by (simp add: script_num_def lift_failure_def)
qed

lemma getint_small: "\<bar>v\<bar> < 2147483648 \<Longrightarrow> getint v = v"
  by (auto simp: getint_def)

section \<open>Script signatures that only push\<close>

lemma GetSigOpCount_number: "unat k \<le> 16 \<or> k = 0x81 \<Longrightarrow> GetSigOpCount True [k] = Inr 0"
  by (auto simp: GetSigOpCount_def sigop_loop.simps GetOp2_def get_immediate_def sigop_weight_def Let_def)

lemma serialize_small:
  assumes "0 < n" "n < 128"
  shows "CScriptNum_serialize (int n) = [of_nat n]"
proof -
  have "serialize_loop n = [of_nat n]" using assms by (simp add: serialize_loop.simps)
  moreover have "of_nat n AND (0x80 :: u8) = 0" using assms u8_sign [of "of_nat n"] by auto
  ultimately show ?thesis using assms by (simp add: CScriptNum_serialize_def)
qed

lemma push_number_item:
  assumes "opcode = 79 \<or> (81 \<le> opcode \<and> opcode \<le> 96)"
  shows "\<exists>k. CScriptNum_serialize (int opcode - 80) = [k] \<and> GetSigOpCount True [k] = Inr 0"
proof (cases "opcode = 79")
  case True
  have "CScriptNum_serialize (-1) = [0x81]" by code_simp
  then show ?thesis using True GetSigOpCount_number by simp
next
  case False
  define n where "n = opcode - 80"
  have n: "int opcode - 80 = int n" "0 < n" "n \<le> 16" using assms False by (auto simp: n_def)
  then have "unat (of_nat n :: u8) \<le> 16" by simp
  then show ?thesis using n serialize_small [of n] GetSigOpCount_number [of "of_nat n"] by simp
qed

lemma eval_step_push:
  assumes "vfExec st = []" "opcode \<le> OP_16" "eval_step env script opcode vch st = Inr st'" "78 < opcode \<Longrightarrow> vch = []"
  shows "vfExec st' = [] \<and> (\<exists>x. stack st' = x # stack st \<and> GetSigOpCount True x = GetSigOpCount True vch)"
proof (cases "opcode \<le> 78")
  case True
  then show ?thesis using assms by (auto simp: eval_step_def Let_def split: if_splits)
next
  case False
  have "eval_op env script True 80 st = Inl (Fail SCRIPT_ERR_BAD_OPCODE)" by (simp add: eval_op_def)
  then have "opcode \<noteq> 80" using assms(1,3) by (auto simp: eval_step_def Let_def split: if_splits)
  then have op: "opcode = 79 \<or> (81 \<le> opcode \<and> opcode \<le> 96)" using False assms(2) by auto
  then have "eval_op env script True opcode st = op_push_number opcode st" by (simp add: eval_op_def)
  then have "st' = st\<lparr>stack := CScriptNum_serialize (int opcode - 80) # stack st\<rparr>"
    using assms(1-3) False by (auto simp: eval_step_def Let_def op_push_number_def split: if_splits)
  moreover have "vch = []" using False assms(4) by simp
  moreover have "GetSigOpCount True [] = Inr 0" by (simp add: GetSigOpCount_def sigop_loop.simps)
  ultimately show ?thesis using push_number_item [OF op] assms(1) by auto
qed

lemma push_only_eval:
  assumes "IsPushOnly pc" "pc \<noteq> []" "vfExec st = []" "eval_loop env script st pc = Inr st'"
  shows "\<exists>x s data'. stack st' = x # s \<and> last_push_loop data pc = Some data' \<and> GetSigOpCount True data' = GetSigOpCount True x"
  using assms
proof (induction data pc arbitrary: st rule: last_push_loop.induct)
  case (1 data pc)
  obtain ok opcode vch pc' where op: "GetOp2 pc = (ok, opcode, vch, pc')" by (cases "GetOp2 pc")
  have ok: ok "opcode \<le> 96" "IsPushOnly pc'"
    using 1(2,3) op by (subst (asm) IsPushOnly.simps, auto split: if_splits)+
  have vch: "78 < opcode \<Longrightarrow> vch = []" using op by (auto simp: GetOp2_def get_immediate_def Let_def split: list.splits if_splits)
  obtain st1 where st1: "eval_step env script opcode vch st = Inr st1" "eval_loop env script st1 pc' = Inr st'"
    using 1(3,5) op ok by (cases "eval_step env script opcode vch st") (auto simp: eval_loop_step)
  obtain x where x: "vfExec st1 = []" "stack st1 = x # stack st" "GetSigOpCount True x = GetSigOpCount True vch"
    using eval_step_push [OF 1(4) ok(2) st1(1) vch] by auto
  have last: "last_push_loop data pc = last_push_loop vch pc'"
    using 1(3) op ok by (subst last_push_loop.simps) simp
  show ?case
  proof (cases "pc' = []")
    case True
    then show ?thesis using st1 x last by (auto simp: last_push_loop.simps)
  next
    case False
    then show ?thesis using 1(1) [OF 1(3) op [symmetric] refl refl] ok x(1) st1(2) last by auto
  qed
qed

lemma EvalScript_push_only:
  assumes "IsPushOnly scriptSig" "EvalScript env [] scriptSig = Inr (x # s)"
  shows "\<exists>data. last_push_loop [] scriptSig = Some data \<and> GetSigOpCount True data = GetSigOpCount True x"
proof -
  obtain st where st: "eval_loop env scriptSig (initial_state []) scriptSig = Inr st" "stack st = x # s"
    using assms(2) unfolding EvalScript_runs by (auto simp: eval_loop_runs)
  then have "scriptSig \<noteq> []" by auto
  then show ?thesis using push_only_eval [OF assms(1) _ _ st(1), of "[]"] st(2) by auto
qed

section \<open>Pay to script hash\<close>

lemma eval_loop_push:
  assumes "length d \<le> 75"
  shows "eval_loop env script st (push_data [] d @ pc) = and_then (eval_step env script (length d) d st) (\<lambda>st'. eval_loop env script st' pc)"
  using assms by (subst eval_loop_step [OF _ GetOp2_push_data]) (simp_all add: push_op_def)

lemma eval_loop_push20:
  assumes "length h = 20"
  shows "eval_loop env script st (0x14 # h @ pc) = and_then (eval_step env script 20 h st) (\<lambda>st'. eval_loop env script st' pc)"
  using eval_loop_push [of h env script st pc] assms by (simp add: push_data_def)

lemma eval_step_ok:
  assumes "eval_step env script opcode vch st = Inr st'" "vfExec st = []"
  shows "length (stack st') + length (altstack st') \<le> 1000 \<and>
    (if opcode \<le> OP_PUSHDATA4 then st' = st\<lparr>stack := vch # stack st\<rparr>
     else eval_op env script True opcode (if opcode > OP_16 then st\<lparr>nOpCount := nOpCount st + 1\<rparr> else st) = Inr st')"
  using assms by (auto simp: eval_step_def Let_def split: if_splits)

lemma eval_step_op:
  assumes "vfExec st = []" "opcode > OP_16" "nOpCount st < 201" "\<not> disabled_opcode opcode"
    "eval_op env script True opcode (st\<lparr>nOpCount := nOpCount st + 1\<rparr>) = Inr st'" "length (stack st') + length (altstack st') \<le> 1000"
  shows "eval_step env script opcode [] st = Inr st'"
  using assms by (simp add: eval_step_def)

lemma eval_step_data:
  assumes "vfExec st = []" "2 \<le> length d" "length d \<le> 75" "length (stack st) + length (altstack st) < 1000"
  shows "eval_step env script (length d) d st = Inr (st\<lparr>stack := d # stack st\<rparr>)"
proof -
  have "CheckMinimalPush d (length d)" using assms(2,3) by (auto simp: CheckMinimalPush_def)
  moreover have "\<not> disabled_opcode (length d)" using assms(3) by (auto simp: disabled_opcode_def)
  ultimately show ?thesis using assms by (simp add: eval_step_def)
qed

lemma EvalScript_p2sh:
  assumes "length h = 20" "EvalScript env (x # s) (0xa9 # 0x14 # h @ [0x87]) = Inr s'"
  shows "s' = vch_bool (Hash160 x = h) # s"
proof -
  let ?script = "0xa9 # 0x14 # h @ [0x87]"
  obtain st where st: "eval_loop env ?script (initial_state (x # s)) ?script = Inr st" "stack st = s'"
    using assms(2) unfolding EvalScript_runs by (auto simp: eval_loop_runs)
  obtain st1 st2 where st1: "eval_step env ?script 0xa9 [] (initial_state (x # s)) = Inr st1"
    and st2: "eval_step env ?script 20 h st1 = Inr st2" and st3: "eval_step env ?script 0x87 [] st2 = Inr st"
    using st(1) by (auto simp: eval_loop_op eval_loop_push20 [OF assms(1)])
  have 1: "st1 = \<lparr>stack = Hash160 x # s, altstack = [], vfExec = [], nOpCount = 1\<rparr>"
    using eval_step_ok [OF st1] by (simp add: eval_op_def op_hash_def Hash160_def)
  have 2: "st2 = \<lparr>stack = h # Hash160 x # s, altstack = [], vfExec = [], nOpCount = 1\<rparr>"
    using eval_step_ok [OF st2] 1 by simp
  show ?thesis using eval_step_ok [OF st3] 2 st(2) by (auto simp: eval_op_def op_equal_def)
qed

lemma CastToBool_vch_bool [simp]: "CastToBool (vch_bool b) = b"
  by (simp add: vch_bool_def)

section \<open>Properties\<close>

lemma exits_only: "r \<noteq> Inl Throw \<Longrightarrow> r \<noteq> Inl Abort \<Longrightarrow> (\<exists>x. r = Inr x) \<or> (\<exists>e. r = Inl (Fail e))"
  by (cases r) (auto, metis script_exit.exhaust)

text \<open>C10: Running a script and checking an input never fails an assertion, whatever the scripts, the stack and the signature checker:
  evaluation returns a stack or reports an error, and verification succeeds or reports an error as long as a clean stack is only
  asked for together with the rules for script hashes. In particular the stack saved for the redeem script is not empty.\<close>

theorem script_verification_total:
  assumes "flag env SCRIPT_VERIFY_CLEANSTACK \<longrightarrow> flag env SCRIPT_VERIFY_P2SH"
  shows "((\<exists>s'. EvalScript env s script = Inr s') \<or> (\<exists>e. EvalScript env s script = Inl (Fail e))) \<and>
    (VerifyScript env scriptSig scriptPubKey = Inr () \<or> (\<exists>e. VerifyScript env scriptSig scriptPubKey = Inl (Fail e)))"
proof -
  have ev: "EvalScript env s script \<noteq> Inl Throw" "EvalScript env s script \<noteq> Inl Abort" for s script
    using good_exit_EvalScript [of env s script] by (auto simp: EvalScript_def good_exit_def split: sum.splits script_exit.splits)
  have "VerifyScript env scriptSig scriptPubKey \<noteq> Inl Throw" using ev by (intro VerifyScript_exits) auto
  moreover have "VerifyScript env scriptSig scriptPubKey \<noteq> Inl Abort" using VerifyScript_abort assms by blast
  ultimately show ?thesis using exits_only [OF ev] exits_only [of "VerifyScript env scriptSig scriptPubKey"] by simp
qed

abbreviation (input) demo_env :: "u32 \<Rightarrow> (bytes \<Rightarrow> bytes \<Rightarrow> CScript \<Rightarrow> u32 \<Rightarrow> bool) \<Rightarrow> eval_env" where
  "demo_env flags check \<equiv> \<lparr>env_flags = flags, env_CheckSig = check, env_CheckLockTime = (\<lambda>n. n < 500),
     env_CheckLowS = (\<lambda>_. True), env_branchId = 0\<rparr>"

theorem script_verification_total_witness:
  "VerifyScript (demo_env 0x101 (\<lambda>_ _ _ _. False)) [0x51] [0x93] = Inr () \<or>
   (\<exists>e. VerifyScript (demo_env 0x101 (\<lambda>_ _ _ _. False)) [0x51] [0x93] = Inl (Fail e))"
proof -
  have "flag (demo_env 0x101 (\<lambda>_ _ _ _. False)) SCRIPT_VERIFY_CLEANSTACK \<longrightarrow> flag (demo_env 0x101 (\<lambda>_ _ _ _. False)) SCRIPT_VERIFY_P2SH"
    by (simp add: flag_def)
  from script_verification_total [OF this] show ?thesis by blast
qed

text \<open>C11: From a stack of at most 1000 items of at most 520 bytes, every configuration the machine reaches has at most 1000
  items on its two stacks together, none longer than 520 bytes, and has counted at most 201 operations; evaluation returns a stack
  exactly when the machine reaches the end of the script with no conditional open.\<close>

theorem script_machine_bounded:
  assumes "\<And>x. x \<in> set s \<Longrightarrow> length x \<le> MAX_SCRIPT_ELEMENT_SIZE" "length s \<le> 1000"
    and "script_runs env script (initial_state s, script) (st, pc)"
  shows "length (stack st) + length (altstack st) \<le> 1000 \<and> nOpCount st \<le> 201 \<and>
    (\<forall>x \<in> set (stack st @ altstack st). length x \<le> MAX_SCRIPT_ELEMENT_SIZE) \<and>
    (EvalScript env s script = Inr s' \<longleftrightarrow> length script \<le> MAX_SCRIPT_SIZE \<and>
      (\<exists>st'. script_runs env script (initial_state s, script) (st', []) \<and> vfExec st' = [] \<and> stack st' = s'))"
proof -
  have "bounded (initial_state s)" using assms(1,2) by (simp add: bounded_def small_items_def)
  then have "bounded st" using script_runs_bounded [OF assms(3)] by simp
  then show ?thesis using EvalScript_runs by (auto simp: bounded_def small_items_def)
qed

theorem script_machine_bounded_witness:
  "\<exists>st. script_runs (demo_env 0 (\<lambda>_ _ _ _. False)) [0x51, 0x76] (initial_state [], [0x51, 0x76]) (st, []) \<and> stack st = [[1], [1]] \<and> nOpCount st = 1 \<and>
    length (stack st) + length (altstack st) \<le> 1000 \<and> nOpCount st \<le> 201 \<and> (\<forall>x \<in> set (stack st @ altstack st). length x \<le> MAX_SCRIPT_ELEMENT_SIZE) \<and>
    EvalScript (demo_env 0 (\<lambda>_ _ _ _. False)) [] [0x51, 0x76] = Inr [[1], [1]]"
proof -
  let ?env = "demo_env 0 (\<lambda>_ _ _ _. False)" and ?script = "[0x51, 0x76] :: bytes"
  let ?st = "(initial_state [[1], [1]])\<lparr>nOpCount := 1\<rparr>"
  have 1: "eval_step ?env ?script 0x51 [] (initial_state []) = Inr (initial_state [[1]])"
    using serialize_small [of 1] by (simp add: eval_step_def eval_op_def disabled_opcode_def op_push_number_def)
  have 2: "eval_step ?env ?script 0x76 [] (initial_state [[1]]) = Inr ?st"
    by (simp add: eval_step_def eval_op_def disabled_opcode_def op_stack_def op_stack2_def)
  have op: "GetOp2 ?script = (True, 0x51, [], [0x76])" "GetOp2 [0x76] = (True, 0x76, [], [])"
    by (simp_all add: GetOp2_def)
  have "script_runs ?env ?script (initial_state [[1]], [0x76]) (?st, [])"
    by (rule script_runs.step [OF _ op(2) 2 script_runs.stop]) simp
  then have run: "script_runs ?env ?script (initial_state [], ?script) (?st, [])"
    by (rule script_runs.step [OF _ op(1) 1, rotated]) simp
  have "EvalScript ?env [] ?script = Inr [[1], [1]]"
    using script_machine_bounded [OF _ _ run, of "[[1], [1]]"] run by fastforce
  then show ?thesis using run script_machine_bounded [OF _ _ run] by (intro exI [of _ ?st]) simp
qed

text \<open>C28: The encoding check accepts exactly the strict DER form: a sequence of two positive numbers without superfluous leading
  zero bytes, with exact one-byte lengths, followed by the hash type byte, at most 73 bytes in all.\<close>

theorem signature_encoding_is_strict_DER:
  "IsValidSignatureEncoding vchSig \<longleftrightarrow>
     (\<exists>r s hashtype. vchSig = der_signature r s hashtype \<and> der_number r \<and> der_number s \<and> length r + length s \<le> 66)"
  using der_signature_valid valid_der_signature by blast

text \<open>C14: A multisignature check of m signatures against n keys, in the order they were pushed and with well-formed encodings, leaves
  true on the stack exactly when the signatures can be assigned to different keys in order, each valid for its key; it removes all its
  arguments and the extra item, and counts n operations.\<close>

theorem multisig_matches_in_order:
  assumes "stack st = CScriptNum_serialize (int (length keys)) # rev keys @ CScriptNum_serialize (int (length sigs)) # rev sigs @ [] # s"
    and "length keys \<le> 20" "length sigs \<le> length keys" "nOpCount st + int (length keys) \<le> 201"
    and "\<And>vchSig key. vchSig \<in> set sigs \<Longrightarrow> key \<in> set keys \<Longrightarrow> check_encodings env vchSig key = Inr ()"
  shows "op_checkmultisig env script OP_CHECKMULTISIG st = Inr (st\<lparr>
    stack := vch_bool (signatures_match (\<lambda>vchSig key. env_CheckSig env vchSig key script (env_branchId env)) sigs keys) # s,
    nOpCount := nOpCount st + int (length keys)\<rparr>)"
proof -
  let ?n = "length keys" let ?m = "length sigs"
  let ?P = "\<lambda>vchSig key. env_CheckSig env vchSig key script (env_branchId env)"
  have num: "script_num env (CScriptNum_serialize (int ?n)) 4 = Inr (int ?n)" "script_num env (CScriptNum_serialize (int ?m)) 4 = Inr (int ?m)"
    "getint (int ?n) = int ?n" "getint (int ?m) = int ?m"
    using assms(2,3) by (simp_all add: script_num_serialize getint_small)
  have "multisig_loop env script (stack st) (Suc (?n + 2)) (Suc 1) ?m ?n = Inr (signatures_match ?P (rev sigs) (rev keys))"
    using multisig_loop_match [of ?m ?n "?n + 2" "stack st" 1 env script] assms by simp
  then have loop: "multisig_loop env script (stack st) (Suc (Suc (Suc ?n))) 2 ?m ?n = Inr (signatures_match ?P sigs keys)"
    by (simp add: signatures_match_rev numeral_2_eq_2)
  have "stack st \<noteq> []" using assms(1) by simp
  have items: "stack st ! 0 = CScriptNum_serialize (int ?n)" "stack st ! (?n + 1) = CScriptNum_serialize (int ?m)"
    "drop (?n + ?m + 2) (stack st) = [] # s" "length (stack st) = ?n + ?m + 3 + length s"
    using assms(1) by (simp_all add: nth_append)
  show ?thesis
    using num loop items assms(2-4) \<open>stack st \<noteq> []\<close> by (simp add: op_checkmultisig_def Let_def)
qed

theorem multisig_matches_in_order_witness:
  "op_checkmultisig (demo_env 0 (\<lambda>vchSig key _ _. vchSig = key)) [0xae] OP_CHECKMULTISIG (initial_state [[2], [], [7], [1], [], []]) =
     Inr \<lparr>stack = [vch_bool (signatures_match (=) [[]] [[7], []])], altstack = [], vfExec = [], nOpCount = 2\<rparr>"
proof -
  let ?env = "demo_env 0 (\<lambda>vchSig key _ _. vchSig = key)"
  have "check_encodings ?env vchSig key = Inr ()" if "vchSig \<in> set [[]]" "key \<in> set [[7], []]" for vchSig key
    using that by (simp add: check_encodings_def CheckSignatureEncoding_def CheckPubKeyEncoding_def flag_def)
  moreover have "stack (initial_state [[2], [], [7], [1], [], []]) =
      CScriptNum_serialize (int (length [[7], [] :: bytes])) # rev [[7], []] @ CScriptNum_serialize (int (length [[] :: bytes])) # rev [[]] @ [] # []"
    using serialize_small [of 1] serialize_small [of 2] by simp
  ultimately show ?thesis using multisig_matches_in_order [of "initial_state [[2], [], [7], [1], [], []]" "[[7], []]" "[[]]" "[]" ?env "[0xae]"] by simp
qed

text \<open>C13: An input of a pay-to-script-hash output that verifies carries a redeem script as its last push: the script hashes to the value
  in the output, evaluates to true on the other pushes, and the signature operations counted for the input are exactly those of the
  redeem script.\<close>

theorem p2sh_redeem_script:
  assumes "VerifyScript env scriptSig (0xa9 # 0x14 # h @ [0x87]) = Inr ()" "length h = 20" "flag env SCRIPT_VERIFY_P2SH"
  shows "\<exists>redeem s s'. EvalScript env [] scriptSig = Inr (redeem # s) \<and> Hash160 redeem = h \<and>
    EvalScript env s redeem = Inr s' \<and> s' \<noteq> [] \<and> CastToBool (hd s') \<and>
    GetSigOpCount_p2sh (0xa9 # 0x14 # h @ [0x87]) scriptSig = GetSigOpCount True redeem"
proof -
  let ?pk = "0xa9 # 0x14 # h @ [0x87]"
  have p2sh: "IsPayToScriptHash ?pk" using assms(2) by (simp add: IsPayToScriptHash_def nth_append)
  obtain copy s1 s2 where ev: "EvalScript env [] scriptSig = Inr copy" "EvalScript env copy ?pk = Inr s1" "eval_true s1 = Inr ()"
    and push: "IsPushOnly scriptSig" "copy \<noteq> []" "EvalScript env (tl copy) (hd copy) = Inr s2" "eval_true s2 = Inr ()"
    using assms(1,3) p2sh unfolding VerifyScript_def by (auto simp: Let_def split: if_splits)
  then obtain redeem s where copy: "copy = redeem # s" by (cases copy) auto
  then have "s1 = vch_bool (Hash160 redeem = h) # s" using EvalScript_p2sh [OF assms(2)] ev(2) by blast
  then have "Hash160 redeem = h" using ev(3) by (simp add: eval_true_def split: if_splits)
  moreover have "s2 \<noteq> [] \<and> CastToBool (hd s2)" using push(4) by (simp add: eval_true_def split: if_splits)
  moreover have "GetSigOpCount_p2sh ?pk scriptSig = GetSigOpCount True redeem"
    using EvalScript_push_only [OF push(1), of env redeem s] ev(1) copy p2sh unfolding GetSigOpCount_p2sh_def by force
  ultimately show ?thesis using ev(1) push(3) copy by auto
qed

theorem p2sh_redeem_script_witness:
  "\<exists>redeem s s'. EvalScript (demo_env 1 (\<lambda>_ _ _ _. False)) [] [0x01, 0x51] = Inr (redeem # s) \<and> Hash160 redeem = Hash160 [0x51] \<and>
    EvalScript (demo_env 1 (\<lambda>_ _ _ _. False)) s redeem = Inr s'"
proof -
  let ?env = "demo_env 1 (\<lambda>_ _ _ _. False)" and ?pk = "0xa9 # 0x14 # Hash160 [0x51] @ [0x87]"
  have flags: "flag ?env SCRIPT_VERIFY_P2SH" "\<not> flag ?env SCRIPT_VERIFY_SIGPUSHONLY" "\<not> flag ?env SCRIPT_VERIFY_CLEANSTACK"
    "\<not> flag ?env SCRIPT_VERIFY_MINIMALDATA" by (simp_all add: flag_def)
  have one: "CScriptNum_serialize 1 = [1]" using serialize_small [of 1] by simp
  have sig: "EvalScript ?env [] [0x01, 0x51] = Inr [[0x51]]" "IsPushOnly [0x01, 0x51]"
    using flags by (simp_all add: EvalScript_def eval_loop.simps IsPushOnly.simps GetOp2_def get_immediate_def eval_step_def disabled_opcode_def)
  have redeem: "EvalScript ?env [] [0x51] = Inr [[1]]"
    by (simp add: EvalScript_def eval_loop.simps GetOp2_def eval_step_def disabled_opcode_def eval_op_def op_push_number_def one)
  have hash: "eval_step ?env ?pk 0xa9 [] (initial_state [[0x51]]) = Inr \<lparr>stack = [Hash160 [0x51]], altstack = [], vfExec = [], nOpCount = 1\<rparr>"
    by (rule eval_step_op) (simp_all add: disabled_opcode_def eval_op_def op_hash_def Hash160_def)
  have data: "eval_step ?env ?pk 20 (Hash160 [0x51]) \<lparr>stack = [Hash160 [0x51]], altstack = [], vfExec = [], nOpCount = 1\<rparr> =
      Inr \<lparr>stack = [Hash160 [0x51], Hash160 [0x51]], altstack = [], vfExec = [], nOpCount = 1\<rparr>"
    using eval_step_data [of "\<lparr>stack = [Hash160 [0x51]], altstack = [], vfExec = [], nOpCount = 1\<rparr>" "Hash160 [0x51]" ?env ?pk]
    by (simp add: length_Hash)
  have equal: "eval_step ?env ?pk 0x87 [] \<lparr>stack = [Hash160 [0x51], Hash160 [0x51]], altstack = [], vfExec = [], nOpCount = 1\<rparr> =
      Inr \<lparr>stack = [vch_bool True], altstack = [], vfExec = [], nOpCount = 2\<rparr>"
    by (rule eval_step_op) (simp_all add: disabled_opcode_def eval_op_def op_equal_def)
  have pk: "EvalScript ?env [[0x51]] ?pk = Inr [vch_bool True]" "IsPayToScriptHash ?pk"
    using hash data equal
    by (simp_all add: EvalScript_def eval_loop_op eval_loop_push20 length_Hash IsPayToScriptHash_def nth_append)
  have "VerifyScript ?env [0x01, 0x51] ?pk = Inr ()"
    using flags sig pk redeem by (simp add: VerifyScript_def eval_true_def Let_def)
  from p2sh_redeem_script [OF this _ flags(1)] show ?thesis by (auto simp: length_Hash)
qed

text \<open>A script classified as unspendable, one that starts with \<open>OP_RETURN\<close> or is too long, fails on every stack, so no input
  that refers to it verifies.\<close>

theorem unspendable_outputs_never_verify:
  assumes "IsUnspendable scriptPubKey"
  shows "(\<exists>e. EvalScript env s scriptPubKey = Inl (Fail e)) \<and> VerifyScript env scriptSig scriptPubKey \<noteq> Inr ()"
proof -
  have ev: "\<exists>e. EvalScript env s scriptPubKey = Inl (Fail e)" for s using EvalScript_unspendable [OF assms] by blast
  then have "EvalScript env s scriptPubKey \<noteq> Inr s'" for s s' using EvalScript_unspendable [OF assms, of env s] by simp
  then show ?thesis using ev by (auto simp: VerifyScript_def split: if_splits)
qed

theorem unspendable_outputs_never_verify_witness:
  "VerifyScript (demo_env 1 (\<lambda>_ _ _ _. True)) [0x51] [0x6a, 0x51] \<noteq> Inr ()"
  using unspendable_outputs_never_verify [of "[0x6a, 0x51]"] by (simp add: IsUnspendable_def)

text \<open>The error for a signature with a high S value is never reported: the check for low S values returns false without setting
  an error, so evaluation ends with the unknown error it started with.\<close>

theorem high_S_error_never_reported:
  "EvalScript env s script \<noteq> Inl (Fail SCRIPT_ERR_SIG_HIGH_S) \<and> VerifyScript env scriptSig scriptPubKey \<noteq> Inl (Fail SCRIPT_ERR_SIG_HIGH_S)"
proof -
  have ev: "EvalScript env s script \<noteq> Inl (Fail SCRIPT_ERR_SIG_HIGH_S)" for s script
    using good_exit_EvalScript [of env s script] by (simp add: good_exit_def)
  then show ?thesis using VerifyScript_exits [of env "Fail SCRIPT_ERR_SIG_HIGH_S"] by auto
qed

end
