(* ===== verification/Standard.thy ===== *)
theory Standard
  imports ScriptRuns
begin

text \<open>
  Standard scripts (\<^verbatim>\<open>script/standard.cpp\<close>): matching a script against the templates, destinations and the scripts that pay them. The
  two settings \<open>-datacarrier\<close> and \<open>nMaxDatacarrierBytes\<close> are arguments. Reading an element a vector does not have is the failure
  \<open>BadPointer\<close>; the vector of solutions is empty when \<open>Solver\<close> is called, as at every call in the source.
\<close>

section \<open>The code\<close>

datatype txnouttype = TX_NONSTANDARD | TX_PUBKEY | TX_PUBKEYHASH | TX_SCRIPTHASH | TX_MULTISIG | TX_NULL_DATA

datatype CTxDestination = CNoDestination | CKeyID bytes | CScriptID bytes

fun GetTxnOutputType :: "txnouttype \<Rightarrow> string" where
  "GetTxnOutputType TX_NONSTANDARD = ''nonstandard''"
| "GetTxnOutputType TX_PUBKEY = ''pubkey''"
| "GetTxnOutputType TX_PUBKEYHASH = ''pubkeyhash''"
| "GetTxnOutputType TX_SCRIPTHASH = ''scripthash''"
| "GetTxnOutputType TX_MULTISIG = ''multisig''"
| "GetTxnOutputType TX_NULL_DATA = ''nulldata''"

definition vec_at :: "'a list \<Rightarrow> nat \<Rightarrow> failure + 'a" where
  "vec_at v i = (if i < length v then Inr (v ! i) else Inl BadPointer)"

definition mTemplates :: "bool \<Rightarrow> (txnouttype \<times> CScript) list" where
  "mTemplates datacarrier =
     [(TX_PUBKEY, map of_nat [OP_PUBKEY, OP_CHECKSIG]),
      (TX_PUBKEYHASH, map of_nat [OP_DUP, OP_HASH160, OP_PUBKEYHASH, OP_EQUALVERIFY, OP_CHECKSIG]),
      (TX_MULTISIG, map of_nat [OP_SMALLINTEGER, OP_PUBKEYS, OP_SMALLINTEGER, OP_CHECKMULTISIG])] @
     (if datacarrier then [(TX_NULL_DATA, map of_nat [OP_RETURN, OP_SMALLDATA])] else []) @
     [(TX_NULL_DATA, map of_nat [OP_RETURN])]"

function pubkeys_loop :: "bytes \<Rightarrow> opcodetype \<Rightarrow> bytes \<Rightarrow> bytes list \<Rightarrow> bytes \<times> opcodetype \<times> bytes \<times> bytes list" where
  "pubkeys_loop pc1 opcode1 vch1 vSolutions =
     (if 33 \<le> length vch1 \<and> length vch1 \<le> 65 then
        case GetOp2 pc1 of (ok, opcode1', vch1', pc1') \<Rightarrow>
          if \<not> ok then (pc1', opcode1', vch1', vSolutions @ [vch1])
          else pubkeys_loop pc1' opcode1' vch1' (vSolutions @ [vch1])
      else (pc1, opcode1, vch1, vSolutions))"
  by pat_completeness auto
termination
  by (relation "measure (\<lambda>(pc, _). length pc)") (auto dest!: sym [of _ "GetOp2 _"] GetOp2_shorter)

declare pubkeys_loop.simps [simp del]

text \<open>One comparison: \<open>None\<close> where the source breaks out of the loop, else the solutions.\<close>

definition match_op :: "nat \<Rightarrow> opcodetype \<Rightarrow> bytes \<Rightarrow> opcodetype \<Rightarrow> bytes \<Rightarrow> bytes list \<Rightarrow> failure + bytes list option" where
  "match_op nMaxDatacarrierBytes opcode2 vch2 opcode1 vch1 vSolutions =
     (if opcode2 = OP_PUBKEY then
        if length vch1 < 33 \<or> length vch1 > 65 then Inr None else Inr (Some (vSolutions @ [vch1]))
      else if opcode2 = OP_PUBKEYHASH then
        if length vch1 \<noteq> 20 then Inr None else Inr (Some (vSolutions @ [vch1]))
      else if opcode2 = OP_SMALLINTEGER then
        if opcode1 = OP_0 \<or> (OP_1 \<le> opcode1 \<and> opcode1 \<le> OP_16)
        then and_then (DecodeOP_N opcode1) (\<lambda>n. Inr (Some (vSolutions @ [[of_nat n]])))
        else Inr None
      else if opcode2 = OP_SMALLDATA then
        if length vch1 > nMaxDatacarrierBytes then Inr None else Inr (Some vSolutions)
      else if opcode1 \<noteq> opcode2 \<or> vch1 \<noteq> vch2 then Inr None
      else Inr (Some vSolutions))"

function template_loop :: "nat \<Rightarrow> bytes \<Rightarrow> bytes \<Rightarrow> bytes list \<Rightarrow> failure + bytes list option" where
  "template_loop nMaxDatacarrierBytes pc1 pc2 vSolutions =
     (if pc1 = [] \<and> pc2 = [] then Inr (Some vSolutions)
      else case GetOp2 pc1 of (ok1, opcode1, vch1, pc1') \<Rightarrow>
      if \<not> ok1 then Inr None
      else case GetOp2 pc2 of (ok2, opcode2, vch2, pc2') \<Rightarrow>
      if \<not> ok2 then Inr None
      else if opcode2 = OP_PUBKEYS then
        case pubkeys_loop pc1' opcode1 vch1 vSolutions of (pc1'', opcode1, vch1, vSolutions) \<Rightarrow>
        case GetOp2 pc2' of (ok2, opcode2, vch2, pc2'') \<Rightarrow>
        if \<not> ok2 then Inr None
        else (case match_op nMaxDatacarrierBytes opcode2 vch2 opcode1 vch1 vSolutions of
            Inl e \<Rightarrow> Inl e | Inr None \<Rightarrow> Inr None
          | Inr (Some vSolutions) \<Rightarrow> template_loop nMaxDatacarrierBytes pc1'' pc2'' vSolutions)
      else (case match_op nMaxDatacarrierBytes opcode2 vch2 opcode1 vch1 vSolutions of
            Inl e \<Rightarrow> Inl e | Inr None \<Rightarrow> Inr None
          | Inr (Some vSolutions) \<Rightarrow> template_loop nMaxDatacarrierBytes pc1' pc2' vSolutions))"
  by pat_completeness auto
termination
  by (relation "measure (\<lambda>(_, _, pc2, _). length pc2)") (auto dest!: sym [of _ "GetOp2 _"] GetOp2_shorter)

declare template_loop.simps [simp del]

definition multisig_ok :: "bytes list \<Rightarrow> failure + bool" where
  "multisig_ok vSolutions =
     and_then (vec_at vSolutions 0) (\<lambda>f. and_then (vec_at f 0) (\<lambda>m.
     and_then (vec_at vSolutions (length vSolutions - 1)) (\<lambda>b. and_then (vec_at b 0) (\<lambda>n.
     Inr (\<not> (m < 1 \<or> n < 1 \<or> m > n \<or> int (length vSolutions) - 2 \<noteq> uint n))))))"

fun scan_templates :: "nat \<Rightarrow> (txnouttype \<times> CScript) list \<Rightarrow> CScript \<Rightarrow> failure + bool \<times> txnouttype \<times> bytes list" where
  "scan_templates nMaxDatacarrierBytes [] script1 = Inr (False, TX_NONSTANDARD, [])"
| "scan_templates nMaxDatacarrierBytes ((typeRet, script2) # tplates) script1 =
     and_then (template_loop nMaxDatacarrierBytes script1 script2 []) (\<lambda>r. case r of
       None \<Rightarrow> scan_templates nMaxDatacarrierBytes tplates script1
     | Some vSolutions \<Rightarrow>
         and_then (if typeRet = TX_MULTISIG then multisig_ok vSolutions else Inr True) (\<lambda>ok. Inr (ok, typeRet, vSolutions)))"

definition Solver :: "bool \<Rightarrow> nat \<Rightarrow> CScript \<Rightarrow> failure + bool \<times> txnouttype \<times> bytes list" where
  "Solver datacarrier nMaxDatacarrierBytes scriptPubKey =
     (if IsPayToScriptHash scriptPubKey then Inr (True, TX_SCRIPTHASH, [take 20 (drop 2 scriptPubKey)])
      else scan_templates nMaxDatacarrierBytes (mTemplates datacarrier) scriptPubKey)"

definition ScriptSigArgsExpected :: "txnouttype \<Rightarrow> bytes list \<Rightarrow> int" where
  "ScriptSigArgsExpected t vSolutions = (case t of
     TX_NONSTANDARD \<Rightarrow> -1 | TX_NULL_DATA \<Rightarrow> -1 | TX_PUBKEY \<Rightarrow> 1 | TX_PUBKEYHASH \<Rightarrow> 2
   | TX_MULTISIG \<Rightarrow> (if length vSolutions < 1 \<or> length (vSolutions ! 0) < 1 then -1 else uint (vSolutions ! 0 ! 0) + 1)
   | TX_SCRIPTHASH \<Rightarrow> 1)"

definition IsStandard :: "bool \<Rightarrow> nat \<Rightarrow> CScript \<Rightarrow> failure + bool \<times> txnouttype" where
  "IsStandard datacarrier nMaxDatacarrierBytes scriptPubKey =
     and_then (Solver datacarrier nMaxDatacarrierBytes scriptPubKey) (\<lambda>(ok, whichType, vSolutions).
     if \<not> ok then Inr (False, whichType)
     else if whichType = TX_MULTISIG then
       and_then (vec_at vSolutions 0) (\<lambda>f. and_then (vec_at f 0) (\<lambda>m.
       and_then (vec_at vSolutions (length vSolutions - 1)) (\<lambda>b. and_then (vec_at b 0) (\<lambda>n.
       if n < 1 \<or> n > 3 then Inr (False, whichType)
       else if m < 1 \<or> m > n then Inr (False, whichType)
       else Inr (whichType \<noteq> TX_NONSTANDARD, whichType)))))
     else Inr (whichType \<noteq> TX_NONSTANDARD, whichType))"

definition uint160_of :: "bytes \<Rightarrow> failure + bytes" where
  "uint160_of vch = and_then (cassert (length vch = 20)) (\<lambda>_. Inr vch)"

definition ExtractDestination :: "bool \<Rightarrow> nat \<Rightarrow> CScript \<Rightarrow> failure + CTxDestination option" where
  "ExtractDestination datacarrier nMaxDatacarrierBytes scriptPubKey =
     and_then (Solver datacarrier nMaxDatacarrierBytes scriptPubKey) (\<lambda>(ok, whichType, vSolutions).
     if \<not> ok then Inr None
     else if whichType = TX_PUBKEY then
       and_then (vec_at vSolutions 0) (\<lambda>v. let pubKey = pubkey_Set v in
         if \<not> pubkey_IsValid pubKey then Inr None else Inr (Some (CKeyID (GetID pubKey))))
     else if whichType = TX_PUBKEYHASH then
       and_then (vec_at vSolutions 0) (\<lambda>v. and_then (uint160_of v) (\<lambda>h. Inr (Some (CKeyID h))))
     else if whichType = TX_SCRIPTHASH then
       and_then (vec_at vSolutions 0) (\<lambda>v. and_then (uint160_of v) (\<lambda>h. Inr (Some (CScriptID h))))
     else Inr None)"

text \<open>\<open>ExtractDestinations\<close> returns its result, the type, the addresses, and the number of required signatures where it sets it.\<close>

definition ExtractDestinations :: "bool \<Rightarrow> nat \<Rightarrow> CScript \<Rightarrow> failure + bool \<times> txnouttype \<times> CTxDestination list \<times> int option" where
  "ExtractDestinations datacarrier nMaxDatacarrierBytes scriptPubKey =
     and_then (Solver datacarrier nMaxDatacarrierBytes scriptPubKey) (\<lambda>(ok, typeRet, vSolutions).
     if \<not> ok then Inr (False, typeRet, [], None)
     else if typeRet = TX_NULL_DATA then Inr (False, typeRet, [], None)
     else if typeRet = TX_MULTISIG then
       and_then (vec_at vSolutions 0) (\<lambda>f. and_then (vec_at f 0) (\<lambda>m.
       let addressRet = map (\<lambda>k. CKeyID (GetID k)) (filter pubkey_IsValid (map pubkey_Set (butlast (tl vSolutions))))
       in Inr (addressRet \<noteq> [], typeRet, addressRet, Some (uint m))))
     else
       and_then (ExtractDestination datacarrier nMaxDatacarrierBytes scriptPubKey) (\<lambda>address. case address of
         None \<Rightarrow> Inr (False, typeRet, [], Some 1) | Some address \<Rightarrow> Inr (True, typeRet, [address], Some 1)))"

fun push_opcodes :: "CScript \<Rightarrow> opcodetype list \<Rightarrow> failure + CScript" where
  "push_opcodes s [] = Inr s"
| "push_opcodes s (opcode # opcodes) = and_then (push_opcode s opcode) (\<lambda>s. push_opcodes s opcodes)"

fun GetScriptForDestination :: "CTxDestination \<Rightarrow> failure + CScript" where
  "GetScriptForDestination CNoDestination = Inr []"
| "GetScriptForDestination (CKeyID keyID) = and_then (push_opcodes [] [OP_DUP, OP_HASH160]) (\<lambda>s.
     push_opcodes (push_data s keyID) [OP_EQUALVERIFY, OP_CHECKSIG])"
| "GetScriptForDestination (CScriptID scriptID) = and_then (push_opcodes [] [OP_HASH160]) (\<lambda>s.
     push_opcodes (push_data s scriptID) [OP_EQUAL])"

definition GetScriptForMultisig :: "int \<Rightarrow> CPubKey list \<Rightarrow> failure + CScript" where
  "GetScriptForMultisig nRequired keys =
     and_then (EncodeOP_N nRequired) (\<lambda>m. and_then (push_opcodes [] [m]) (\<lambda>s.
     let s = foldl (\<lambda>s key. push_data s (take (pubkey_size key) key)) s keys in
     and_then (EncodeOP_N (int (length keys))) (\<lambda>n. push_opcodes s [n, OP_CHECKMULTISIG])))"

definition IsValidDestination :: "CTxDestination \<Rightarrow> bool" where
  "IsValidDestination dest \<longleftrightarrow> dest \<noteq> CNoDestination"

definition DestFromAddressHash :: "int \<Rightarrow> bytes \<Rightarrow> CTxDestination" where
  "DestFromAddressHash scriptType addressHash =
     (if scriptType = 1 then CKeyID addressHash else if scriptType = 2 then CScriptID addressHash else CNoDestination)"

section \<open>Templates\<close>

lemma GetOp2_template: "78 < n \<Longrightarrow> n < 256 \<Longrightarrow> GetOp2 (of_nat n # pc) = (True, n, [], pc)"
  by (simp add: GetOp2_op)

text \<open>What \<open>template_loop\<close> does with one instruction on each side.\<close>

lemma template_step:
  assumes "GetOp2 pc1 = (True, opcode1, vch1, pc1')" "78 < n" "n < 256" "n \<noteq> OP_PUBKEYS"
  shows "template_loop k pc1 (of_nat n # pc2) sols =
    and_then (match_op k n [] opcode1 vch1 sols) (\<lambda>r. case r of None \<Rightarrow> Inr None | Some sols \<Rightarrow> template_loop k pc1' pc2 sols)"
  using assms GetOp2_template [of n pc2]
  by (subst template_loop.simps) (auto simp: and_then_def split: sum.splits option.splits)

lemma template_step_bad:
  assumes "GetOp2 pc1 = (False, opcode1, vch1, pc1')" "pc2 \<noteq> []"
  shows "template_loop k pc1 pc2 sols = Inr None"
  using assms by (subst template_loop.simps) auto

lemma template_step_pubkeys:
  assumes "GetOp2 pc1 = (True, opcode1, vch1, pc1')" "pubkeys_loop pc1' opcode1 vch1 sols = (pc1'', opcode1'', vch1'', sols'')"
    "78 < n" "n < 256"
  shows "template_loop k pc1 (of_nat OP_PUBKEYS # of_nat n # pc2) sols =
    and_then (match_op k n [] opcode1'' vch1'' sols'') (\<lambda>r. case r of None \<Rightarrow> Inr None | Some sols \<Rightarrow> template_loop k pc1'' pc2 sols)"
  using assms GetOp2_template [of n pc2] GetOp2_template [of OP_PUBKEYS "of_nat n # pc2"]
  by (subst template_loop.simps) (auto simp: and_then_def split: sum.splits option.splits)

lemma template_end:
  "template_loop k [] [] sols = Inr (Some sols)" "pc1 \<noteq> [] \<Longrightarrow> template_loop k pc1 [] sols = Inr None"
  by (simp_all add: template_loop.simps GetOp2_def split: prod.split)

lemma match_op_total: "\<exists>r. match_op k opcode2 vch2 opcode1 vch1 sols = Inr r"
  by (auto simp: match_op_def DecodeOP_N_def cassert_def)

lemma template_loop_total: "\<exists>r. template_loop k pc1 pc2 sols = Inr r"
proof (induction k pc1 pc2 sols rule: template_loop.induct)
  case (1 k pc1 pc2 sols)
  obtain ok1 op1 vch1 pc1' where 2: "GetOp2 pc1 = (ok1, op1, vch1, pc1')" by (cases "GetOp2 pc1")
  obtain ok2 op2 vch2 pc2' where 3: "GetOp2 pc2 = (ok2, op2, vch2, pc2')" by (cases "GetOp2 pc2")
  obtain pc1'' op1'' vch1'' sols'' where 4: "pubkeys_loop pc1' op1 vch1 sols = (pc1'', op1'', vch1'', sols'')"
    by (cases "pubkeys_loop pc1' op1 vch1 sols")
  obtain ok3 op3 vch3 pc3' where 5: "GetOp2 pc2' = (ok3, op3, vch3, pc3')" by (cases "GetOp2 pc2'")
  obtain r where r: "match_op k op2 vch2 op1 vch1 sols = Inr r" using match_op_total by blast
  obtain r'' where r'': "match_op k op3 vch3 op1'' vch1'' sols'' = Inr r''" using match_op_total by blast
  show ?case
    using 1 2 3 4 5 r r'' by (subst template_loop.simps) (auto split: option.split)
qed

lemma template_Some:
  assumes "template_loop k pc1 (of_nat n # pc2) sols = Inr (Some r)" "78 < n" "n < 256" "n \<noteq> OP_PUBKEYS"
  obtains op1 vch1 pc1' sols' where "GetOp2 pc1 = (True, op1, vch1, pc1')" "match_op k n [] op1 vch1 sols = Inr (Some sols')"
    "template_loop k pc1' pc2 sols' = Inr (Some r)"
proof -
  obtain ok1 op1 vch1 pc1' where g: "GetOp2 pc1 = (ok1, op1, vch1, pc1')" by (cases "GetOp2 pc1")
  then have ok1 using assms(1) template_step_bad [of pc1 op1 vch1 pc1'] by (cases ok1) auto
  then show ?thesis
    using assms g template_step [of pc1 op1 vch1 pc1' n k pc2 sols] that by (auto split: option.splits)
qed

lemma template_Some_pubkeys:
  assumes "template_loop k pc1 (of_nat OP_PUBKEYS # of_nat n # pc2) sols = Inr (Some r)" "78 < n" "n < 256"
  obtains op1 vch1 pc1' op1' vch1' pc1'' sols' sols'' where "GetOp2 pc1 = (True, op1, vch1, pc1')"
    "pubkeys_loop pc1' op1 vch1 sols = (pc1'', op1', vch1', sols')"
    "match_op k n [] op1' vch1' sols' = Inr (Some sols'')" "template_loop k pc1'' pc2 sols'' = Inr (Some r)"
proof -
  obtain ok1 op1 vch1 pc1' where g: "GetOp2 pc1 = (ok1, op1, vch1, pc1')" by (cases "GetOp2 pc1")
  then have ok1 using assms(1) template_step_bad [of pc1 op1 vch1 pc1'] by (cases ok1) auto
  moreover obtain pc1'' op1' vch1' sols' where p: "pubkeys_loop pc1' op1 vch1 sols = (pc1'', op1', vch1', sols')"
    by (cases "pubkeys_loop pc1' op1 vch1 sols")
  moreover obtain r' where r': "match_op k n [] op1' vch1' sols' = Inr r'" using match_op_total by blast
  ultimately have g': "GetOp2 pc1 = (True, op1, vch1, pc1')" and
    l: "template_loop k pc1 (of_nat OP_PUBKEYS # of_nat n # pc2) sols = (case r' of None \<Rightarrow> Inr None | Some sols \<Rightarrow> template_loop k pc1'' pc2 sols)"
    using g assms(2,3) template_step_pubkeys [of pc1 op1 vch1 pc1' sols pc1'' op1' vch1' sols' n k pc2] by auto
  show ?thesis using that [OF g' p] r' l assms(1) by (auto split: option.splits)
qed

lemma template_Some_end: "template_loop k pc1 [] sols = Inr (Some r) \<longleftrightarrow> pc1 = [] \<and> r = sols"
  using template_end(1) [of k sols] template_end(2) [of pc1 k sols] by (cases "pc1 = []") auto

lemma pubkeys_loop_sols:
  "pubkeys_loop pc op1 vch1 sols = (pc', op1', vch1', sols') \<Longrightarrow>
     \<exists>ks. sols' = sols @ ks \<and> (\<forall>k \<in> set ks. 33 \<le> length k \<and> length k \<le> 65)"
proof (induction pc op1 vch1 sols rule: pubkeys_loop.induct)
  case (1 pc op1 vch1 sols)
  obtain ok op2 vch2 pc2 where g: "GetOp2 pc = (ok, op2, vch2, pc2)" by (cases "GetOp2 pc")
  show ?case
  proof (cases "33 \<le> length vch1 \<and> length vch1 \<le> 65 \<and> ok")
    case True
    then have "pubkeys_loop pc2 op2 vch2 (sols @ [vch1]) = (pc', op1', vch1', sols')"
      using 1(2) g by (subst (asm) pubkeys_loop.simps) simp
    then obtain ks where "sols' = (sols @ [vch1]) @ ks" "\<forall>k \<in> set ks. 33 \<le> length k \<and> length k \<le> 65"
      using 1(1) [of ok] g True by (metis (no_types, lifting))
    then show ?thesis using True by (intro exI [of _ "vch1 # ks"]) auto
  next
    case False
    then show ?thesis using 1(2) g
      by (subst (asm) pubkeys_loop.simps) (auto split: if_splits)
  qed
qed

text \<open>The solutions that each kind of script has.\<close>

fun solution_shape :: "txnouttype \<Rightarrow> bytes list \<Rightarrow> bool" where
  "solution_shape TX_NONSTANDARD sols \<longleftrightarrow> sols = []"
| "solution_shape TX_PUBKEY sols \<longleftrightarrow> (\<exists>k. sols = [k] \<and> 33 \<le> length k \<and> length k \<le> 65)"
| "solution_shape TX_PUBKEYHASH sols \<longleftrightarrow> (\<exists>h. sols = [h] \<and> length h = 20)"
| "solution_shape TX_SCRIPTHASH sols \<longleftrightarrow> (\<exists>h. sols = [h] \<and> length h = 20)"
| "solution_shape TX_MULTISIG sols \<longleftrightarrow> (\<exists>m ks n. sols = [m] # ks @ [[n]] \<and> unat m \<le> 16 \<and> unat n \<le> 16 \<and>
     (\<forall>k \<in> set ks. 33 \<le> length k \<and> length k \<le> 65))"
| "solution_shape TX_NULL_DATA sols \<longleftrightarrow> sols = []"

lemma match_op_small:
  assumes "match_op k OP_SMALLINTEGER [] opcode1 vch1 sols = Inr (Some sols')"
  shows "\<exists>m. sols' = sols @ [[m]] \<and> unat m \<le> 16"
proof -
  define n where "n = (if opcode1 = 0 then 0 else opcode1 - 80)"
  have n: "sols' = sols @ [[of_nat n]]" "n \<le> 16" using assms
    by (auto simp: match_op_def DecodeOP_N_def cassert_def n_def split: if_splits)
  moreover have "unat (of_nat n :: u8) \<le> 16" using n(2) by simp
  ultimately show ?thesis by blast
qed

lemma template_shape:
  assumes "template_loop k s tplate [] = Inr (Some sols)" "(t, tplate) \<in> set (mTemplates datacarrier)"
  shows "solution_shape t sols"
proof -
  have "t = TX_PUBKEY \<and> tplate = map of_nat [OP_PUBKEY, OP_CHECKSIG] \<or>
    t = TX_PUBKEYHASH \<and> tplate = map of_nat [OP_DUP, OP_HASH160, OP_PUBKEYHASH, OP_EQUALVERIFY, OP_CHECKSIG] \<or>
    t = TX_MULTISIG \<and> tplate = map of_nat [OP_SMALLINTEGER, OP_PUBKEYS, OP_SMALLINTEGER, OP_CHECKMULTISIG] \<or>
    t = TX_NULL_DATA \<and> tplate \<in> {map of_nat [OP_RETURN, OP_SMALLDATA], map of_nat [OP_RETURN]}"
    using assms(2) unfolding mTemplates_def by (simp split: if_splits) blast
  then consider (1) "t = TX_PUBKEY" "tplate = map of_nat [OP_PUBKEY, OP_CHECKSIG]"
    | (2) "t = TX_PUBKEYHASH" "tplate = map of_nat [OP_DUP, OP_HASH160, OP_PUBKEYHASH, OP_EQUALVERIFY, OP_CHECKSIG]"
    | (3) "t = TX_MULTISIG" "tplate = map of_nat [OP_SMALLINTEGER, OP_PUBKEYS, OP_SMALLINTEGER, OP_CHECKMULTISIG]"
    | (4) "t = TX_NULL_DATA" "tplate = map of_nat [OP_RETURN, OP_SMALLDATA] \<or> tplate = map of_nat [OP_RETURN]"
    by blast
  then show ?thesis
  proof cases
    case 1
    show ?thesis using assms(1) unfolding 1 list.map
      by (elim template_Some) (auto simp: template_Some_end match_op_def split: if_splits)
  next
    case 2
    show ?thesis using assms(1) unfolding 2 list.map
      by (elim template_Some) (auto simp: template_Some_end match_op_def split: if_splits)
  next
    case 3
    obtain op1 v1 pc1 sols1 where 31: "match_op k OP_SMALLINTEGER [] op1 v1 [] = Inr (Some sols1)"
      "template_loop k pc1 (map of_nat [OP_PUBKEYS, OP_SMALLINTEGER, OP_CHECKMULTISIG]) sols1 = Inr (Some sols)"
      using assms(1) unfolding 3 list.map by (rule template_Some) auto
    then obtain op2 v2 pc2 op2' v2' pc2' sols2 sols3 where 32: "pubkeys_loop pc2 op2 v2 sols1 = (pc2', op2', v2', sols2)"
      "match_op k OP_SMALLINTEGER [] op2' v2' sols2 = Inr (Some sols3)"
      "template_loop k pc2' (map of_nat [OP_CHECKMULTISIG]) sols3 = Inr (Some sols)"
      unfolding list.map by - (erule template_Some_pubkeys, auto)
    have "sols = sols3" using 32(3) unfolding list.map
      by (elim template_Some) (auto simp: template_Some_end match_op_def split: if_splits)
    then show ?thesis using 3(1) match_op_small [OF 31(1)] match_op_small [OF 32(2)] pubkeys_loop_sols [OF 32(1)] by fastforce
  next
    case 4
    then consider "tplate = map of_nat [OP_RETURN, OP_SMALLDATA]" | "tplate = map of_nat [OP_RETURN]" by blast
    then show ?thesis
    proof cases
      case 1
      show ?thesis using assms(1) unfolding 4(1) 1 list.map
        by (elim template_Some) (auto simp: template_Some_end match_op_def split: if_splits)
    next
      case 2
      show ?thesis using assms(1) unfolding 4(1) 2 list.map
        by (elim template_Some) (auto simp: template_Some_end match_op_def split: if_splits)
    qed
  qed
qed

lemma vec_at_simps [simp]: "vec_at (x # xs) 0 = Inr x" "vec_at (xs @ [x]) (length xs) = Inr x" "vec_at (y # xs @ [x]) (Suc (length xs)) = Inr x"
  by (simp_all add: vec_at_def nth_append)

lemma multisig_ok_eq:
  "multisig_ok ([m] # ks @ [[n]]) = Inr (1 \<le> m \<and> m \<le> n \<and> length ks = unat n)"
proof -
  have "int (length ks) = uint n \<longleftrightarrow> length ks = unat n" by (metis nat_int unat_eq_nat_uint uint_nat)
  then show ?thesis by (auto simp: multisig_ok_def not_less not_le word_le_nat_alt word_less_nat_alt)
qed

lemma scan_shape:
  assumes "set tps \<subseteq> set (mTemplates datacarrier)"
  shows "\<exists>ok t sols. scan_templates k tps s = Inr (ok, t, sols) \<and> solution_shape t sols \<and> t \<noteq> TX_SCRIPTHASH \<and>
    (ok \<and> t = TX_MULTISIG \<longrightarrow> (\<exists>m ks n. sols = [m] # ks @ [[n]] \<and> 1 \<le> m \<and> m \<le> n \<and> length ks = unat n)) \<and>
    (ok \<longleftrightarrow> t \<noteq> TX_NONSTANDARD \<and> (t = TX_MULTISIG \<longrightarrow> multisig_ok sols = Inr True))"
  using assms
proof (induction tps)
  case Nil
  then show ?case by (intro exI [of _ False]) simp
next
  case (Cons tp tps)
  obtain t tplate where tp: "tp = (t, tplate)" by (cases tp)
  obtain r where r: "template_loop k s tplate [] = Inr r" using template_loop_total by blast
  show ?case
  proof (cases r)
    case None
    then show ?thesis using Cons tp r by simp
  next
    case (Some sols)
    then have shape: "solution_shape t sols" using template_shape r Cons.prems tp by (metis list.set_intros(1) subsetD)
    have t: "t \<noteq> TX_SCRIPTHASH" "t \<noteq> TX_NONSTANDARD" using Cons.prems tp by (auto simp: mTemplates_def split: if_splits)
    show ?thesis
    proof (cases "t = TX_MULTISIG")
      case True
      then obtain m ks n where "sols = [m] # ks @ [[n]]" using shape by auto
      then show ?thesis using True tp r Some shape by (auto simp: multisig_ok_eq)
    next
      case False
      then show ?thesis using tp r Some shape t by auto
    qed
  qed
qed

lemma Solver_shape:
  "\<exists>ok t sols. Solver datacarrier k s = Inr (ok, t, sols) \<and> solution_shape t sols \<and>
    (ok \<and> t = TX_MULTISIG \<longrightarrow> (\<exists>m ks n. sols = [m] # ks @ [[n]] \<and> 1 \<le> m \<and> m \<le> n \<and> length ks = unat n)) \<and>
    (ok \<longrightarrow> t \<noteq> TX_NONSTANDARD)"
  using scan_shape [OF subset_refl, of k datacarrier s]
  by (auto simp: Solver_def IsPayToScriptHash_def)

definition solver_result :: "bool \<Rightarrow> txnouttype \<Rightarrow> bytes list \<Rightarrow> bool" where
  "solver_result ok t sols \<longleftrightarrow> solution_shape t sols \<and> (ok \<longrightarrow> t \<noteq> TX_NONSTANDARD) \<and>
    (ok \<and> t = TX_MULTISIG \<longrightarrow> (\<exists>m ks n. sols = [m] # ks @ [[n]] \<and> 1 \<le> m \<and> m \<le> n \<and> length ks = unat n))"

section \<open>Building the scripts\<close>

lemma push_opcodes_eq: "list_all (\<lambda>opcode. opcode \<le> 0xff) ops \<Longrightarrow> push_opcodes s ops = Inr (s @ map of_nat ops)"
  by (induction ops arbitrary: s) (simp_all add: push_opcode_def)

lemma GetScriptForDestination_eq:
  "length h = 20 \<Longrightarrow> GetScriptForDestination (CKeyID h) = Inr (0x76 # 0xa9 # 0x14 # h @ [0x88, 0xac])"
  "length h = 20 \<Longrightarrow> GetScriptForDestination (CScriptID h) = Inr (0xa9 # 0x14 # h @ [0x87])"
  by (simp_all add: push_opcode_def push_data_def)

lemma GetOp2_push20: "length h = 20 \<Longrightarrow> GetOp2 (0x14 # h @ pc) = (True, 20, h, pc)"
  using GetOp2_push_data [of h pc] by (simp add: push_data_def push_op_def)

lemma template_no_match:
  assumes "GetOp2 pc1 = (True, opcode1, vch1, pc1')" "78 < n" "n < 256" "n \<noteq> OP_PUBKEYS" "match_op k n [] opcode1 vch1 sols = Inr None"
  shows "template_loop k pc1 (of_nat n # pc2) sols = Inr None"
  using template_step [OF assms(1-4)] assms(5) by simp

lemma Solver_pubkeyhash:
  assumes "length h = 20"
  shows "Solver datacarrier k (0x76 # 0xa9 # 0x14 # h @ [0x88, 0xac]) = Inr (True, TX_PUBKEYHASH, [h])"
proof -
  have "template_loop k (0x76 # 0xa9 # 0x14 # h @ [0x88, 0xac]) (map of_nat [OP_PUBKEY, OP_CHECKSIG]) [] = Inr None"
    unfolding list.map by (rule template_no_match [OF GetOp2_op]) (simp_all add: match_op_def)
  moreover have "template_loop k (0x76 # 0xa9 # 0x14 # h @ [0x88, 0xac])
      (map of_nat [OP_DUP, OP_HASH160, OP_PUBKEYHASH, OP_EQUALVERIFY, OP_CHECKSIG]) [] = Inr (Some [h])"
    unfolding list.map using assms
    by (simp add: template_step [OF GetOp2_op] template_step [OF GetOp2_push20] match_op_def template_end del: of_nat_numeral)
  ultimately show ?thesis using assms by (simp add: Solver_def IsPayToScriptHash_def mTemplates_def)
qed

lemma pubkeys_loop_keys:
  assumes "\<And>k. k \<in> set (v # ks) \<Longrightarrow> 33 \<le> length k \<and> length k \<le> 65" "GetOp2 rest = (True, opcode, [], rest')"
  shows "pubkeys_loop (concat (map (push_data []) ks) @ rest) op v sols = (rest', opcode, [], sols @ v # ks)"
  using assms(1)
proof (induction ks arbitrary: v op sols)
  case Nil
  then show ?case using assms(2)
    by (subst pubkeys_loop.simps) (simp add: pubkeys_loop.simps [of rest' opcode "[]"])
next
  case (Cons k ks)
  have "length k < 2 ^ 32" using Cons.prems [of k] by simp
  then have "GetOp2 (concat (map (push_data []) (k # ks)) @ rest) = (True, push_op k, k, concat (map (push_data []) ks) @ rest)"
    using GetOp2_push_data [of k "concat (map (push_data []) ks) @ rest"] by simp
  then show ?case using Cons.IH [of k "push_op k" "sols @ [v]"] Cons.prems by (subst pubkeys_loop.simps) simp
qed

lemma foldl_push_data: "foldl push_data s ks = s @ concat (map (push_data []) ks)"
proof (induction ks arbitrary: s)
  case (Cons k ks)
  then show ?case using push_data_append [of s k] by simp
qed simp

lemma valid_key_size: "pubkey_wf k \<Longrightarrow> pubkey_IsValid k \<Longrightarrow> pubkey_size k = length k"
  by (cases "k = pubkey_invalid")
    (simp_all add: pubkey_wf_def pubkey_IsValid_def pubkey_invalid_def pubkey_size_def GetLen_def [of 255])

lemma valid_key_length: "pubkey_wf k \<Longrightarrow> pubkey_IsValid k \<Longrightarrow> 33 \<le> length k \<and> length k \<le> 65"
  by (drule (1) valid_key_size [symmetric]) (auto simp: pubkey_IsValid_def pubkey_size_def GetLen_def split: if_splits)

lemma GetScriptForMultisig_eq:
  assumes "m \<le> 16" "length keys \<le> 16" "0 < m" "keys \<noteq> []" "\<And>k. k \<in> set keys \<Longrightarrow> pubkey_wf k \<and> pubkey_IsValid k"
  shows "GetScriptForMultisig (int m) keys =
    Inr (of_nat (80 + m) # concat (map (push_data []) keys) @ [of_nat (80 + length keys), 0xae])"
proof -
  have "foldl (\<lambda>s key. push_data s (take (pubkey_size key) key)) s keys = foldl push_data s keys" for s
    using assms(5) by (intro foldl_cong) (auto simp: valid_key_size)
  then show ?thesis
    using assms(1-4) by (auto simp: GetScriptForMultisig_def EncodeOP_N_def cassert_def push_opcode_def foldl_push_data nat_add_distrib)
qed

lemma GetOp2_number: "0 < m \<Longrightarrow> m \<le> 16 \<Longrightarrow> GetOp2 (of_nat (80 + m) # pc) = (True, 80 + m, [], pc)"
  using GetOp2_template [of "80 + m" pc] by simp

lemma match_op_number: "0 < m \<Longrightarrow> m \<le> 16 \<Longrightarrow> match_op k OP_SMALLINTEGER [] (80 + m) [] sols = Inr (Some (sols @ [[of_nat m]]))"
  by (simp add: match_op_def DecodeOP_N_def cassert_def)

lemma Solver_multisig:
  assumes "0 < m" "m \<le> length keys" "length keys \<le> 16" "\<And>k. k \<in> set keys \<Longrightarrow> 33 \<le> length k \<and> length k \<le> 65"
  defines "s \<equiv> of_nat (80 + m) # concat (map (push_data []) keys) @ [of_nat (80 + length keys), 0xae]"
  shows "Solver datacarrier c s = Inr (True, TX_MULTISIG, [of_nat m] # keys @ [[of_nat (length keys)]])"
proof -
  let ?n = "length keys"
  have m: "m \<le> 16" "0 < ?n" using assms by auto
  obtain k ks where ks: "keys = k # ks" using m by (cases keys) auto
  let ?rest = "of_nat (80 + ?n) # [0xae] :: bytes"
  have g: "GetOp2 s = (True, 80 + m, [], concat (map (push_data []) keys) @ ?rest)"
    using GetOp2_number [OF assms(1) m(1)] by (simp add: s_def)
  have g2: "GetOp2 (concat (map (push_data []) keys) @ ?rest) = (True, push_op k, k, concat (map (push_data []) ks) @ ?rest)"
    using GetOp2_push_data [of k "concat (map (push_data []) ks) @ ?rest"] assms(4) [of k] by (simp add: ks)
  have loop: "pubkeys_loop (concat (map (push_data []) ks) @ ?rest) (push_op k) k sols = ([0xae], 80 + ?n, [], sols @ keys)" for sols
    using pubkeys_loop_keys [of k ks ?rest "80 + ?n" "[0xae]"] assms(4) GetOp2_number [OF m(2) assms(3)] by (simp add: ks)
  have "template_loop c s (map of_nat [OP_PUBKEY, OP_CHECKSIG]) [] = Inr None"
    unfolding list.map by (rule template_no_match [OF g]) (simp_all add: match_op_def)
  moreover have "template_loop c s (map of_nat [OP_DUP, OP_HASH160, OP_PUBKEYHASH, OP_EQUALVERIFY, OP_CHECKSIG]) [] = Inr None"
    unfolding list.map by (rule template_no_match [OF g]) (use m(1) in \<open>simp_all add: match_op_def\<close>)
  moreover have "template_loop c s (map of_nat [OP_SMALLINTEGER, OP_PUBKEYS, OP_SMALLINTEGER, OP_CHECKMULTISIG]) [] =
      Inr (Some ([of_nat m] # keys @ [[of_nat ?n]]))"
    unfolding list.map using assms(1-3) m
    by (simp add: template_step [OF g] template_step_pubkeys [OF g2 loop] match_op_number template_step [OF GetOp2_op] template_end
        match_op_def [of c 174] del: of_nat_numeral of_nat_add)
  moreover have "multisig_ok ([of_nat m] # keys @ [[of_nat ?n]]) = Inr True"
    using assms m by (simp add: multisig_ok_eq word_le_nat_alt)
  moreover have "s ! 0 \<noteq> 0xa9"
  proof
    assume "s ! 0 = 0xa9"
    then have "unat (of_nat (80 + m) :: u8) = unat (0xa9 :: u8)" by (simp add: s_def)
    then show False using m by (simp del: of_nat_add)
  qed
  ultimately show ?thesis by (simp add: Solver_def IsPayToScriptHash_def mTemplates_def)
qed

section \<open>Paying to a key hash\<close>

lemma eval_step_exec:
  assumes "vfExec st = []" "opcode > OP_16" "nOpCount st < 201" "\<not> disabled_opcode opcode"
  shows "eval_step env script opcode [] st = and_then (eval_op env script True opcode (st\<lparr>nOpCount := nOpCount st + 1\<rparr>))
    (\<lambda>st'. if length (stack st') + length (altstack st') > 1000 then Inl (Fail SCRIPT_ERR_STACK_SIZE) else Inr st')"
  using assms by (simp add: eval_step_def)

lemma EvalScript_pushes:
  assumes "2 \<le> length a" "length a \<le> 75" "2 \<le> length b" "length b \<le> 75"
  shows "EvalScript env [] (push_data (push_data [] a) b) = Inr [b, a]" "IsPushOnly (push_data (push_data [] a) b)"
proof -
  have s: "push_data (push_data [] a) b = push_data [] a @ push_data [] b @ []" using push_data_append [of "push_data [] a" b] by simp
  have len: "length (push_data [] a @ push_data [] b @ []) \<le> 152" using assms by (simp add: push_data_def)
  show "EvalScript env [] (push_data (push_data [] a) b) = Inr [b, a]"
    unfolding s EvalScript_def using assms len by (simp add: eval_loop_push eval_step_data del: append_Nil2)
  show "IsPushOnly (push_data (push_data [] a) b)"
    unfolding s using assms by (subst IsPushOnly.simps, subst GetOp2_push_data) (simp_all add: IsPushOnly.simps push_op_def GetOp2_push_data del: append_Nil2)
qed

lemma EvalScript_p2pkh:
  assumes "length h = 20"
  defines "spk \<equiv> 0x76 # 0xa9 # 0x14 # h @ [0x88, 0xac]"
  shows "EvalScript env [pk, vchSig] spk =
    (if Hash160 pk \<noteq> h then Inl (Fail SCRIPT_ERR_EQUALVERIFY)
     else and_then (check_encodings env vchSig pk) (\<lambda>_. Inr [vch_bool (env_CheckSig env vchSig pk spk (env_branchId env))]))"
proof -
  have dup: "eval_step env spk 0x76 [] (initial_state [pk, vchSig]) = Inr \<lparr>stack = [pk, pk, vchSig], altstack = [], vfExec = [], nOpCount = 1\<rparr>"
    by (subst eval_step_exec) (simp_all add: disabled_opcode_def eval_op_def op_stack_def)
  have hash: "eval_step env spk 0xa9 [] \<lparr>stack = [pk, pk, vchSig], altstack = [], vfExec = [], nOpCount = 1\<rparr> =
      Inr \<lparr>stack = [Hash160 pk, pk, vchSig], altstack = [], vfExec = [], nOpCount = 2\<rparr>"
    by (subst eval_step_exec) (simp_all add: disabled_opcode_def eval_op_def op_hash_def Hash160_def)
  have data: "eval_step env spk 20 h \<lparr>stack = [Hash160 pk, pk, vchSig], altstack = [], vfExec = [], nOpCount = 2\<rparr> =
      Inr \<lparr>stack = [h, Hash160 pk, pk, vchSig], altstack = [], vfExec = [], nOpCount = 2\<rparr>"
    using eval_step_data [of "\<lparr>stack = [Hash160 pk, pk, vchSig], altstack = [], vfExec = [], nOpCount = 2\<rparr>" h env spk] assms(1) by simp
  have equal: "eval_step env spk 0x88 [] \<lparr>stack = [h, Hash160 pk, pk, vchSig], altstack = [], vfExec = [], nOpCount = 2\<rparr> =
      (if Hash160 pk \<noteq> h then Inl (Fail SCRIPT_ERR_EQUALVERIFY)
       else Inr \<lparr>stack = [pk, vchSig], altstack = [], vfExec = [], nOpCount = 3\<rparr>)"
    by (subst eval_step_exec) (simp_all add: disabled_opcode_def eval_op_def op_equal_def)
  have checksig: "eval_step env spk 0xac [] \<lparr>stack = [pk, vchSig], altstack = [], vfExec = [], nOpCount = 3\<rparr> =
      and_then (check_encodings env vchSig pk) (\<lambda>_. Inr
        \<lparr>stack = [vch_bool (env_CheckSig env vchSig pk spk (env_branchId env))], altstack = [], vfExec = [], nOpCount = 4\<rparr>)"
    by (subst eval_step_exec) (auto simp: disabled_opcode_def eval_op_def op_checksig_def and_then_def split: sum.split)
  have loop: "eval_loop env spk (initial_state [pk, vchSig]) spk =
      (if Hash160 pk \<noteq> h then Inl (Fail SCRIPT_ERR_EQUALVERIFY)
       else and_then (check_encodings env vchSig pk) (\<lambda>_. Inr
         \<lparr>stack = [vch_bool (env_CheckSig env vchSig pk spk (env_branchId env))], altstack = [], vfExec = [], nOpCount = 4\<rparr>))"
    by (subst (2) spk_def) (simp add: eval_loop_op eval_loop_push20 [OF assms(1)] dup hash data equal checksig and_then_def split: sum.split)
  have "length spk \<le> 10000" using assms by simp
  moreover have "check_encodings env vchSig pk \<noteq> Inl Throw" by (auto simp: check_encodings_def split: sum.splits)
  ultimately show ?thesis by (simp add: EvalScript_def loop and_then_def split: sum.split script_exit.split)
qed

section \<open>Properties\<close>

text \<open>C29: Matching a script against the templates always gives a well-formed answer: the solutions have the shape of the reported type
  (one key, one 20-byte hash, or m, the keys and n with m at most n and n the number of keys), and nothing that reads them by
  position, in the standardness test or in the extraction of destinations, reads past their end or fails a check.\<close>

theorem solver_solutions_well_formed:
  "\<exists>ok t sols r d ds. Solver datacarrier nMaxDatacarrierBytes script = Inr (ok, t, sols) \<and> solver_result ok t sols \<and>
     IsStandard datacarrier nMaxDatacarrierBytes script = Inr r \<and> ExtractDestination datacarrier nMaxDatacarrierBytes script = Inr d \<and>
     ExtractDestinations datacarrier nMaxDatacarrierBytes script = Inr ds"
proof -
  obtain ok t sols where s: "Solver datacarrier nMaxDatacarrierBytes script = Inr (ok, t, sols)" "solver_result ok t sols"
    using Solver_shape [of datacarrier nMaxDatacarrierBytes script] by (auto simp: solver_result_def)
  then have shape: "solution_shape t sols" by (simp add: solver_result_def)
  have "\<exists>r. IsStandard datacarrier nMaxDatacarrierBytes script = Inr r"
    using s(1) shape by (cases t) (auto simp: IsStandard_def simp del: and_then_eq_Inr)
  moreover have d: "\<exists>d. ExtractDestination datacarrier nMaxDatacarrierBytes script = Inr d"
    using s(1) shape by (cases t) (auto simp: ExtractDestination_def uint160_of_def cassert_def Let_def simp del: and_then_eq_Inr)
  moreover have "\<exists>ds. ExtractDestinations datacarrier nMaxDatacarrierBytes script = Inr ds"
    using s(1) shape d by (cases t) (auto simp: ExtractDestinations_def Let_def simp del: and_then_eq_Inr split: option.split)
  ultimately show ?thesis using s by blast
qed

text \<open>C40: The script that pays a key hash or a script hash is recognised as such and gives the destination back, through the templates
  as well as through the address index; the script for m of n keys is recognised as a multisignature script with these keys, and is
  standard exactly for at most three keys.\<close>

theorem destinations_round_trip:
  assumes "length h = 20" "0 < m" "m \<le> length keys" "length keys \<le> 16"
    and "\<And>k. k \<in> set keys \<Longrightarrow> pubkey_wf k \<and> pubkey_IsValid k"
  shows "\<exists>s1 s2 s3. GetScriptForDestination (CKeyID h) = Inr s1 \<and> GetScriptForDestination (CScriptID h) = Inr s2 \<and>
    ExtractDestination datacarrier nMax s1 = Inr (Some (CKeyID h)) \<and> ExtractDestination datacarrier nMax s2 = Inr (Some (CScriptID h)) \<and>
    IsPayToPublicKeyHash s1 \<and> IsPayToScriptHash s2 \<and>
    GetScriptForMultisig (int m) keys = Inr s3 \<and>
    Solver datacarrier nMax s3 = Inr (True, TX_MULTISIG, [of_nat m] # keys @ [[of_nat (length keys)]]) \<and>
    IsStandard datacarrier nMax s3 = Inr (length keys \<le> 3, TX_MULTISIG)"
proof -
  have s1: "ExtractDestination datacarrier nMax (0x76 # 0xa9 # 0x14 # h @ [0x88, 0xac]) = Inr (Some (CKeyID h))"
    using Solver_pubkeyhash [OF assms(1)] assms(1) by (simp add: ExtractDestination_def uint160_of_def cassert_def)
  have p2sh: "IsPayToScriptHash (0xa9 # 0x14 # h @ [0x87])" using assms(1) by (simp add: IsPayToScriptHash_def nth_append)
  then have s2: "ExtractDestination datacarrier nMax (0xa9 # 0x14 # h @ [0x87]) = Inr (Some (CScriptID h))"
    using assms(1) by (simp add: ExtractDestination_def Solver_def uint160_of_def cassert_def)
  have p2pkh: "IsPayToPublicKeyHash (0x76 # 0xa9 # 0x14 # h @ [0x88, 0xac])"
    using assms(1) by (simp add: IsPayToPublicKeyHash_def nth_append)
  let ?s3 = "of_nat (80 + m) # concat (map (push_data []) keys) @ [of_nat (80 + length keys), 0xae]"
  have g3: "GetScriptForMultisig (int m) keys = Inr ?s3" using assms by (intro GetScriptForMultisig_eq) auto
  have sol3: "Solver datacarrier nMax ?s3 = Inr (True, TX_MULTISIG, [of_nat m] # keys @ [[of_nat (length keys)]])"
    using assms valid_key_length by (intro Solver_multisig) auto
  have "IsStandard datacarrier nMax ?s3 = Inr (length keys \<le> 3, TX_MULTISIG)"
    using assms(2-4) sol3 by (auto simp: IsStandard_def word_less_nat_alt simp del: of_nat_add)
  then show ?thesis using GetScriptForDestination_eq [OF assms(1)] s1 s2 p2sh p2pkh g3 sol3 by blast
qed

theorem destinations_round_trip_witness:
  "\<exists>s1 s2 s3. ExtractDestination True 80 s1 = Inr (Some (CKeyID (replicate 20 5))) \<and> GetScriptForMultisig 1 [2 # replicate 32 9] = Inr s3 \<and>
     ExtractDestination True 80 s2 = Inr (Some (CScriptID (replicate 20 5))) \<and> IsStandard True 80 s3 = Inr (True, TX_MULTISIG)"
proof -
  have "pubkey_wf k \<and> pubkey_IsValid k" if "k \<in> set [2 # replicate 32 9]" for k
    using that by (simp add: pubkey_wf_def pubkey_IsValid_def pubkey_size_def GetLen_def)
  from destinations_round_trip [of "replicate 20 5" 1 "[2 # replicate 32 9]" True 80, OF _ _ _ _ this] show ?thesis by auto
qed

text \<open>C12: An input that pushes a signature and a key verifies against a key hash output exactly when the key hashes to the value in the
  output, both encodings are acceptable under the flags, and the signature is valid for the key and the output script.\<close>

theorem p2pkh_verifies_iff:
  assumes "GetScriptForDestination (CKeyID h) = Inr scriptPubKey" "length h = 20"
    and "2 \<le> length vchSig" "length vchSig \<le> 75" "2 \<le> length vchPubKey" "length vchPubKey \<le> 75"
    and "flag env SCRIPT_VERIFY_CLEANSTACK \<Longrightarrow> flag env SCRIPT_VERIFY_P2SH"
  shows "VerifyScript env (push_data (push_data [] vchSig) vchPubKey) scriptPubKey = Inr () \<longleftrightarrow>
    Hash160 vchPubKey = h \<and> check_encodings env vchSig vchPubKey = Inr () \<and>
    env_CheckSig env vchSig vchPubKey scriptPubKey (env_branchId env)"
proof -
  have spk: "scriptPubKey = 0x76 # 0xa9 # 0x14 # h @ [0x88, 0xac]" using assms(1) GetScriptForDestination_eq(1) [OF assms(2)] by (simp del: GetScriptForDestination.simps)
  then have "\<not> IsPayToScriptHash scriptPubKey" using assms(2) by (simp add: IsPayToScriptHash_def)
  moreover note EvalScript_p2pkh [OF assms(2), of env vchPubKey vchSig, folded spk]
  moreover note EvalScript_pushes [OF assms(3-6)]
  ultimately show ?thesis using assms(7)
    by (auto simp: VerifyScript_def eval_true_def and_then_def Let_def split: sum.split)
qed

theorem p2pkh_verifies_iff_witness:
  "VerifyScript (demo_env 0x101 (\<lambda>_ _ _ _. True)) (push_data (push_data [] [0x30, 6, 2, 1, 1, 2, 1, 1, 1]) [2, 2])
     (0x76 # 0xa9 # 0x14 # Hash160 [2, 2] @ [0x88, 0xac]) = Inr ()"
proof -
  let ?env = "demo_env 0x101 (\<lambda>_ _ _ _. True)"
  have flag: "flag ?env SCRIPT_VERIFY_P2SH" by (simp add: flag_def)
  have "check_encodings ?env [0x30, 6, 2, 1, 1, 2, 1, 1, 1] [2, 2] = Inr ()"
    by (simp add: check_encodings_def CheckSignatureEncoding_def CheckPubKeyEncoding_def IsValidSignatureEncoding_def flag_def)
  with p2pkh_verifies_iff [OF GetScriptForDestination_eq(1) _ _ _ _ _ flag, of "Hash160 [2, 2]" "[0x30, 6, 2, 1, 1, 2, 1, 1, 1]" "[2, 2]"]
  show ?thesis by (simp add: length_Hash)
qed

end
