(* ===== verification/TxCheck.thy ===== *)
theory TxCheck
  imports Transaction Standard
begin

unbundle bit_operations_syntax

text \<open>
  The checks on a single transaction in \<^verbatim>\<open>main.cpp\<close> that need no coins: finality, expiry, standardness and \<open>CheckTransaction\<close>, with
  the validation state of \<^verbatim>\<open>consensus/validation.h\<close>.

  A check that ends with \<open>return state.DoS(level, error(...), REJECT_INVALID, reason)\<close> is the exit \<open>Reject level reason\<close>; an
  exception that leaves the function is \<open>Escape\<close>. The zero-knowledge proof verifier and the hash of a join split are parameters.
\<close>

section \<open>The validation state\<close>

datatype mode_state = MODE_VALID | MODE_INVALID | MODE_ERROR

record CValidationState =
  state_mode :: mode_state
  nDoS :: int
  strRejectReason :: string
  chRejectCode :: u8
  corruptionPossible :: bool

abbreviation (input) REJECT_INVALID :: u8 where "REJECT_INVALID \<equiv> 0x10"

definition CValidationState_init :: CValidationState where
  "CValidationState_init = \<lparr>state_mode = MODE_VALID, nDoS = 0, strRejectReason = [], chRejectCode = 0, corruptionPossible = False\<rparr>"

definition state_DoS :: "int \<Rightarrow> bool \<Rightarrow> u8 \<Rightarrow> string \<Rightarrow> bool \<Rightarrow> CValidationState \<Rightarrow> bool \<times> CValidationState" where
  "state_DoS level ret chRejectCodeIn strRejectReasonIn corruptionIn st =
     (let st = st\<lparr>chRejectCode := chRejectCodeIn, strRejectReason := strRejectReasonIn, corruptionPossible := corruptionIn\<rparr> in
      if state_mode st = MODE_ERROR then (ret, st) else (ret, st\<lparr>nDoS := nDoS st + level, state_mode := MODE_INVALID\<rparr>))"

definition state_Invalid :: "bool \<Rightarrow> u8 \<Rightarrow> string \<Rightarrow> CValidationState \<Rightarrow> bool \<times> CValidationState" where
  "state_Invalid ret code reason st = state_DoS 0 ret code reason False st"

definition state_Error :: "string \<Rightarrow> CValidationState \<Rightarrow> bool \<times> CValidationState" where
  "state_Error reason st = (False, (if state_mode st = MODE_VALID then st\<lparr>strRejectReason := reason\<rparr> else st)\<lparr>state_mode := MODE_ERROR\<rparr>)"

datatype check_exit = Reject int string | Escape failure

type_synonym check = "check_exit + unit"

definition reject_if :: "bool \<Rightarrow> int \<Rightarrow> string \<Rightarrow> check" where
  "reject_if c level reason = (if c then Inl (Reject level reason) else Inr ())"

definition escape :: "failure + 'a \<Rightarrow> check_exit + 'a" where
  "escape r = (case r of Inl e \<Rightarrow> Inl (Escape e) | Inr x \<Rightarrow> Inr x)"

text \<open>How a check ends: the result and the state, or the exception.\<close>

definition run_check :: "check \<Rightarrow> CValidationState \<Rightarrow> failure + bool \<times> CValidationState" where
  "run_check c st = (case c of Inr _ \<Rightarrow> Inr (True, st)
     | Inl (Reject level reason) \<Rightarrow> Inr (state_DoS level False REJECT_INVALID reason False st)
     | Inl (Escape e) \<Rightarrow> Inl e)"

section \<open>Finality and expiry\<close>

abbreviation (input) LOCKTIME_THRESHOLD :: int where "LOCKTIME_THRESHOLD \<equiv> 500000000"

definition IsFinalTx :: "CTransaction \<Rightarrow> int \<Rightarrow> int \<Rightarrow> bool" where
  "IsFinalTx tx nBlockHeight nBlockTime =
     (if nLockTime tx = 0 then True
      else if uint (nLockTime tx) < (if uint (nLockTime tx) < LOCKTIME_THRESHOLD then nBlockHeight else nBlockTime) then True
      else list_all txin_IsFinal (vin tx))"

definition IsExpiredTx :: "CTransaction \<Rightarrow> int \<Rightarrow> bool" where
  "IsExpiredTx tx nBlockHeight =
     (if nExpiryHeight tx = 0 \<or> IsCoinBase tx then False
      else (word_of_int nBlockHeight :: u32) > nExpiryHeight tx)"

abbreviation (input) TX_EXPIRING_SOON_THRESHOLD :: u32 where "TX_EXPIRING_SOON_THRESHOLD \<equiv> 3"

text \<open>The sum of an \<open>int\<close> and the unsigned threshold is unsigned, and is converted back to \<open>int\<close> for the call.\<close>

definition IsExpiringSoonTx :: "CTransaction \<Rightarrow> int \<Rightarrow> bool" where
  "IsExpiringSoonTx tx nNextBlockHeight = IsExpiredTx tx (sint ((word_of_int nNextBlockHeight :: u32) + TX_EXPIRING_SOON_THRESHOLD))"

section \<open>Standard transactions\<close>

record relay_policy =
  datacarrier :: bool
  nMaxDatacarrierBytes :: nat
  fIsBareMultisigStd :: bool
  minRelayTxFee :: CFeeRate

text \<open>The reason a transaction is not standard, or \<open>None\<close>.\<close>

definition version_standard :: "bool \<Rightarrow> bool \<Rightarrow> CTransaction \<Rightarrow> string option" where
  "version_standard overwinterActive saplingActive tx =
     (if saplingActive then
        if nVersion tx > 4 \<or> nVersion tx < 4 then Some ''sapling-version'' else None
      else if overwinterActive then
        if nVersion tx > 3 \<or> nVersion tx < 3 then Some ''overwinter-version'' else None
      else
        if nVersion tx > 2 \<or> nVersion tx < 1 then Some ''version'' else None)"

fun txins_standard :: "CTxIn list \<Rightarrow> string option" where
  "txins_standard [] = None"
| "txins_standard (txin # txins) =
     (if length (scriptSig txin) > 1650 then Some ''scriptsig-size''
      else if \<not> IsPushOnly (scriptSig txin) then Some ''scriptsig-not-pushonly''
      else txins_standard txins)"

fun txouts_standard :: "relay_policy \<Rightarrow> nat \<Rightarrow> CTxOut list \<Rightarrow> failure + string option" where
  "txouts_standard pol nDataOut [] = Inr (if nDataOut > 1 then Some ''multi-op-return'' else None)"
| "txouts_standard pol nDataOut (txout # txouts) =
     and_then (IsStandard (datacarrier pol) (nMaxDatacarrierBytes pol) (scriptPubKey txout)) (\<lambda>(std, whichType).
     if \<not> std then Inr (Some ''scriptpubkey'')
     else if whichType = TX_NULL_DATA then txouts_standard pol (nDataOut + 1) txouts
     else if whichType = TX_MULTISIG \<and> \<not> fIsBareMultisigStd pol then Inr (Some ''bare-multisig'')
     else if IsDust (minRelayTxFee pol) txout then Inr (Some ''dust'')
     else txouts_standard pol nDataOut txouts)"

definition IsStandardTx :: "relay_policy \<Rightarrow> CTransaction \<Rightarrow> Params \<Rightarrow> int \<Rightarrow> failure + string option" where
  "IsStandardTx pol tx chainparams nHeight =
     and_then (NetworkUpgradeActive chainparams nHeight UPGRADE_OVERWINTER) (\<lambda>overwinterActive.
     and_then (NetworkUpgradeActive chainparams nHeight UPGRADE_SAPLING) (\<lambda>saplingActive.
     case version_standard overwinterActive saplingActive tx of Some reason \<Rightarrow> Inr (Some reason)
     | None \<Rightarrow> (case txins_standard (vin tx) of Some reason \<Rightarrow> Inr (Some reason)
       | None \<Rightarrow> txouts_standard pol 0 (vout tx))))"

fun sum_counts :: "(failure + nat) list \<Rightarrow> failure + nat" where
  "sum_counts [] = Inr 0"
| "sum_counts (r # rs) = and_then r (\<lambda>n. and_then (sum_counts rs) (\<lambda>m. Inr ((n + m) mod 2 ^ 32)))"

definition GetLegacySigOpCount :: "CTransaction \<Rightarrow> failure + nat" where
  "GetLegacySigOpCount tx = sum_counts (map (\<lambda>txin. GetSigOpCount False (scriptSig txin)) (vin tx) @
     map (\<lambda>txout. GetSigOpCount False (scriptPubKey txout)) (vout tx))"

section \<open>Context-free checks\<close>

definition check_version :: "CTransaction \<Rightarrow> check" where
  "check_version tx =
     (if \<not> fOverwintered tx \<and> nVersion tx < 1 then Inl (Reject 100 ''bad-txns-version-too-low'')
      else if fOverwintered tx then
        if nVersion tx < 3 then Inl (Reject 100 ''bad-tx-overwinter-version-too-low'')
        else if nVersionGroupId tx \<noteq> OVERWINTER_VERSION_GROUP_ID \<and> nVersionGroupId tx \<noteq> SAPLING_VERSION_GROUP_ID
          then Inl (Reject 100 ''bad-tx-version-group-id'')
        else if nExpiryHeight tx \<ge> 500000000 then Inl (Reject 100 ''bad-tx-expiry-height-too-high'')
        else Inr ()
      else Inr ())"

fun check_outputs :: "int \<Rightarrow> CTxOut list \<Rightarrow> check_exit + int" where
  "check_outputs nValueOut [] = Inr nValueOut"
| "check_outputs nValueOut (txout # txouts) =
     (if nValue txout < 0 then Inl (Reject 100 ''bad-txns-vout-negative'')
      else if nValue txout > MAX_MONEY then Inl (Reject 100 ''bad-txns-vout-toolarge'')
      else let nValueOut = nValueOut + nValue txout in
      if \<not> MoneyRange nValueOut then Inl (Reject 100 ''bad-txns-txouttotal-toolarge'')
      else check_outputs nValueOut txouts)"

definition check_balance :: "CTransaction \<Rightarrow> int \<Rightarrow> check_exit + int" where
  "check_balance tx nValueOut =
     (if vShieldedSpend tx = [] \<and> vShieldedOutput tx = [] \<and> valueBalance tx \<noteq> 0 then Inl (Reject 100 ''bad-txns-valuebalance-nonzero'')
      else if valueBalance tx > MAX_MONEY \<or> valueBalance tx < - MAX_MONEY then Inl (Reject 100 ''bad-txns-valuebalance-toolarge'')
      else if valueBalance tx \<le> 0 then
        let nValueOut = nValueOut + - valueBalance tx in
        if \<not> MoneyRange nValueOut then Inl (Reject 100 ''bad-txns-txouttotal-toolarge'') else Inr nValueOut
      else Inr nValueOut)"

fun check_joinsplits :: "int \<Rightarrow> JSDescription list \<Rightarrow> check_exit + int" where
  "check_joinsplits nValueOut [] = Inr nValueOut"
| "check_joinsplits nValueOut (joinsplit # joinsplits) =
     (if vpub_old joinsplit < 0 then Inl (Reject 100 ''bad-txns-vpub_old-negative'')
      else if vpub_new joinsplit < 0 then Inl (Reject 100 ''bad-txns-vpub_new-negative'')
      else if vpub_old joinsplit > MAX_MONEY then Inl (Reject 100 ''bad-txns-vpub_old-toolarge'')
      else if vpub_new joinsplit > MAX_MONEY then Inl (Reject 100 ''bad-txns-vpub_new-toolarge'')
      else if vpub_new joinsplit \<noteq> 0 \<and> vpub_old joinsplit \<noteq> 0 then Inl (Reject 100 ''bad-txns-vpubs-both-nonzero'')
      else let nValueOut = nValueOut + vpub_old joinsplit in
      if \<not> MoneyRange nValueOut then Inl (Reject 100 ''bad-txns-txouttotal-toolarge'')
      else check_joinsplits nValueOut joinsplits)"

fun check_values_in :: "int \<Rightarrow> JSDescription list \<Rightarrow> check_exit + int" where
  "check_values_in nValueIn [] = Inr nValueIn"
| "check_values_in nValueIn (joinsplit # joinsplits) = (let nValueIn = nValueIn + vpub_new joinsplit in
     if \<not> MoneyRange (vpub_new joinsplit) \<or> \<not> MoneyRange nValueIn then Inl (Reject 100 ''bad-txns-txintotal-toolarge'')
     else check_values_in nValueIn joinsplits)"

fun check_duplicates :: "string \<Rightarrow> 'a set \<Rightarrow> 'a list \<Rightarrow> check" where
  "check_duplicates reason seen [] = Inr ()"
| "check_duplicates reason seen (x # xs) =
     (if x \<in> seen then Inl (Reject 100 reason) else check_duplicates reason (insert x seen) xs)"

definition check_coinbase :: "CTransaction \<Rightarrow> check" where
  "check_coinbase tx =
     (if IsCoinBase tx then
        if length (vJoinSplit tx) > 0 then Inl (Reject 100 ''bad-cb-has-joinsplits'')
        else if length (vShieldedSpend tx) > 0 then Inl (Reject 100 ''bad-cb-has-spend-description'')
        else if length (vShieldedOutput tx) > 0 then Inl (Reject 100 ''bad-cb-has-output-description'')
        else if length (scriptSig (vin tx ! 0)) < 2 \<or> length (scriptSig (vin tx ! 0)) > 100 then Inl (Reject 100 ''bad-cb-length'')
        else Inr ()
      else if list_ex (\<lambda>txin. outpoint_IsNull (prevout txin)) (vin tx) then Inl (Reject 10 ''bad-txns-prevout-null'')
      else Inr ())"

definition tx_check :: "CTransaction \<Rightarrow> check" where
  "tx_check tx =
     and_then (check_version tx) (\<lambda>_.
     and_then (reject_if (vin tx = [] \<and> vJoinSplit tx = [] \<and> vShieldedSpend tx = []) 10 ''bad-txns-vin-empty'') (\<lambda>_.
     and_then (reject_if (vout tx = [] \<and> vJoinSplit tx = [] \<and> vShieldedOutput tx = []) 10 ''bad-txns-vout-empty'') (\<lambda>_.
     and_then (escape (GetSerializeSize_tx tx)) (\<lambda>nSize.
     and_then (reject_if (nSize > 2000000) 100 ''bad-txns-oversize'') (\<lambda>_.
     and_then (check_outputs 0 (vout tx)) (\<lambda>nValueOut.
     and_then (check_balance tx nValueOut) (\<lambda>nValueOut.
     and_then (check_joinsplits nValueOut (vJoinSplit tx)) (\<lambda>_.
     and_then (check_values_in 0 (vJoinSplit tx)) (\<lambda>nValueIn.
     and_then (reject_if (valueBalance tx \<ge> 0 \<and> \<not> MoneyRange (nValueIn + valueBalance tx)) 100 ''bad-txns-txintotal-toolarge'') (\<lambda>_.
     and_then (check_duplicates ''bad-txns-inputs-duplicate'' {} (map prevout (vin tx))) (\<lambda>_.
     and_then (check_duplicates ''bad-joinsplits-nullifiers-duplicate'' {} (concat (map nullifiers (vJoinSplit tx)))) (\<lambda>_.
     and_then (check_duplicates ''bad-spend-description-nullifiers-duplicate'' {} (map spend_nullifier (vShieldedSpend tx))) (\<lambda>_.
     check_coinbase tx)))))))))))))"

definition CheckTransactionWithoutProofVerification :: "CTransaction \<Rightarrow> CValidationState \<Rightarrow> failure + bool \<times> CValidationState" where
  "CheckTransactionWithoutProofVerification tx st = run_check (tx_check tx) st"

record zk_verifier =
  zk_h_sig :: "bytes \<Rightarrow> bytes list \<Rightarrow> bytes \<Rightarrow> bytes"
  sprout_verify :: "bytes \<Rightarrow> bytes \<Rightarrow> bytes \<Rightarrow> bytes list \<Rightarrow> bytes list \<Rightarrow> bytes list \<Rightarrow> int \<Rightarrow> int \<Rightarrow> bool"

definition js_Verify :: "zk_verifier \<Rightarrow> JSDescription \<Rightarrow> bytes \<Rightarrow> bool" where
  "js_Verify zk jsdesc pubKey = (case js_proof jsdesc of PHGR _ \<Rightarrow> False
     | Groth proof \<Rightarrow> let h_sig = zk_h_sig zk (randomSeed jsdesc) (nullifiers jsdesc) pubKey in
         sprout_verify zk proof (js_anchor jsdesc) h_sig (macs jsdesc) (nullifiers jsdesc) (commitments jsdesc)
           (vpub_old jsdesc) (vpub_new jsdesc))"

text \<open>\<open>CheckTransaction\<close> also counts the transactions it validates; the counter is an argument and part of the result.\<close>

definition CheckTransaction :: "zk_verifier \<Rightarrow> u64 \<Rightarrow> CTransaction \<Rightarrow> CValidationState \<Rightarrow> failure + bool \<times> CValidationState \<times> u64" where
  "CheckTransaction zk transactionsValidated tx st =
     (let transactionsValidated = (if \<not> IsCoinBase tx then transactionsValidated + 1 else transactionsValidated) in
      and_then (CheckTransactionWithoutProofVerification tx st) (\<lambda>(ok, st).
      if \<not> ok then Inr (False, st, transactionsValidated)
      else if list_all (\<lambda>joinsplit. js_Verify zk joinsplit (joinSplitPubKey tx)) (vJoinSplit tx) then Inr (True, st, transactionsValidated)
      else let (ok, st) = state_DoS 100 False REJECT_INVALID ''bad-txns-joinsplit-verification-failed'' False st
        in Inr (ok, st, transactionsValidated)))"

section \<open>What the checks accept\<close>

lemma check_outputs_Inr:
  assumes "0 \<le> n"
  shows "check_outputs n outs = Inr m \<longleftrightarrow> m = n + sum_list (map nValue outs) \<and> (\<forall>x \<in> set outs. 0 \<le> nValue x) \<and> (outs = [] \<or> m \<le> MAX_MONEY)"
  using assms
proof (induction outs arbitrary: n)
  case (Cons x outs)
  have nonneg: "0 \<le> sum_list (map nValue outs)" if "\<forall>x \<in> set outs. 0 \<le> nValue x" using that by (intro sum_list_nonneg) auto
  show ?case
  proof (cases "nValue x < 0 \<or> nValue x > MAX_MONEY \<or> \<not> MoneyRange (n + nValue x)")
    case True
    then show ?thesis using nonneg Cons.prems by (auto simp: MoneyRange_def Let_def)
  next
    case False
    then have "check_outputs n (x # outs) = check_outputs (n + nValue x) outs" by (auto simp: Let_def)
    then show ?thesis using Cons.IH [of "n + nValue x"] False Cons.prems by (auto simp: MoneyRange_def)
  qed
qed auto

lemma check_joinsplits_Inr:
  assumes "0 \<le> n"
  shows "check_joinsplits n js = Inr m \<longleftrightarrow> m = n + sum_list (map vpub_old js) \<and>
    (\<forall>j \<in> set js. 0 \<le> vpub_old j \<and> 0 \<le> vpub_new j \<and> vpub_new j \<le> MAX_MONEY \<and> (vpub_new j = 0 \<or> vpub_old j = 0)) \<and> (js = [] \<or> m \<le> MAX_MONEY)"
  using assms
proof (induction js arbitrary: n)
  case (Cons x js)
  have nonneg: "0 \<le> sum_list (map vpub_old js)" if "\<forall>j \<in> set js. 0 \<le> vpub_old j" using that by (intro sum_list_nonneg) auto
  let ?bad = "vpub_old x < 0 \<or> vpub_new x < 0 \<or> vpub_old x > MAX_MONEY \<or> vpub_new x > MAX_MONEY \<or> (vpub_new x \<noteq> 0 \<and> vpub_old x \<noteq> 0) \<or>
    \<not> MoneyRange (n + vpub_old x)"
  show ?case
  proof (cases ?bad)
    case True
    then have "check_joinsplits n (x # js) \<noteq> Inr m" by (auto simp: Let_def)
    then show ?thesis using True nonneg Cons.prems by (fastforce simp: MoneyRange_def)
  next
    case False
    then have "check_joinsplits n (x # js) = check_joinsplits (n + vpub_old x) js" by (auto simp: Let_def)
    then show ?thesis using Cons.IH [of "n + vpub_old x"] False Cons.prems by (auto simp: MoneyRange_def)
  qed
qed auto

lemma check_values_in_Inr:
  assumes "0 \<le> n"
  shows "check_values_in n js = Inr m \<longleftrightarrow> m = n + sum_list (map vpub_new js) \<and> (\<forall>j \<in> set js. 0 \<le> vpub_new j) \<and> (js = [] \<or> m \<le> MAX_MONEY)"
  using assms
proof (induction js arbitrary: n)
  case (Cons x js)
  have nonneg: "0 \<le> sum_list (map vpub_new js)" if "\<forall>j \<in> set js. 0 \<le> vpub_new j" using that by (intro sum_list_nonneg) auto
  show ?case
  proof (cases "\<not> MoneyRange (vpub_new x) \<or> \<not> MoneyRange (n + vpub_new x)")
    case True
    then show ?thesis using nonneg Cons.prems by (fastforce simp: MoneyRange_def Let_def)
  next
    case False
    then have "check_values_in n (x # js) = check_values_in (n + vpub_new x) js" by (auto simp: Let_def)
    then show ?thesis using Cons.IH [of "n + vpub_new x"] False Cons.prems by (auto simp: MoneyRange_def)
  qed
qed auto

lemma value_loop_Inr:
  assumes "0 \<le> n"
  shows "value_loop msg n vs = Inr m \<longleftrightarrow> m = n + sum_list vs \<and> (\<forall>v \<in> set vs. 0 \<le> v) \<and> (vs = [] \<or> m \<le> MAX_MONEY)"
  using assms
proof (induction vs arbitrary: n)
  case (Cons x vs)
  have nonneg: "0 \<le> sum_list vs" if "\<forall>v \<in> set vs. 0 \<le> v" using that by (intro sum_list_nonneg) auto
  show ?case
  proof (cases "\<not> MoneyRange x \<or> \<not> MoneyRange (n + x)")
    case True
    then show ?thesis using nonneg Cons.prems by (fastforce simp: MoneyRange_def Let_def)
  next
    case False
    then have "value_loop msg n (x # vs) = value_loop msg (n + x) vs" by (auto simp: Let_def)
    then show ?thesis using Cons.IH [of "n + x"] False Cons.prems by (auto simp: MoneyRange_def)
  qed
qed auto

lemma check_duplicates_Inr: "check_duplicates reason seen xs = Inr u \<longleftrightarrow> distinct xs \<and> set xs \<inter> seen = {}"
  by (induction xs arbitrary: seen) auto

text \<open>The amounts that a transaction moves into and out of the transparent pool, and the rules it has to meet.\<close>

definition value_out :: "CTransaction \<Rightarrow> int" where
  "value_out tx = sum_list (map nValue (vout tx)) + max 0 (- valueBalance tx) + sum_list (map vpub_old (vJoinSplit tx))"

definition shielded_value_in :: "CTransaction \<Rightarrow> int" where
  "shielded_value_in tx = max 0 (valueBalance tx) + sum_list (map vpub_new (vJoinSplit tx))"

definition version_ok :: "CTransaction \<Rightarrow> bool" where
  "version_ok tx \<longleftrightarrow> (if fOverwintered tx then nVersion tx \<ge> 3 \<and>
       nVersionGroupId tx \<in> {OVERWINTER_VERSION_GROUP_ID, SAPLING_VERSION_GROUP_ID} \<and> nExpiryHeight tx < 500000000
     else nVersion tx \<ge> 1)"

definition amounts_ok :: "CTransaction \<Rightarrow> bool" where
  "amounts_ok tx \<longleftrightarrow> (\<forall>txout \<in> set (vout tx). 0 \<le> nValue txout) \<and> \<bar>valueBalance tx\<bar> \<le> MAX_MONEY \<and>
     (vShieldedSpend tx = [] \<and> vShieldedOutput tx = [] \<longrightarrow> valueBalance tx = 0) \<and>
     (\<forall>j \<in> set (vJoinSplit tx). 0 \<le> vpub_old j \<and> 0 \<le> vpub_new j \<and> (vpub_new j = 0 \<or> vpub_old j = 0)) \<and>
     value_out tx \<le> MAX_MONEY \<and> shielded_value_in tx \<le> MAX_MONEY"

definition coinbase_ok :: "CTransaction \<Rightarrow> bool" where
  "coinbase_ok tx \<longleftrightarrow> (if IsCoinBase tx then vJoinSplit tx = [] \<and> vShieldedSpend tx = [] \<and> vShieldedOutput tx = [] \<and>
       2 \<le> length (scriptSig (vin tx ! 0)) \<and> length (scriptSig (vin tx ! 0)) \<le> 100
     else (\<forall>txin \<in> set (vin tx). \<not> outpoint_IsNull (prevout txin)))"

definition tx_well_formed :: "CTransaction \<Rightarrow> bool" where
  "tx_well_formed tx \<longleftrightarrow> version_ok tx \<and>
     (vin tx \<noteq> [] \<or> vJoinSplit tx \<noteq> [] \<or> vShieldedSpend tx \<noteq> []) \<and> (vout tx \<noteq> [] \<or> vJoinSplit tx \<noteq> [] \<or> vShieldedOutput tx \<noteq> []) \<and>
     (\<exists>b. tx_Serialize tx = Inr b \<and> length b \<le> 2000000) \<and> amounts_ok tx \<and>
     distinct (map prevout (vin tx)) \<and> distinct (concat (map nullifiers (vJoinSplit tx))) \<and>
     distinct (map spend_nullifier (vShieldedSpend tx)) \<and> coinbase_ok tx"

lemma reject_if_Inr [simp]: "reject_if c n r = Inr u \<longleftrightarrow> \<not> c"
  by (simp add: reject_if_def)

lemma escape_Inr [simp]: "escape r = Inr x \<longleftrightarrow> r = Inr x"
  by (auto simp: escape_def split: sum.splits)

lemma check_version_Inr: "check_version tx = Inr u \<longleftrightarrow> version_ok tx"
  by (auto simp: check_version_def version_ok_def)

lemma check_coinbase_Inr: "check_coinbase tx = Inr u \<longleftrightarrow> coinbase_ok tx"
  by (auto simp: check_coinbase_def coinbase_ok_def list_ex_iff)

lemma sum_list_map_nonneg: "(\<And>x. x \<in> set xs \<Longrightarrow> 0 \<le> f x) \<Longrightarrow> 0 \<le> sum_list (map f xs :: int list)"
  by (rule sum_list_nonneg) auto

lemma elem_le_sum: "(\<And>x. x \<in> set xs \<Longrightarrow> 0 \<le> f x) \<Longrightarrow> y \<in> set xs \<Longrightarrow> f y \<le> sum_list (map f xs :: int list)"
  by (induction xs) (force simp: sum_list_map_nonneg add_increasing add_increasing2)+

lemma check_balance_Inr:
  assumes "0 \<le> n" "n \<le> MAX_MONEY"
  shows "check_balance tx n = Inr m \<longleftrightarrow> m = n + max 0 (- valueBalance tx) \<and> m \<le> MAX_MONEY \<and> \<bar>valueBalance tx\<bar> \<le> MAX_MONEY \<and>
    (vShieldedSpend tx = [] \<and> vShieldedOutput tx = [] \<longrightarrow> valueBalance tx = 0)"
  using assms by (auto simp: check_balance_def MoneyRange_def Let_def)

lemma MAX_MONEY_pos: "0 < MAX_MONEY"
  by (simp add: MAX_MONEY_def)

lemma amount_checks:
  "(\<exists>nValueOut nValueOut' nValueOut'' nValueIn. check_outputs 0 (vout tx) = Inr nValueOut \<and> check_balance tx nValueOut = Inr nValueOut' \<and>
      check_joinsplits nValueOut' (vJoinSplit tx) = Inr nValueOut'' \<and> check_values_in 0 (vJoinSplit tx) = Inr nValueIn \<and>
      \<not> (valueBalance tx \<ge> 0 \<and> \<not> MoneyRange (nValueIn + valueBalance tx))) \<longleftrightarrow> amounts_ok tx" (is "?l \<longleftrightarrow> ?r")
proof
  assume ?l
  then obtain a b c d where ex: "check_outputs 0 (vout tx) = Inr a" "check_balance tx a = Inr b" "check_joinsplits b (vJoinSplit tx) = Inr c"
    "check_values_in 0 (vJoinSplit tx) = Inr d" "valueBalance tx \<ge> 0 \<Longrightarrow> MoneyRange (d + valueBalance tx)" by blast
  have a: "a = sum_list (map nValue (vout tx))" "\<forall>x \<in> set (vout tx). 0 \<le> nValue x" "a \<le> MAX_MONEY"
    using ex(1) MAX_MONEY_pos by (auto simp: check_outputs_Inr)
  then have "0 \<le> a" by (simp add: sum_list_map_nonneg)
  then have b: "b = a + max 0 (- valueBalance tx)" "b \<le> MAX_MONEY" "\<bar>valueBalance tx\<bar> \<le> MAX_MONEY"
    "vShieldedSpend tx = [] \<and> vShieldedOutput tx = [] \<longrightarrow> valueBalance tx = 0"
    using ex(2) a(3) by (auto simp: check_balance_Inr)
  then have "0 \<le> b" using \<open>0 \<le> a\<close> by simp
  then have c: "c = b + sum_list (map vpub_old (vJoinSplit tx))" "c \<le> MAX_MONEY"
    "\<forall>j \<in> set (vJoinSplit tx). 0 \<le> vpub_old j \<and> 0 \<le> vpub_new j \<and> (vpub_new j = 0 \<or> vpub_old j = 0)"
    using ex(3) b(2) by (auto simp: check_joinsplits_Inr)
  have d: "d = sum_list (map vpub_new (vJoinSplit tx))" "d \<le> MAX_MONEY" using ex(4) MAX_MONEY_pos by (auto simp: check_values_in_Inr)
  show ?r
    using a b c d ex(5) by (auto simp: amounts_ok_def value_out_def shielded_value_in_def MoneyRange_def max_def)
next
  assume r: ?r
  have js: "0 \<le> vpub_old j \<and> 0 \<le> vpub_new j \<and> (vpub_new j = 0 \<or> vpub_old j = 0)" if "j \<in> set (vJoinSplit tx)" for j
    using r that by (auto simp: amounts_ok_def)
  define a where "a = sum_list (map nValue (vout tx))"
  define b where "b = a + max 0 (- valueBalance tx)"
  define c where "c = b + sum_list (map vpub_old (vJoinSplit tx))"
  define d where "d = sum_list (map vpub_new (vJoinSplit tx))"
  have nonneg: "0 \<le> a" "0 \<le> sum_list (map vpub_old (vJoinSplit tx))" "0 \<le> d"
    using r js by (auto simp: amounts_ok_def a_def d_def intro!: sum_list_map_nonneg)
  have le: "c \<le> MAX_MONEY" "max 0 (valueBalance tx) + d \<le> MAX_MONEY" "\<bar>valueBalance tx\<bar> \<le> MAX_MONEY"
    using r by (auto simp: amounts_ok_def value_out_def shielded_value_in_def a_def b_def c_def d_def)
  have le': "a \<le> MAX_MONEY" "0 \<le> b" "b \<le> MAX_MONEY" "d \<le> MAX_MONEY" using le nonneg by (auto simp: b_def c_def max_def split: if_splits)
  have "vpub_new j \<le> MAX_MONEY" if "j \<in> set (vJoinSplit tx)" for j
    using elem_le_sum [of "vJoinSplit tx" vpub_new, OF _ that] js le'(4) by (fastforce simp: d_def)
  then have "check_joinsplits b (vJoinSplit tx) = Inr c"
    using js le le' by (auto simp: check_joinsplits_Inr c_def)
  moreover have "check_outputs 0 (vout tx) = Inr a" using r le' by (auto simp: check_outputs_Inr a_def amounts_ok_def)
  moreover have "check_balance tx a = Inr b" using r nonneg le' by (auto simp: check_balance_Inr b_def amounts_ok_def)
  moreover have "check_values_in 0 (vJoinSplit tx) = Inr d" using js le' by (auto simp: check_values_in_Inr d_def)
  moreover have "valueBalance tx \<ge> 0 \<Longrightarrow> MoneyRange (d + valueBalance tx)" using le nonneg by (auto simp: MoneyRange_def)
  ultimately show ?l by blast
qed

lemma tx_check_Inr: "tx_check tx = Inr u \<longleftrightarrow> tx_well_formed tx"
proof -
  have "tx_check tx = Inr u \<longleftrightarrow> version_ok tx \<and>
     (vin tx \<noteq> [] \<or> vJoinSplit tx \<noteq> [] \<or> vShieldedSpend tx \<noteq> []) \<and> (vout tx \<noteq> [] \<or> vJoinSplit tx \<noteq> [] \<or> vShieldedOutput tx \<noteq> []) \<and>
     (\<exists>b. tx_Serialize tx = Inr b \<and> length b \<le> 2000000) \<and>
     (\<exists>nValueOut nValueOut' nValueOut'' nValueIn. check_outputs 0 (vout tx) = Inr nValueOut \<and> check_balance tx nValueOut = Inr nValueOut' \<and>
      check_joinsplits nValueOut' (vJoinSplit tx) = Inr nValueOut'' \<and> check_values_in 0 (vJoinSplit tx) = Inr nValueIn \<and>
      \<not> (valueBalance tx \<ge> 0 \<and> \<not> MoneyRange (nValueIn + valueBalance tx))) \<and>
     distinct (map prevout (vin tx)) \<and> distinct (concat (map nullifiers (vJoinSplit tx))) \<and>
     distinct (map spend_nullifier (vShieldedSpend tx)) \<and> coinbase_ok tx"
    unfolding tx_check_def
    by (simp add: check_version_Inr check_coinbase_Inr check_duplicates_Inr GetSerializeSize_tx_def not_less) blast
  then show ?thesis unfolding amount_checks tx_well_formed_def .
qed

lemma GetValueOut_ok:
  assumes "amounts_ok tx"
  shows "GetValueOut tx = Inr (value_out tx)"
proof -
  have js: "0 \<le> vpub_old j" if "j \<in> set (vJoinSplit tx)" for j using assms that by (auto simp: amounts_ok_def)
  define a where "a = sum_list (map nValue (vout tx))"
  define b where "b = a + max 0 (- valueBalance tx)"
  have nonneg: "0 \<le> a" "0 \<le> sum_list (map vpub_old (vJoinSplit tx))"
    using assms js by (auto simp: amounts_ok_def a_def intro!: sum_list_map_nonneg)
  have v: "value_out tx = b + sum_list (map vpub_old (vJoinSplit tx))" by (simp add: value_out_def a_def b_def)
  have le: "value_out tx \<le> MAX_MONEY" "\<bar>valueBalance tx\<bar> \<le> MAX_MONEY" using assms by (auto simp: amounts_ok_def)
  have le': "a \<le> MAX_MONEY" "0 \<le> b" "b \<le> MAX_MONEY" using le nonneg unfolding v by (auto simp: b_def max_def split: if_splits)
  have "value_loop msg 0 (map nValue (vout tx)) = Inr a" for msg
    using assms le' by (auto simp: value_loop_Inr a_def amounts_ok_def)
  moreover have "value_loop msg b (map vpub_old (vJoinSplit tx)) = Inr (value_out tx)" for msg
    using js le le' v by (auto simp: value_loop_Inr)
  moreover have "valueBalance tx \<le> 0 \<Longrightarrow> MoneyRange (- valueBalance tx) \<and> a + - valueBalance tx = b \<and> MoneyRange b" "\<not> valueBalance tx \<le> 0 \<Longrightarrow> a = b"
    using le le' nonneg by (auto simp: MoneyRange_def b_def)
  ultimately show ?thesis
    by (cases "valueBalance tx \<le> 0") (simp_all add: GetValueOut_def Let_def del: and_then_eq_Inr)
qed

lemma GetShieldedValueIn_ok:
  assumes "amounts_ok tx"
  shows "GetShieldedValueIn tx = Inr (shielded_value_in tx)"
proof -
  have js: "0 \<le> vpub_new j" if "j \<in> set (vJoinSplit tx)" for j using assms that by (auto simp: amounts_ok_def)
  then have nonneg: "0 \<le> sum_list (map vpub_new (vJoinSplit tx))" by (rule sum_list_map_nonneg)
  have le: "shielded_value_in tx \<le> MAX_MONEY" "\<bar>valueBalance tx\<bar> \<le> MAX_MONEY" using assms by (auto simp: amounts_ok_def)
  have "value_loop msg (max 0 (valueBalance tx)) (map vpub_new (vJoinSplit tx)) = Inr (shielded_value_in tx)" for msg
    using js le by (auto simp: value_loop_Inr shielded_value_in_def)
  then show ?thesis
    using le by (cases "valueBalance tx \<ge> 0") (simp_all add: GetShieldedValueIn_def MoneyRange_def Let_def del: and_then_eq_Inr)
qed

lemma CheckTransaction_True:
  "CheckTransactionWithoutProofVerification tx st = Inr (True, st') \<longleftrightarrow> st' = st \<and> tx_well_formed tx"
  using tx_check_Inr [of tx "()"]
  by (auto simp: CheckTransactionWithoutProofVerification_def run_check_def state_DoS_def Let_def split: sum.splits check_exit.splits)

section \<open>Properties\<close>

text \<open>C17: The context-free checks accept a transaction exactly when it meets the rules: a supported version, at least one input and one
  output of some kind, a serialization of at most two million bytes, non-negative amounts whose totals stay within the money range, no
  input and no nullifier used twice, and the form of a coinbase or else no null input. The validation state is then unchanged.\<close>

theorem transaction_checks_exact:
  "CheckTransactionWithoutProofVerification tx st = Inr (True, st') \<longleftrightarrow> st' = st \<and> tx_well_formed tx"
  by (rule CheckTransaction_True)

text \<open>C18: For a transaction that passed the checks, the totals that later stages compute never raise an exception: the value that leaves
  the transparent pool and the value that enters it are the exact sums, and lie within the money range.\<close>

theorem checked_transaction_values:
  assumes "CheckTransactionWithoutProofVerification tx st = Inr (True, st')"
  shows "GetValueOut tx = Inr (value_out tx) \<and> GetShieldedValueIn tx = Inr (shielded_value_in tx) \<and>
    MoneyRange (value_out tx) \<and> MoneyRange (shielded_value_in tx)"
proof -
  have ok: "amounts_ok tx" using assms by (simp add: CheckTransaction_True tx_well_formed_def)
  then have "0 \<le> value_out tx" "0 \<le> shielded_value_in tx"
    unfolding value_out_def shielded_value_in_def by (intro add_nonneg_nonneg sum_list_map_nonneg; auto simp: amounts_ok_def)+
  then show ?thesis using ok GetValueOut_ok GetShieldedValueIn_ok by (auto simp: MoneyRange_def amounts_ok_def)
qed

abbreviation (input) demo_tx :: CTransaction where
  "demo_tx \<equiv> CMutableTransaction\<lparr>vin := [\<lparr>prevout = \<lparr>out_hash = replicate 32 1, out_n = 0\<rparr>, scriptSig = [], nSequence = 0\<rparr>],
     vout := [\<lparr>nValue = 5, scriptPubKey = [0x51]\<rparr>]\<rparr>"

theorem checked_transaction_values_witness:
  "GetValueOut demo_tx = Inr (value_out demo_tx) \<and> MoneyRange (value_out demo_tx)"
proof -
  have ser: "tx_Serialize demo_tx = Inr (tx_bytes demo_tx)"
    by (rule tx_Serialize_ok) (simp add: ok_tx_def CMutableTransaction_def isSaplingV4_def ok_CTxIn_def ok_COutPoint_def ok_CTxOut_def in_int64_def)
  have len: "length (tx_bytes demo_tx) \<le> 2000000"
    by (simp add: tx_bytes_def CMutableTransaction_def isSaplingV4_def isOverwinterV3_def put_vector_def put_CTxIn_def put_COutPoint_def
        put_bytes_def put_CTxOut_def put_int64_def WriteCompactSize_def ser_writedata8_def)
  have "tx_well_formed demo_tx"
    using ser len by (simp add: tx_well_formed_def version_ok_def amounts_ok_def coinbase_ok_def IsCoinBase_def outpoint_IsNull_def
        CMutableTransaction_def value_out_def shielded_value_in_def MAX_MONEY_def)
  then have "CheckTransactionWithoutProofVerification demo_tx CValidationState_init = Inr (True, CValidationState_init)"
    by (simp add: CheckTransaction_True)
  from checked_transaction_values [OF this] show ?thesis by blast
qed

text \<open>The lock time that a transaction asks for, zero when it is switched off, and the last height at which it can be included.\<close>

definition effective_lock :: "CTransaction \<Rightarrow> int" where
  "effective_lock tx = (if \<exists>txin\<in>set (vin tx). nSequence txin \<noteq> 0xffffffff then uint (nLockTime tx) else 0)"

definition last_height :: "CTransaction \<Rightarrow> int" where
  "last_height tx = (if nExpiryHeight tx = 0 \<or> IsCoinBase tx then 2 ^ 31 - 1 else min (uint (nExpiryHeight tx)) (2 ^ 31 - 1))"

text \<open>C30: The blocks that can include a transaction form one window of heights. It starts right above a lock height, when the lock time is
  one and some input has not switched it off by its sequence number, and at zero otherwise; it ends at the expiry height, or never for a
  coinbase and for a transaction without one; and it is empty as long as the block time is not above a lock that is a time. A
  transaction is reported as expiring soon at a height exactly when it is past the end of the window within three blocks.\<close>

theorem inclusion_window:
  "{h \<in> {0..<2 ^ 31}. IsFinalTx tx h t \<and> \<not> IsExpiredTx tx h} =
     (if effective_lock tx = 0 then {0..last_height tx} else if effective_lock tx < 500000000 then {effective_lock tx<..last_height tx}
      else if effective_lock tx < t then {0..last_height tx} else {}) \<and>
   {h \<in> {0..<2 ^ 31 - 3}. IsExpiringSoonTx tx h} = {h \<in> {0..<2 ^ 31 - 3}. \<exists>k\<in>{0..3}. IsExpiredTx tx (h + k)}"
proof -
  have u: "uint (word_of_int h :: u32) = h" if "0 \<le> h" "h < 2 ^ 31" for h using that by (simp add: uint_word_of_int)
  have expired: "IsExpiredTx tx h \<longleftrightarrow> last_height tx < h" if "0 \<le> h" "h < 2 ^ 31" for h
    using that u [OF that] by (auto simp: IsExpiredTx_def word_less_def last_height_def)
  have m1: "(- 1 :: u32) = 0xffffffff" by simp
  have seq: "txin_IsFinal i \<longleftrightarrow> nSequence i = 0xffffffff" for i by (simp only: txin_IsFinal_def m1)
  have final: "IsFinalTx tx h t \<longleftrightarrow> effective_lock tx = 0 \<or> effective_lock tx < (if effective_lock tx < 500000000 then h else t)" for h
    using uint_0_iff [of "nLockTime tx"] by (auto simp: IsFinalTx_def effective_lock_def list_all_iff seq)
  have soon: "IsExpiringSoonTx tx h \<longleftrightarrow> IsExpiredTx tx (h + 3)" if "0 \<le> h" "h < 2 ^ 31 - 3" for h
  proof -
    have "(word_of_int h :: u32) + 3 = word_of_int (h + 3)" by simp
    moreover have "sint (word_of_int (h + 3) :: u32) = signed_take_bit 31 (h + 3)" using sint_sbintrunc' [where 'a = 32] by (simp only:) simp
    moreover have "signed_take_bit 31 (h + 3) = h + 3" using that by (simp add: signed_take_bit_int_eq_self)
    ultimately show ?thesis by (simp only: IsExpiringSoonTx_def)
  qed
  have "last_height tx < 2 ^ 31" "0 \<le> effective_lock tx" by (simp_all add: last_height_def effective_lock_def min_def)
  then have "{h \<in> {0..<2 ^ 31}. IsFinalTx tx h t \<and> \<not> IsExpiredTx tx h} =
      (if effective_lock tx = 0 then {0..last_height tx} else if effective_lock tx < 500000000 then {effective_lock tx<..last_height tx} else if effective_lock tx < t then {0..last_height tx} else {})"
    using expired final by auto
  moreover have "IsExpiringSoonTx tx h \<longleftrightarrow> (\<exists>k\<in>{0..3}. IsExpiredTx tx (h + k))" if "0 \<le> h" "h < 2 ^ 31 - 3" for h
  proof -
    have "IsExpiringSoonTx tx h \<longleftrightarrow> last_height tx < h + 3" using soon [OF that] expired [of "h + 3"] that by simp
    moreover have "IsExpiredTx tx (h + k) \<longleftrightarrow> last_height tx < h + k" if "k \<in> {0..3}" for k using expired [of "h + k"] that \<open>0 \<le> h\<close> \<open>h < 2 ^ 31 - 3\<close> by simp
    ultimately show ?thesis by force
  qed
  ultimately show ?thesis by auto
qed

theorem inclusion_window_witness:
  "{h \<in> {0..<2 ^ 31}. IsFinalTx (demo_tx\<lparr>nLockTime := 7, nExpiryHeight := 9\<rparr>) h 5 \<and> \<not> IsExpiredTx (demo_tx\<lparr>nLockTime := 7, nExpiryHeight := 9\<rparr>) h} = {8, 9}"
proof -
  let ?tx = "demo_tx\<lparr>nLockTime := 7, nExpiryHeight := 9\<rparr>"
  have "effective_lock ?tx = 7" "last_height ?tx = 9"
    by (simp_all add: effective_lock_def last_height_def IsCoinBase_def outpoint_IsNull_def)
  with conjunct1 [OF inclusion_window [of ?tx 5]]
  have "{h \<in> {0..<2 ^ 31}. IsFinalTx ?tx h 5 \<and> \<not> IsExpiredTx ?tx h} =
    (if (7 :: int) = 0 then {0..9} else if (7 :: int) < 500000000 then {7<..9} else if (7 :: int) < 5 then {0..9} else {})"
    by (simp only:)
  also have "\<dots> = {8, 9}" by auto
  finally show ?thesis .
qed

end
