(* ===== verification/SigHash.thy ===== *)
theory SigHash
  imports TxCheck
begin

unbundle bit_operations_syntax

text \<open>
  The hash that a signature signs and the signature checker of a transaction (second half of \<^verbatim>\<open>script/interpreter.cpp\<close>). BLAKE2b with a
  personalisation, which libsodium provides, is a parameter: \<open>blake personal data\<close> is the digest of the concatenation of everything written.
  A \<open>logic_error\<close>, which \<open>CheckSig\<close> catches, is told apart from other exceptions.
\<close>

section \<open>The code\<close>

type_synonym blake2b = "bytes \<Rightarrow> bytes \<Rightarrow> bytes"

datatype sighash_exit = LogicError string | OtherError failure

definition other_error :: "failure + 'a \<Rightarrow> sighash_exit + 'a" where
  "other_error r = (case r of Inl e \<Rightarrow> Inl (OtherError e) | Inr x \<Rightarrow> Inr x)"

abbreviation (input) NOT_AN_INPUT :: nat where "NOT_AN_INPUT \<equiv> 4294967295"
abbreviation (input) SIGHASH_ALL :: int where "SIGHASH_ALL \<equiv> 1"
abbreviation (input) SIGHASH_NONE :: int where "SIGHASH_NONE \<equiv> 2"
abbreviation (input) SIGHASH_SINGLE :: int where "SIGHASH_SINGLE \<equiv> 3"
abbreviation (input) SIGHASH_ANYONECANPAY :: int where "SIGHASH_ANYONECANPAY \<equiv> 0x80"

definition fAnyoneCanPay :: "int \<Rightarrow> bool" where
  "fAnyoneCanPay nHashType \<longleftrightarrow> nHashType AND SIGHASH_ANYONECANPAY \<noteq> 0"

definition fHashSingle :: "int \<Rightarrow> bool" where
  "fHashSingle nHashType \<longleftrightarrow> nHashType AND 0x1f = SIGHASH_SINGLE"

definition fHashNone :: "int \<Rightarrow> bool" where
  "fHashNone nHashType \<longleftrightarrow> nHashType AND 0x1f = SIGHASH_NONE"

definition ascii :: "string \<Rightarrow> bytes" where
  "ascii s = map (\<lambda>c. of_nat (of_char c)) s"

text \<open>The serializer for transactions before Overwinter. The loops run over the input and output numbers.\<close>

definition SerializeScriptCode :: "CScript \<Rightarrow> bytes" where
  "SerializeScriptCode scriptCode = WriteCompactSize (of_nat (length scriptCode)) @ scriptCode"

definition SerializeInput :: "CTransaction \<Rightarrow> CScript \<Rightarrow> nat \<Rightarrow> int \<Rightarrow> nat \<Rightarrow> failure + bytes" where
  "SerializeInput txTo scriptCode nIn nHashType nInput =
     (let nInput = (if fAnyoneCanPay nHashType then nIn else nInput) in
      and_then (vec_at (vin txTo) nInput) (\<lambda>txin.
      and_then (cassert (nInput \<noteq> NOT_AN_INPUT)) (\<lambda>_.
      Inr (put_COutPoint (prevout txin) @
        (if nInput \<noteq> nIn then put_bytes [] else SerializeScriptCode scriptCode) @
        (if nInput \<noteq> nIn \<and> (fHashSingle nHashType \<or> fHashNone nHashType) then put_int32 0 else WriteLE32 (nSequence txin))))))"

definition SerializeOutput :: "CTransaction \<Rightarrow> nat \<Rightarrow> int \<Rightarrow> nat \<Rightarrow> failure + bytes" where
  "SerializeOutput txTo nIn nHashType nOutput =
     (if fHashSingle nHashType \<and> nOutput \<noteq> nIn then Inr (put_CTxOut txout_null)
      else and_then (vec_at (vout txTo) nOutput) (\<lambda>txout. Inr (put_CTxOut txout)))"

definition SerializeTxTmp :: "CTransaction \<Rightarrow> CScript \<Rightarrow> nat \<Rightarrow> int \<Rightarrow> failure + bytes" where
  "SerializeTxTmp txTo scriptCode nIn nHashType =
     (let nInputs = (if fAnyoneCanPay nHashType then 1 else length (vin txTo));
          nOutputs = (if fHashNone nHashType then 0 else if fHashSingle nHashType then (nIn + 1) mod 2 ^ 32 else length (vout txTo)) in
      and_then (put_each (SerializeInput txTo scriptCode nIn nHashType) [0..<nInputs]) (\<lambda>ins.
      and_then (put_each (SerializeOutput txTo nIn nHashType) [0..<nOutputs]) (\<lambda>outs.
      and_then (if nVersion txTo \<ge> 2 then
          and_then (put_each (put_JSDescription (header_useGroth 0)) (vJoinSplit txTo)) (\<lambda>js.
          Inr (WriteCompactSize (of_nat (length (vJoinSplit txTo))) @ js @
            (if length (vJoinSplit txTo) > 0 then joinSplitPubKey txTo @ replicate 64 0 else [])))
        else Inr []) (\<lambda>js.
      Inr (put_int32 (nVersion txTo) @ WriteCompactSize (of_nat nInputs) @ ins @ WriteCompactSize (of_nat nOutputs) @ outs @
        WriteLE32 (nLockTime txTo) @ js)))))"

definition GetPrevoutHash :: "blake2b \<Rightarrow> CTransaction \<Rightarrow> bytes" where
  "GetPrevoutHash blake txTo = blake (ascii ''ZcashPrevoutHash'') (concat (map (\<lambda>txin. put_COutPoint (prevout txin)) (vin txTo)))"

definition GetSequenceHash :: "blake2b \<Rightarrow> CTransaction \<Rightarrow> bytes" where
  "GetSequenceHash blake txTo = blake (ascii ''ZcashSequencHash'') (concat (map (\<lambda>txin. WriteLE32 (nSequence txin)) (vin txTo)))"

definition GetOutputsHash :: "blake2b \<Rightarrow> CTransaction \<Rightarrow> bytes" where
  "GetOutputsHash blake txTo = blake (ascii ''ZcashOutputsHash'') (concat (map put_CTxOut (vout txTo)))"

definition GetJoinSplitsHash :: "blake2b \<Rightarrow> CTransaction \<Rightarrow> failure + bytes" where
  "GetJoinSplitsHash blake txTo = and_then (put_each (put_JSDescription (header_useGroth (GetHeader txTo))) (vJoinSplit txTo)) (\<lambda>js.
     Inr (blake (ascii ''ZcashJSplitsHash'') (js @ joinSplitPubKey txTo)))"

definition spend_signed :: "SpendDescription \<Rightarrow> bytes" where
  "spend_signed a = spend_cv a @ spend_anchor a @ spend_nullifier a @ spend_rk a @ spend_zkproof a"

definition GetShieldedSpendsHash :: "blake2b \<Rightarrow> CTransaction \<Rightarrow> bytes" where
  "GetShieldedSpendsHash blake txTo = blake (ascii ''ZcashSSpendsHash'') (concat (map spend_signed (vShieldedSpend txTo)))"

definition GetShieldedOutputsHash :: "blake2b \<Rightarrow> CTransaction \<Rightarrow> bytes" where
  "GetShieldedOutputsHash blake txTo = blake (ascii ''ZcashSOutputHash'') (concat (map put_OutputDescription (vShieldedOutput txTo)))"

record PrecomputedTransactionData =
  hashPrevouts :: bytes
  hashSequence :: bytes
  hashOutputs :: bytes
  hashJoinSplits :: bytes
  hashShieldedSpends :: bytes
  hashShieldedOutputs :: bytes

definition PrecomputedTransactionData_of :: "blake2b \<Rightarrow> CTransaction \<Rightarrow> failure + PrecomputedTransactionData" where
  "PrecomputedTransactionData_of blake txTo = and_then (GetJoinSplitsHash blake txTo) (\<lambda>js.
     Inr \<lparr>hashPrevouts = GetPrevoutHash blake txTo, hashSequence = GetSequenceHash blake txTo, hashOutputs = GetOutputsHash blake txTo,
       hashJoinSplits = js, hashShieldedSpends = GetShieldedSpendsHash blake txTo, hashShieldedOutputs = GetShieldedOutputsHash blake txTo\<rparr>)"

datatype SigVersion = SIGVERSION_SPROUT | SIGVERSION_OVERWINTER | SIGVERSION_SAPLING

definition SignatureHashVersion :: "CTransaction \<Rightarrow> SigVersion" where
  "SignatureHashVersion txTo =
     (if fOverwintered txTo then
        if nVersionGroupId txTo = SAPLING_VERSION_GROUP_ID then SIGVERSION_SAPLING else SIGVERSION_OVERWINTER
      else SIGVERSION_SPROUT)"

abbreviation (input) uint256_zero :: bytes where "uint256_zero \<equiv> replicate 32 0"

text \<open>The digests of the parts, from the cache or computed, as the hash type asks for them.\<close>

definition sighash_parts :: "blake2b \<Rightarrow> CTransaction \<Rightarrow> nat \<Rightarrow> int \<Rightarrow> PrecomputedTransactionData option \<Rightarrow> failure + PrecomputedTransactionData" where
  "sighash_parts blake txTo nIn nHashType cache =
     and_then (if vJoinSplit txTo \<noteq> [] then
         (case cache of Some c \<Rightarrow> Inr (hashJoinSplits c) | None \<Rightarrow> GetJoinSplitsHash blake txTo) else Inr uint256_zero) (\<lambda>js.
     Inr \<lparr>hashPrevouts = (if \<not> fAnyoneCanPay nHashType then
           (case cache of Some c \<Rightarrow> hashPrevouts c | None \<Rightarrow> GetPrevoutHash blake txTo) else uint256_zero),
       hashSequence = (if \<not> fAnyoneCanPay nHashType \<and> \<not> fHashSingle nHashType \<and> \<not> fHashNone nHashType then
           (case cache of Some c \<Rightarrow> hashSequence c | None \<Rightarrow> GetSequenceHash blake txTo) else uint256_zero),
       hashOutputs = (if \<not> fHashSingle nHashType \<and> \<not> fHashNone nHashType then
           (case cache of Some c \<Rightarrow> hashOutputs c | None \<Rightarrow> GetOutputsHash blake txTo)
         else if fHashSingle nHashType \<and> nIn < length (vout txTo) then
           blake (ascii ''ZcashOutputsHash'') (put_CTxOut (vout txTo ! nIn))
         else uint256_zero),
       hashJoinSplits = js,
       hashShieldedSpends = (if vShieldedSpend txTo \<noteq> [] then
           (case cache of Some c \<Rightarrow> hashShieldedSpends c | None \<Rightarrow> GetShieldedSpendsHash blake txTo) else uint256_zero),
       hashShieldedOutputs = (if vShieldedOutput txTo \<noteq> [] then
           (case cache of Some c \<Rightarrow> hashShieldedOutputs c | None \<Rightarrow> GetShieldedOutputsHash blake txTo) else uint256_zero)\<rparr>)"

definition sighash_message :: "CScript \<Rightarrow> CTransaction \<Rightarrow> nat \<Rightarrow> int \<Rightarrow> int \<Rightarrow> PrecomputedTransactionData \<Rightarrow> bytes" where
  "sighash_message scriptCode txTo nIn nHashType amount p =
     (let sapling = (SignatureHashVersion txTo = SIGVERSION_SAPLING) in
      WriteLE32 (GetHeader txTo) @ WriteLE32 (nVersionGroupId txTo) @ hashPrevouts p @ hashSequence p @ hashOutputs p @ hashJoinSplits p @
      (if sapling then hashShieldedSpends p @ hashShieldedOutputs p else []) @
      WriteLE32 (nLockTime txTo) @ WriteLE32 (nExpiryHeight txTo) @
      (if sapling then put_int64 (valueBalance txTo) else []) @ put_int32 nHashType @
      (if nIn \<noteq> NOT_AN_INPUT then put_COutPoint (prevout (vin txTo ! nIn)) @ put_bytes scriptCode @ put_int64 amount @
         WriteLE32 (nSequence (vin txTo ! nIn)) else []))"

definition SignatureHash :: "blake2b \<Rightarrow> CScript \<Rightarrow> CTransaction \<Rightarrow> nat \<Rightarrow> int \<Rightarrow> int \<Rightarrow> u32 \<Rightarrow> PrecomputedTransactionData option \<Rightarrow>
    sighash_exit + bytes" where
  "SignatureHash blake scriptCode txTo nIn nHashType amount consensusBranchId cache =
     (if nIn \<ge> length (vin txTo) \<and> nIn \<noteq> NOT_AN_INPUT then Inl (LogicError ''input index is out of range'')
      else if SignatureHashVersion txTo = SIGVERSION_OVERWINTER \<or> SignatureHashVersion txTo = SIGVERSION_SAPLING then
        and_then (other_error (sighash_parts blake txTo nIn nHashType cache)) (\<lambda>p.
        Inr (blake (ascii ''ZcashSigHash'' @ WriteLE32 consensusBranchId) (sighash_message scriptCode txTo nIn nHashType amount p)))
      else if fHashSingle nHashType \<and> nIn \<ge> length (vout txTo) then Inl (LogicError ''no matching output for SIGHASH_SINGLE'')
      else and_then (other_error (SerializeTxTmp txTo scriptCode nIn nHashType)) (\<lambda>b. Inr (Hash1 (b @ put_int32 nHashType))))"

record ('k, 's) sig_checker =
  chk_secp :: "('k, 's) secp256k1"
  chk_blake :: blake2b
  chk_txTo :: CTransaction
  chk_nIn :: nat
  chk_amount :: int
  chk_txdata :: "PrecomputedTransactionData option"

definition CheckSig :: "('k, 's) sig_checker \<Rightarrow> bytes \<Rightarrow> bytes \<Rightarrow> CScript \<Rightarrow> u32 \<Rightarrow> failure + bool" where
  "CheckSig c vchSigIn vchPubKey scriptCode consensusBranchId =
     (let pubkey = pubkey_Set vchPubKey in
      if \<not> pubkey_IsValid pubkey then Inr False
      else if vchSigIn = [] then Inr False
      else let nHashType = uint (last vchSigIn); vchSig = butlast vchSigIn in
      case SignatureHash (chk_blake c) scriptCode (chk_txTo c) (chk_nIn c) nHashType (chk_amount c) consensusBranchId (chk_txdata c) of
        Inl (LogicError _) \<Rightarrow> Inr False
      | Inl (OtherError e) \<Rightarrow> Inl e
      | Inr sighash \<Rightarrow> Inr (pubkey_Verify (chk_secp c) pubkey sighash vchSig))"

definition CheckLockTime :: "('k, 's) sig_checker \<Rightarrow> CScriptNum \<Rightarrow> failure + bool" where
  "CheckLockTime c n = (let txLock = uint (nLockTime (chk_txTo c)) in
     if \<not> ((txLock < LOCKTIME_THRESHOLD \<and> n < LOCKTIME_THRESHOLD) \<or> (txLock \<ge> LOCKTIME_THRESHOLD \<and> n \<ge> LOCKTIME_THRESHOLD)) then Inr False
     else if n > txLock then Inr False
     else and_then (vec_at (vin (chk_txTo c)) (chk_nIn c)) (\<lambda>txin. Inr (\<not> txin_IsFinal txin)))"

text \<open>The environment in which an input of a transaction is verified.\<close>

definition checker_env :: "('k, 's) sig_checker \<Rightarrow> u32 \<Rightarrow> u32 \<Rightarrow> eval_env" where
  "checker_env c flags branchId = \<lparr>env_flags = flags,
     env_CheckSig = (\<lambda>vchSig key scriptCode branch. CheckSig c vchSig key scriptCode branch = Inr True),
     env_CheckLockTime = (\<lambda>n. CheckLockTime c n = Inr True),
     env_CheckLowS = CheckLowS (chk_secp c), env_branchId = branchId\<rparr>"

section \<open>The hash of a transaction in the cache\<close>

lemma sighash_parts_cached:
  assumes "PrecomputedTransactionData_of blake tx = Inr c"
  shows "sighash_parts blake tx nIn nHashType (Some c) = sighash_parts blake tx nIn nHashType None"
proof -
  obtain js where js: "GetJoinSplitsHash blake tx = Inr js" and c: "c = \<lparr>hashPrevouts = GetPrevoutHash blake tx,
      hashSequence = GetSequenceHash blake tx, hashOutputs = GetOutputsHash blake tx, hashJoinSplits = js,
      hashShieldedSpends = GetShieldedSpendsHash blake tx, hashShieldedOutputs = GetShieldedOutputsHash blake tx\<rparr>"
    using assms by (auto simp: PrecomputedTransactionData_of_def)
  show ?thesis by (simp add: sighash_parts_def js c)
qed

lemma ok_tx_joinsplits: "ok_tx tx \<Longrightarrow> fOverwintered tx \<Longrightarrow>
    GetJoinSplitsHash blake tx = Inr (blake (ascii ''ZcashJSplitsHash'') (concat (map js_bytes (vJoinSplit tx)) @ joinSplitPubKey tx))"
  by (auto simp: ok_tx_def GetJoinSplitsHash_def put_each_ok isOverwinterV3_def isSaplingV4_def)

section \<open>What a signature commits to\<close>

text \<open>The inputs of the hash function that the hash of a transaction is computed from, for the hash types that cover the whole transaction.\<close>

definition covers_all :: "int \<Rightarrow> bool" where
  "covers_all nHashType \<longleftrightarrow> \<not> fAnyoneCanPay nHashType \<and> \<not> fHashSingle nHashType \<and> \<not> fHashNone nHashType"

definition part_queries :: "CTransaction \<Rightarrow> (bytes \<times> bytes) set" where
  "part_queries tx = {(ascii ''ZcashPrevoutHash'', concat (map (\<lambda>txin. put_COutPoint (prevout txin)) (vin tx))),
     (ascii ''ZcashSequencHash'', concat (map (\<lambda>txin. WriteLE32 (nSequence txin)) (vin tx))),
     (ascii ''ZcashOutputsHash'', concat (map put_CTxOut (vout tx))),
     (ascii ''ZcashJSplitsHash'', concat (map js_bytes (vJoinSplit tx)) @ joinSplitPubKey tx),
     (ascii ''ZcashSSpendsHash'', concat (map spend_signed (vShieldedSpend tx))),
     (ascii ''ZcashSOutputHash'', concat (map put_OutputDescription (vShieldedOutput tx)))}"

definition all_parts :: "blake2b \<Rightarrow> CTransaction \<Rightarrow> PrecomputedTransactionData" where
  "all_parts blake tx = \<lparr>hashPrevouts = GetPrevoutHash blake tx, hashSequence = GetSequenceHash blake tx, hashOutputs = GetOutputsHash blake tx,
     hashJoinSplits = (if vJoinSplit tx = [] then uint256_zero
       else blake (ascii ''ZcashJSplitsHash'') (concat (map js_bytes (vJoinSplit tx)) @ joinSplitPubKey tx)),
     hashShieldedSpends = (if vShieldedSpend tx = [] then uint256_zero else GetShieldedSpendsHash blake tx),
     hashShieldedOutputs = (if vShieldedOutput tx = [] then uint256_zero else GetShieldedOutputsHash blake tx)\<rparr>"

definition sighash_query :: "blake2b \<Rightarrow> CScript \<Rightarrow> CTransaction \<Rightarrow> nat \<Rightarrow> int \<Rightarrow> int \<Rightarrow> u32 \<Rightarrow> bytes \<times> bytes" where
  "sighash_query blake scriptCode tx nIn nHashType amount branchId =
     (ascii ''ZcashSigHash'' @ WriteLE32 branchId, sighash_message scriptCode tx nIn nHashType amount (all_parts blake tx))"

text \<open>No two different inputs among the given ones collide, and none is hashed to zero, which stands for an absent part.\<close>

definition collision_free :: "blake2b \<Rightarrow> (bytes \<times> bytes) set \<Rightarrow> bool" where
  "collision_free blake Q \<longleftrightarrow> inj_on (\<lambda>(p, d). blake p d) Q \<and> (\<forall>(p, d)\<in>Q. blake p d \<noteq> uint256_zero)"

lemma collision_freeD: "collision_free blake Q \<Longrightarrow> (p, d) \<in> Q \<Longrightarrow> (p', d') \<in> Q \<Longrightarrow> blake p d = blake p' d' \<longleftrightarrow> p = p' \<and> d = d'"
  by (auto simp: collision_free_def inj_on_def)

lemma collision_free_zero: "collision_free blake Q \<Longrightarrow> (p, d) \<in> Q \<Longrightarrow> blake p d \<noteq> uint256_zero"
  by (auto simp: collision_free_def)

lemma SignatureHash_covers_all:
  assumes "ok_tx tx" "fOverwintered tx" "covers_all nHashType" "nIn < length (vin tx) \<or> nIn = NOT_AN_INPUT"
  shows "SignatureHash blake scriptCode tx nIn nHashType amount branchId None =
    Inr (case sighash_query blake scriptCode tx nIn nHashType amount branchId of (p, d) \<Rightarrow> blake p d)"
proof -
  have v: "SignatureHashVersion tx = SIGVERSION_OVERWINTER \<or> SignatureHashVersion tx = SIGVERSION_SAPLING"
    using assms(2) by (simp add: SignatureHashVersion_def)
  have "sighash_parts blake tx nIn nHashType None = Inr (all_parts blake tx)"
    using assms(3) by (simp add: sighash_parts_def all_parts_def covers_all_def ok_tx_joinsplits [OF assms(1,2)])
  then show ?thesis using v assms(4) by (auto simp: SignatureHash_def sighash_query_def other_error_def)
qed

context codec
begin

lemma concat_inject:
  assumes "\<And>x. ok x \<Longrightarrow> put x \<noteq> []" "list_all ok xs" "list_all ok ys" "concat (map put xs) = concat (map put ys)"
  shows "xs = ys"
  using assms(2-)
proof (induction xs arbitrary: ys)
  case Nil
  then show ?case using assms(1) by (cases ys) auto
next
  case (Cons x xs)
  then obtain y ys' where ys: "ys = y # ys'" using assms(1) by (cases ys) auto
  then have "x = y \<and> concat (map put xs) = concat (map put ys')" using Cons.prems by (intro prefix_free) simp_all
  then show ?case using Cons ys by simp
qed

end

lemma length_LE: "length (put_int64 v) = 8" "length (put_int32 w) = 4"
  by (simp_all add: put_int64_def put_int32_def)

lemma length_ascii [simp]: "length (ascii s) = length s"
  by (simp add: ascii_def)

definition parts_sized :: "PrecomputedTransactionData \<Rightarrow> bool" where
  "parts_sized p \<longleftrightarrow> length (hashPrevouts p) = 32 \<and> length (hashSequence p) = 32 \<and> length (hashOutputs p) = 32 \<and>
     length (hashJoinSplits p) = 32 \<and> length (hashShieldedSpends p) = 32 \<and> length (hashShieldedOutputs p) = 32"

definition input_tail :: "CScript \<Rightarrow> CTransaction \<Rightarrow> nat \<Rightarrow> int \<Rightarrow> bytes" where
  "input_tail scriptCode tx nIn amount = (if nIn \<noteq> NOT_AN_INPUT then put_COutPoint (prevout (vin tx ! nIn)) @ put_bytes scriptCode @
     put_int64 amount @ WriteLE32 (nSequence (vin tx ! nIn)) else [])"

definition signable :: "CScript \<Rightarrow> CTransaction \<Rightarrow> nat \<Rightarrow> int \<Rightarrow> int \<Rightarrow> bool" where
  "signable scriptCode tx nIn nHashType amount \<longleftrightarrow> ok_tx tx \<and> fOverwintered tx \<and> (nIn < length (vin tx) \<or> nIn = NOT_AN_INPUT) \<and>
     length scriptCode \<le> 0x2000000 \<and> in_int64 amount \<and> - (2 ^ 31) \<le> nHashType \<and> nHashType < 2 ^ 31 \<and> covers_all nHashType"

lemma sapling_version: "ok_tx tx \<Longrightarrow> fOverwintered tx \<Longrightarrow> SignatureHashVersion tx = SIGVERSION_SAPLING \<longleftrightarrow> isSaplingV4 tx"
  by (auto simp: ok_tx_def SignatureHashVersion_def isSaplingV4_def isOverwinterV3_def)

lemma message_inject:
  assumes "signable sc tx nIn ht amt" "signable sc' tx' nIn' ht' amt'" "parts_sized p" "parts_sized p'"
    and eq: "sighash_message sc tx nIn ht amt p = sighash_message sc' tx' nIn' ht' amt' p'"
  shows "GetHeader tx = GetHeader tx' \<and> nVersionGroupId tx = nVersionGroupId tx' \<and> isSaplingV4 tx = isSaplingV4 tx' \<and>
    hashPrevouts p = hashPrevouts p' \<and> hashSequence p = hashSequence p' \<and> hashOutputs p = hashOutputs p' \<and> hashJoinSplits p = hashJoinSplits p' \<and>
    nLockTime tx = nLockTime tx' \<and> nExpiryHeight tx = nExpiryHeight tx' \<and> ht = ht' \<and>
    (isSaplingV4 tx \<longrightarrow> hashShieldedSpends p = hashShieldedSpends p' \<and> hashShieldedOutputs p = hashShieldedOutputs p' \<and> valueBalance tx = valueBalance tx') \<and>
    input_tail sc tx nIn amt = input_tail sc' tx' nIn' amt'"
proof -
  have v: "SignatureHashVersion tx = SIGVERSION_SAPLING \<longleftrightarrow> isSaplingV4 tx" "SignatureHashVersion tx' = SIGVERSION_SAPLING \<longleftrightarrow> isSaplingV4 tx'"
    using assms(1,2) by (simp_all add: signable_def sapling_version)
  have grp: "GetHeader tx = GetHeader tx'" "nVersionGroupId tx = nVersionGroupId tx'"
    using eq by (simp_all add: sighash_message_def Let_def append_eq_append_conv u32_codec.put_inject)
  have "SignatureHashVersion tx = SignatureHashVersion tx'"
    using grp assms(1,2) by (simp add: SignatureHashVersion_def signable_def)
  then have sap: "isSaplingV4 tx = isSaplingV4 tx'" using v by simp
  have bal: "isSaplingV4 tx \<Longrightarrow> in_int64 (valueBalance tx)" "isSaplingV4 tx' \<Longrightarrow> in_int64 (valueBalance tx')"
    using assms(1,2) by (simp_all add: signable_def ok_tx_def)
  show ?thesis
    using eq assms(1-4) bal grp sap
    unfolding sighash_message_def Let_def v input_tail_def [symmetric]
    by (cases "isSaplingV4 tx'") (auto simp: append_eq_append_conv u32_codec.put_inject length_LE parts_sized_def int64.put_inject int32.put_inject signable_def)
qed

lemma input_tail_inject:
  assumes "signable sc tx nIn ht amt" "signable sc' tx' nIn' ht' amt'" "input_tail sc tx nIn amt = input_tail sc' tx' nIn' amt'"
  shows "(nIn = NOT_AN_INPUT \<longleftrightarrow> nIn' = NOT_AN_INPUT) \<and>
    (nIn \<noteq> NOT_AN_INPUT \<longrightarrow> prevout (vin tx ! nIn) = prevout (vin tx' ! nIn') \<and> sc = sc' \<and> amt = amt' \<and> nSequence (vin tx ! nIn) = nSequence (vin tx' ! nIn'))"
proof -
  have ne: "WriteLE32 w \<noteq> []" for w by (metis length_WriteLE32 list.size(3) zero_neq_numeral)
  have ok: "ok_COutPoint (prevout (vin t ! n))" if "signable s t n h a" "n \<noteq> NOT_AN_INPUT" for s t n h a
    using that by (auto simp: signable_def ok_tx_def list_all_length ok_CTxIn_def)
  show ?thesis
  proof (cases "nIn = NOT_AN_INPUT \<or> nIn' = NOT_AN_INPUT")
    case True
    then show ?thesis using assms(3) ne by (auto simp: input_tail_def split: if_splits)
  next
    case False
    then have "put_COutPoint (prevout (vin tx ! nIn)) @ put_bytes sc @ put_int64 amt @ WriteLE32 (nSequence (vin tx ! nIn)) =
        put_COutPoint (prevout (vin tx' ! nIn')) @ put_bytes sc' @ put_int64 amt' @ WriteLE32 (nSequence (vin tx' ! nIn'))"
      using assms(3) by (simp add: input_tail_def)
    then have a: "prevout (vin tx ! nIn) = prevout (vin tx' ! nIn')"
      and b: "put_bytes sc @ put_int64 amt @ WriteLE32 (nSequence (vin tx ! nIn)) = put_bytes sc' @ put_int64 amt' @ WriteLE32 (nSequence (vin tx' ! nIn'))"
      using outpoint.prefix_free [OF ok [OF assms(1)] ok [OF assms(2)]] False by blast+
    from b have "sc = sc' \<and> put_int64 amt @ WriteLE32 (nSequence (vin tx ! nIn)) = put_int64 amt' @ WriteLE32 (nSequence (vin tx' ! nIn'))"
      by (rule byte_vector.prefix_free [rotated 2]) (use assms in \<open>simp_all add: signable_def\<close>)
    then show ?thesis using a False assms by (simp add: append_eq_append_conv length_LE int64.put_inject u32_codec.put_inject signable_def)
  qed
qed

text \<open>A transaction without its signatures and without the members that its format does not have.\<close>

definition unsigned_tx :: "CTransaction \<Rightarrow> CTransaction" where
  "unsigned_tx tx = tx\<lparr>vin := map (\<lambda>i. i\<lparr>scriptSig := []\<rparr>) (vin tx), joinSplitSig := [], bindingSig := [],
     joinSplitPubKey := (if vJoinSplit tx = [] then [] else joinSplitPubKey tx),
     valueBalance := (if isSaplingV4 tx then valueBalance tx else 0),
     vShieldedSpend := (if isSaplingV4 tx then map (\<lambda>a. a\<lparr>spendAuthSig := []\<rparr>) (vShieldedSpend tx) else []),
     vShieldedOutput := (if isSaplingV4 tx then vShieldedOutput tx else [])\<rparr>"

lemma spend_signed_inject:
  assumes "list_all ok_SpendDescription xs" "list_all ok_SpendDescription ys" "concat (map spend_signed xs) = concat (map spend_signed ys)"
  shows "map (\<lambda>a. a\<lparr>spendAuthSig := []\<rparr>) xs = map (\<lambda>a. a\<lparr>spendAuthSig := []\<rparr>) ys"
proof -
  have len: "length (spend_signed a) = 320" if "ok_SpendDescription a" for a
    using that by (simp add: spend_signed_def ok_SpendDescription_def)
  have eq: "map spend_signed xs = map spend_signed ys"
    by (rule blob.concat_inject [where n = 320]) (use assms len in \<open>auto simp: list_all_iff\<close>)
  have inj: "a\<lparr>spendAuthSig := []\<rparr> = b\<lparr>spendAuthSig := []\<rparr>"
    if "ok_SpendDescription a" "ok_SpendDescription b" "spend_signed a = spend_signed b" for a b
    using that by (cases a; cases b) (simp add: spend_signed_def ok_SpendDescription_def append_eq_append_conv)
  have "length xs = length ys" using eq map_eq_imp_length_eq by blast
  then show ?thesis using assms(1,2) eq by (induction xs ys rule: list_induct2) (simp_all add: inj)
qed

lemma inputs_inject:
  assumes "map prevout xs = map prevout ys" "map nSequence xs = map nSequence ys"
  shows "map (\<lambda>i. i\<lparr>scriptSig := []\<rparr>) xs = map (\<lambda>i. i\<lparr>scriptSig := []\<rparr>) (ys :: CTxIn list)"
  using assms by (induction xs ys rule: list_induct2') auto

lemma part_eq: "collision_free blake Q \<Longrightarrow> (p, d) \<in> Q \<Longrightarrow> (p, d') \<in> Q \<Longrightarrow> blake p d = blake p d' \<Longrightarrow> d = d'"
  by (simp add: collision_freeD)

lemma optional_part_eq:
  assumes "collision_free blake Q" "(p, d) \<in> Q" "(p, d') \<in> Q"
    and "(if xs = [] then uint256_zero else blake p d) = (if ys = [] then uint256_zero else blake p d')"
  shows "(xs = [] \<longleftrightarrow> ys = []) \<and> (xs \<noteq> [] \<longrightarrow> d = d')"
proof -
  have "blake p d \<noteq> uint256_zero" "blake p d' \<noteq> uint256_zero" using assms(1-3) collision_free_zero by blast+
  then show ?thesis using assms(4) part_eq [OF assms(1-3)] by (auto split: if_splits)
qed

lemma put_not_empty: "put_COutPoint op \<noteq> []" "WriteLE32 w \<noteq> []" "put_CTxOut x \<noteq> []" "js_bytes j \<noteq> []"
  "ok_OutputDescription u \<Longrightarrow> put_OutputDescription u \<noteq> []"
proof -
  show w: "WriteLE32 w \<noteq> []" for w by (metis length_WriteLE32 list.size(3) zero_neq_numeral)
  have i: "put_int64 v \<noteq> []" for v by (metis length_LE(1) list.size(3) zero_neq_numeral)
  show "put_COutPoint op \<noteq> []" "put_CTxOut x \<noteq> []" "js_bytes j \<noteq> []" by (simp_all add: put_COutPoint_def put_CTxOut_def js_bytes_def w i)
  show "ok_OutputDescription u \<Longrightarrow> put_OutputDescription u \<noteq> []" by (auto simp: ok_OutputDescription_def put_OutputDescription_def)
qed

lemma prevouts_inject:
  assumes "ok_tx tx" "ok_tx tx'" "concat (map (\<lambda>i. put_COutPoint (prevout i)) (vin tx)) = concat (map (\<lambda>i. put_COutPoint (prevout i)) (vin tx'))"
  shows "map prevout (vin tx) = map prevout (vin tx')"
proof -
  have ok: "list_all ok_COutPoint (map prevout (vin t))" if "ok_tx t" for t
    using that by (auto simp: ok_tx_def list_all_iff ok_CTxIn_def)
  have "concat (map put_COutPoint (map prevout (vin tx))) = concat (map put_COutPoint (map prevout (vin tx')))"
    using assms(3) by (simp add: comp_def)
  then show ?thesis by (rule outpoint.concat_inject [OF put_not_empty(1) ok [OF assms(1)] ok [OF assms(2)]])
qed

lemma sequences_inject:
  assumes "concat (map (\<lambda>i. WriteLE32 (nSequence i)) xs) = concat (map (\<lambda>i. WriteLE32 (nSequence i)) ys)"
  shows "map nSequence xs = map nSequence (ys :: CTxIn list)"
proof -
  have "concat (map WriteLE32 (map nSequence xs)) = concat (map WriteLE32 (map nSequence ys))" using assms by (simp add: comp_def)
  then show ?thesis by (rule u32_codec.concat_inject [OF put_not_empty(2), rotated 2]) (simp_all add: list_all_iff)
qed

lemma joinsplits_inject:
  assumes "list_all (ok_JSDescription g) xs" "list_all (ok_JSDescription g) ys" "length k = 32" "length k' = 32"
    and "concat (map js_bytes xs) @ k = concat (map js_bytes ys) @ k'"
  shows "xs = ys \<and> k = k'"
proof -
  have a: "concat (map js_bytes xs) = concat (map js_bytes ys)" "k = k'" using assms(3-5) by (simp_all add: append_eq_append_conv)
  then show ?thesis using joinsplit.concat_inject [OF put_not_empty(4) assms(1,2)] by simp
qed

lemma signed_parts_inject:
  assumes s: "signable sc tx nIn ht amt" "signable sc' tx' nIn' ht' amt'" and cf: "collision_free blake (part_queries tx \<union> part_queries tx')"
    and hdr: "GetHeader tx = GetHeader tx'" and sap: "isSaplingV4 tx = isSaplingV4 tx'"
    and p: "GetPrevoutHash blake tx = GetPrevoutHash blake tx'" "GetSequenceHash blake tx = GetSequenceHash blake tx'"
      "GetOutputsHash blake tx = GetOutputsHash blake tx'" "hashJoinSplits (all_parts blake tx) = hashJoinSplits (all_parts blake tx')"
  shows "map (\<lambda>i. i\<lparr>scriptSig := []\<rparr>) (vin tx) = map (\<lambda>i. i\<lparr>scriptSig := []\<rparr>) (vin tx') \<and> vout tx = vout tx' \<and>
    vJoinSplit tx = vJoinSplit tx' \<and> (vJoinSplit tx \<noteq> [] \<longrightarrow> joinSplitPubKey tx = joinSplitPubKey tx')"
proof -
  have ok: "ok_tx tx" "ok_tx tx'" using s by (simp_all add: signable_def)
  have eq: "d = d'" if "(p, d) \<in> part_queries tx" "(p, d') \<in> part_queries tx'" "blake p d = blake p d'" for p d d'
    using part_eq [OF cf] that by blast
  have "map prevout (vin tx) = map prevout (vin tx')"
    by (rule prevouts_inject [OF ok], rule eq [where p = "ascii ''ZcashPrevoutHash''"]) (use p(1) in \<open>simp_all add: part_queries_def GetPrevoutHash_def\<close>)
  moreover have "map nSequence (vin tx) = map nSequence (vin tx')"
    by (rule sequences_inject, rule eq [where p = "ascii ''ZcashSequencHash''"]) (use p(2) in \<open>simp_all add: part_queries_def GetSequenceHash_def\<close>)
  ultimately have ins: "map (\<lambda>i. i\<lparr>scriptSig := []\<rparr>) (vin tx) = map (\<lambda>i. i\<lparr>scriptSig := []\<rparr>) (vin tx')" by (rule inputs_inject)
  have "concat (map put_CTxOut (vout tx)) = concat (map put_CTxOut (vout tx'))"
    by (rule eq [where p = "ascii ''ZcashOutputsHash''"]) (use p(3) in \<open>simp_all add: part_queries_def GetOutputsHash_def\<close>)
  then have outs: "vout tx = vout tx'"
    using ok txout.concat_inject [OF put_not_empty(3)] by (simp add: ok_tx_def)
  have js: "(vJoinSplit tx = [] \<longleftrightarrow> vJoinSplit tx' = []) \<and> (vJoinSplit tx \<noteq> [] \<longrightarrow>
      concat (map js_bytes (vJoinSplit tx)) @ joinSplitPubKey tx = concat (map js_bytes (vJoinSplit tx')) @ joinSplitPubKey tx')"
    using p(4) by (intro optional_part_eq [OF cf, where p = "ascii ''ZcashJSplitsHash''"]) (simp_all add: part_queries_def all_parts_def)
  have v2: "nVersion t \<ge> 2" if "ok_tx t" "fOverwintered t" for t
    using that by (auto simp: ok_tx_def isOverwinterV3_def isSaplingV4_def)
  have "vJoinSplit tx = vJoinSplit tx' \<and> joinSplitPubKey tx = joinSplitPubKey tx'" if "vJoinSplit tx \<noteq> []"
    using js that ok v2 [of tx] v2 [of tx'] s hdr
    by (intro joinsplits_inject [where g = "header_useGroth (GetHeader tx)"]) (simp_all add: ok_tx_def signable_def)
  then show ?thesis using ins outs js by (cases "vJoinSplit tx = []") auto
qed

lemma shielded_parts_inject:
  assumes ok: "ok_tx tx" "ok_tx tx'" "isSaplingV4 tx" "isSaplingV4 tx'" and cf: "collision_free blake (part_queries tx \<union> part_queries tx')"
    and p: "hashShieldedSpends (all_parts blake tx) = hashShieldedSpends (all_parts blake tx')"
      "hashShieldedOutputs (all_parts blake tx) = hashShieldedOutputs (all_parts blake tx')"
  shows "map (\<lambda>a. a\<lparr>spendAuthSig := []\<rparr>) (vShieldedSpend tx) = map (\<lambda>a. a\<lparr>spendAuthSig := []\<rparr>) (vShieldedSpend tx') \<and>
    vShieldedOutput tx = vShieldedOutput tx'"
proof -
  have "(vShieldedSpend tx = [] \<longleftrightarrow> vShieldedSpend tx' = []) \<and> (vShieldedSpend tx \<noteq> [] \<longrightarrow>
      concat (map spend_signed (vShieldedSpend tx)) = concat (map spend_signed (vShieldedSpend tx')))"
    by (rule optional_part_eq [OF cf, where p = "ascii ''ZcashSSpendsHash''"])
      (use p(1) in \<open>auto simp: part_queries_def all_parts_def GetShieldedSpendsHash_def\<close>)
  then have "concat (map spend_signed (vShieldedSpend tx)) = concat (map spend_signed (vShieldedSpend tx'))" by auto
  moreover have "(vShieldedOutput tx = [] \<longleftrightarrow> vShieldedOutput tx' = []) \<and> (vShieldedOutput tx \<noteq> [] \<longrightarrow>
      concat (map put_OutputDescription (vShieldedOutput tx)) = concat (map put_OutputDescription (vShieldedOutput tx')))"
    by (rule optional_part_eq [OF cf, where p = "ascii ''ZcashSOutputHash''"])
      (use p(2) in \<open>auto simp: part_queries_def all_parts_def GetShieldedOutputsHash_def\<close>)
  then have "concat (map put_OutputDescription (vShieldedOutput tx)) = concat (map put_OutputDescription (vShieldedOutput tx'))" by auto
  ultimately show ?thesis
    using ok shielded_output.concat_inject [OF put_not_empty(5)] spend_signed_inject by (simp add: ok_tx_def)
qed

lemma script_num_lock_time:
  assumes "\<bar>v\<bar> < 2 ^ 39"
  shows "script_num env (CScriptNum_serialize v) 5 = Inr v"
proof -
  have "CScriptNum_of (CScriptNum_serialize v) (flag env SCRIPT_VERIFY_MINIMALDATA) 5 = Inr v"
    using assms length_serialize [of v 5] by (simp add: CScriptNum_of_eq num_val_serialize minimal_serialize)
  then show ?thesis by (simp add: script_num_def lift_failure_def)
qed

lemma CheckLockTime_final:
  assumes "CheckLockTime c n = Inr True" "IsFinalTx (chk_txTo c) h t" "0 < n"
  shows "if n < LOCKTIME_THRESHOLD then n < h else n < t"
proof -
  have lock: "n \<le> uint (nLockTime (chk_txTo c))" "uint (nLockTime (chk_txTo c)) < LOCKTIME_THRESHOLD \<longleftrightarrow> n < LOCKTIME_THRESHOLD"
    and nf: "chk_nIn c < length (vin (chk_txTo c))" "\<not> txin_IsFinal (vin (chk_txTo c) ! chk_nIn c)"
    using assms(1) by (auto simp: CheckLockTime_def vec_at_def Let_def split: if_splits)
  have "\<not> list_all txin_IsFinal (vin (chk_txTo c))" using nf by (auto simp: list_all_length)
  moreover have "nLockTime (chk_txTo c) \<noteq> 0" using lock(1) assms(3) by auto
  ultimately show ?thesis using assms(2) lock by (auto simp: IsFinalTx_def split: if_splits)
qed

lemma EvalScript_lock_time:
  assumes "EvalScript env s (push_data [] (CScriptNum_serialize n) @ 0xb1 # rest) = Inr s'" "flag env SCRIPT_VERIFY_CHECKLOCKTIMEVERIFY" "\<bar>n\<bar> < 2 ^ 39"
  shows "env_CheckLockTime env n"
proof -
  let ?script = "push_data [] (CScriptNum_serialize n) @ 0xb1 # rest"
  have len: "length (CScriptNum_serialize n) \<le> 75" using assms(3) length_serialize [of n 5] by simp
  obtain st where "eval_loop env ?script (initial_state s) ?script = Inr st"
    using assms(1) by (auto simp: EvalScript_def split: if_splits sum.splits script_exit.splits)
  then obtain st1 st2 where st1: "eval_step env ?script (length (CScriptNum_serialize n)) (CScriptNum_serialize n) (initial_state s) = Inr st1"
    and st2: "eval_step env ?script 0xb1 [] st1 = Inr st2"
    by (auto simp: eval_loop_push [OF len] eval_loop_op)
  have "st1 = (initial_state s)\<lparr>stack := CScriptNum_serialize n # s\<rparr>" using eval_step_ok [OF st1] len by simp
  then have "eval_op env ?script True 0xb1 (st1\<lparr>nOpCount := nOpCount st1 + 1\<rparr>) = Inr st2" "stack st1 = CScriptNum_serialize n # s"
    using eval_step_ok [OF st2] by simp_all
  then show ?thesis
    using assms(2) by (auto simp: eval_op_def op_checklocktime_def script_num_lock_time [OF assms(3)] split: if_splits)
qed

lemma same_input:
  assumes "unsigned_tx tx = unsigned_tx tx'" "distinct (map prevout (vin tx))" "n < length (vin tx)" "n' < length (vin tx')"
    and "prevout (vin tx ! n) = prevout (vin tx' ! n')"
  shows "n = n'"
proof -
  have eq: "map (\<lambda>i. i\<lparr>scriptSig := []\<rparr>) (vin tx) = map (\<lambda>i. i\<lparr>scriptSig := []\<rparr>) (vin tx')"
    using arg_cong [OF assms(1), of vin] by (simp add: unsigned_tx_def)
  have len: "length (vin tx) = length (vin tx')" using map_eq_imp_length_eq [OF eq] .
  have "prevout (vin tx ! n') = prevout (vin tx' ! n')"
    using arg_cong [OF eq, of "\<lambda>l. prevout (l ! n')"] assms(4) len by simp
  then show ?thesis using assms nth_eq_iff_index_eq [OF assms(2), of n n'] len by simp
qed

section \<open>Properties\<close>

abbreviation (input) demo_sapling :: CTransaction where
  "demo_sapling \<equiv> CMutableTransaction\<lparr>fOverwintered := True, nVersion := 4, nVersionGroupId := SAPLING_VERSION_GROUP_ID\<rparr>"

text \<open>C34: Precomputing the digests of the parts of a transaction does not change any signature hash: whatever the input, the hash type,
  the script code, the amount and the epoch, the hash taken with the precomputed digests is the one computed afresh.\<close>

theorem precomputed_hash_is_signature_hash:
  assumes "PrecomputedTransactionData_of blake tx = Inr c"
  shows "SignatureHash blake scriptCode tx nIn nHashType amount branchId (Some c) =
    SignatureHash blake scriptCode tx nIn nHashType amount branchId None"
  by (simp add: SignatureHash_def sighash_parts_cached [OF assms])

theorem precomputed_hash_is_signature_hash_witness:
  "\<exists>c c'. PrecomputedTransactionData_of (\<lambda>p d. p @ d) demo_sapling = Inr c \<and>
    SignatureHash (\<lambda>p d. p @ d) [] demo_sapling NOT_AN_INPUT 1 0 7 (Some c) = SignatureHash (\<lambda>p d. p @ d) [] demo_sapling NOT_AN_INPUT 1 0 7 None \<and>
    SignatureHash (\<lambda>p d. p @ d) [] demo_sapling NOT_AN_INPUT 1 0 7 (Some c') \<noteq> SignatureHash (\<lambda>p d. p @ d) [] demo_sapling NOT_AN_INPUT 1 0 7 None"
proof -
  let ?hash = "SignatureHash (\<lambda>p d. p @ d) [] demo_sapling NOT_AN_INPUT 1 0 7"
  obtain c where c: "PrecomputedTransactionData_of (\<lambda>p d. p @ d) demo_sapling = Inr c"
    by (simp add: PrecomputedTransactionData_of_def GetJoinSplitsHash_def CMutableTransaction_def)
  have "?hash (Some (c\<lparr>hashPrevouts := 0 # hashPrevouts c\<rparr>)) \<noteq> ?hash (Some c)"
    by (simp add: SignatureHash_def SignatureHashVersion_def sighash_parts_def sighash_message_def other_error_def
      fAnyoneCanPay_def fHashSingle_def fHashNone_def CMutableTransaction_def Let_def)
  then show ?thesis using c precomputed_hash_is_signature_hash [OF c, of "[]" NOT_AN_INPUT 1 0 7] by metis
qed

text \<open>C15: A signature over a whole transaction commits to all of it: when no two of the byte strings hashed collide and none is hashed to
  zero, two signature hashes can only agree when the transactions are equal up to their signatures, the epoch and the hash type are the
  same and both hashes are for an input or neither is. For an input, the outpoint and sequence number of the input, the script code and
  the amount are the same, and so is the input index when the transaction does not spend an outpoint twice; a hash for no input covers
  neither script code nor amount.\<close>

theorem signature_hash_commits:
  assumes s: "signable sc tx nIn ht amt" "signable sc' tx' nIn' ht' amt'"
    and digest: "\<And>p d. length (blake p d) = 32"
    and cf: "collision_free blake (part_queries tx \<union> part_queries tx' \<union>
      {sighash_query blake sc tx nIn ht amt branch, sighash_query blake sc' tx' nIn' ht' amt' branch'})"
    and eq: "SignatureHash blake sc tx nIn ht amt branch None = SignatureHash blake sc' tx' nIn' ht' amt' branch' None"
  shows "unsigned_tx tx = unsigned_tx tx' \<and> branch = branch' \<and> ht = ht' \<and> (nIn = NOT_AN_INPUT \<longleftrightarrow> nIn' = NOT_AN_INPUT) \<and>
    (nIn \<noteq> NOT_AN_INPUT \<longrightarrow> prevout (vin tx ! nIn) = prevout (vin tx' ! nIn') \<and> nSequence (vin tx ! nIn) = nSequence (vin tx' ! nIn') \<and>
      sc = sc' \<and> amt = amt') \<and> (distinct (map prevout (vin tx)) \<longrightarrow> nIn = nIn')"
proof -
  have ok: "ok_tx tx" "ok_tx tx'" "fOverwintered tx" "fOverwintered tx'" using s by (simp_all add: signable_def)
  have cfp: "collision_free blake (part_queries tx \<union> part_queries tx')"
    using cf by (auto simp: collision_free_def inj_on_def)
  have "blake (ascii ''ZcashSigHash'' @ WriteLE32 branch) (sighash_message sc tx nIn ht amt (all_parts blake tx)) =
      blake (ascii ''ZcashSigHash'' @ WriteLE32 branch') (sighash_message sc' tx' nIn' ht' amt' (all_parts blake tx'))"
    using eq s SignatureHash_covers_all [of tx ht nIn blake sc amt branch] SignatureHash_covers_all [of tx' ht' nIn' blake sc' amt' branch']
    by (simp add: signable_def sighash_query_def)
  then have q: "WriteLE32 branch = WriteLE32 branch'"
      "sighash_message sc tx nIn ht amt (all_parts blake tx) = sighash_message sc' tx' nIn' ht' amt' (all_parts blake tx')"
    using collision_freeD [OF cf] by (simp_all add: sighash_query_def)
  have sized: "parts_sized (all_parts blake t)" for t
    by (simp add: parts_sized_def all_parts_def digest GetPrevoutHash_def GetSequenceHash_def GetOutputsHash_def GetShieldedSpendsHash_def GetShieldedOutputsHash_def)
  note m = message_inject [OF s sized sized q(2)]
  have parts: "map (\<lambda>i. i\<lparr>scriptSig := []\<rparr>) (vin tx) = map (\<lambda>i. i\<lparr>scriptSig := []\<rparr>) (vin tx') \<and> vout tx = vout tx' \<and>
    vJoinSplit tx = vJoinSplit tx' \<and> (vJoinSplit tx \<noteq> [] \<longrightarrow> joinSplitPubKey tx = joinSplitPubKey tx')"
    using m by (intro signed_parts_inject [OF s cfp]) (simp_all add: all_parts_def)
  have shielded: "isSaplingV4 tx \<Longrightarrow> map (\<lambda>a. a\<lparr>spendAuthSig := []\<rparr>) (vShieldedSpend tx) = map (\<lambda>a. a\<lparr>spendAuthSig := []\<rparr>) (vShieldedSpend tx') \<and>
    vShieldedOutput tx = vShieldedOutput tx'"
    using m by (intro shielded_parts_inject [OF ok(1,2) _ _ cfp]) simp_all
  have ver: "nVersion tx = nVersion tx'"
    using m ok GetHeader_fields(2) [of tx] GetHeader_fields(2) [of tx'] by (simp add: ok_tx_def)
  have u: "unsigned_tx tx = unsigned_tx tx'"
    using m parts shielded ver ok by (intro CTransaction.equality) (simp_all add: unsigned_tx_def)
  note tail = input_tail_inject [OF s]
  have "distinct (map prevout (vin tx)) \<Longrightarrow> nIn = nIn'"
    using m tail same_input [OF u, of nIn nIn'] s by (cases "nIn = NOT_AN_INPUT") (simp_all add: signable_def)
  then show ?thesis using u m tail q(1) by (simp add: u32_codec.put_inject)
qed

abbreviation (input) demo_blake :: blake2b where
  "demo_blake \<equiv> \<lambda>p d. take 32 (p @ replicate 32 1)"

theorem signature_hash_commits_witness:
  "SignatureHash demo_blake [] demo_sapling NOT_AN_INPUT 1 0 1 None \<noteq> SignatureHash demo_blake [] demo_sapling NOT_AN_INPUT 1 0 2 None"
proof
  assume eq: "SignatureHash demo_blake [] demo_sapling NOT_AN_INPUT 1 0 1 None = SignatureHash demo_blake [] demo_sapling NOT_AN_INPUT 1 0 2 None"
  have "ok_tx demo_sapling" by (simp add: ok_tx_def CMutableTransaction_def isSaplingV4_def in_int64_def)
  then have s: "signable [] demo_sapling NOT_AN_INPUT 1 0"
    by (simp add: signable_def in_int64_def covers_all_def fAnyoneCanPay_def fHashSingle_def fHashNone_def)
  have d: "length (take 32 (p @ replicate 32 (1 :: u8))) = 32" for p by simp
  have w: "WriteLE32 1 = [1, 0, 0, 0]" "WriteLE32 2 = [2, 0, 0, 0]" by code_simp+
  have "collision_free demo_blake (part_queries demo_sapling \<union> part_queries demo_sapling \<union>
      {sighash_query demo_blake [] demo_sapling NOT_AN_INPUT 1 0 1, sighash_query demo_blake [] demo_sapling NOT_AN_INPUT 1 0 2})"
    unfolding collision_free_def inj_on_def part_queries_def sighash_query_def w ascii_def by (simp add: Cons_replicate_eq)
  from signature_hash_commits [OF s s d this eq] show False by simp
qed

text \<open>C16: An output whose script starts with a lock time and \<open>OP_CHECKLOCKTIMEVERIFY\<close> cannot be spent too early: a transaction whose input
  verifies against it is final only in blocks above that height, or after that time when the lock is a time.\<close>

theorem time_locked_output_not_spent_early:
  assumes "VerifyScript (checker_env c flags branch) sig (push_data [] (CScriptNum_serialize n) @ 0xb1 # rest) = Inr ()"
    and "flags AND SCRIPT_VERIFY_CHECKLOCKTIMEVERIFY \<noteq> 0" "0 < n" "n < 2 ^ 39" "IsFinalTx (chk_txTo c) h t"
  shows "if n < LOCKTIME_THRESHOLD then n < h else n < t"
proof -
  let ?env = "checker_env c flags branch"
  obtain s s' where "EvalScript ?env s (push_data [] (CScriptNum_serialize n) @ 0xb1 # rest) = Inr s'"
    using assms(1) by (auto simp: VerifyScript_def split: if_splits)
  moreover have "flag ?env SCRIPT_VERIFY_CHECKLOCKTIMEVERIFY" using assms(2) by (simp add: flag_def checker_env_def)
  ultimately have "env_CheckLockTime ?env n" using EvalScript_lock_time assms(3,4) by simp
  then have "CheckLockTime c n = Inr True" by (simp add: checker_env_def)
  from CheckLockTime_final [OF this assms(5,3)] show ?thesis .
qed

lemma lock_time_script:
  assumes "flag env SCRIPT_VERIFY_CHECKLOCKTIMEVERIFY" "\<not> flag env SCRIPT_VERIFY_MINIMALDATA" "env_CheckLockTime env 5"
  shows "EvalScript env [] (push_data [] [5] @ [0xb1]) = Inr [[5]]"
proof -
  have "CScriptNum_serialize 5 = [5]" by code_simp
  then have num: "script_num env [5] 5 = Inr 5" using script_num_lock_time [of 5 env] by simp
  have len: "length (push_data [] [5]) = 2" by (simp add: push_data_def)
  show ?thesis
    using assms num len
    by (simp add: EvalScript_def eval_loop_push eval_loop_op eval_loop_end eval_step_def disabled_opcode_def eval_op_def op_checklocktime_def)
qed

theorem time_locked_output_not_spent_early_witness:
  "\<not> IsFinalTx (demo_tx\<lparr>nLockTime := 10\<rparr>) 5 0"
proof
  assume fin: "IsFinalTx (demo_tx\<lparr>nLockTime := 10\<rparr>) 5 0"
  let ?c = "\<lparr>chk_secp = undefined, chk_blake = demo_blake, chk_txTo = demo_tx\<lparr>nLockTime := 10\<rparr>, chk_nIn = 0, chk_amount = 0,
    chk_txdata = None\<rparr> :: (unit, unit) sig_checker"
  let ?env = "checker_env ?c SCRIPT_VERIFY_CHECKLOCKTIMEVERIFY 0"
  have lock: "env_CheckLockTime ?env 5" "flag ?env SCRIPT_VERIFY_CHECKLOCKTIMEVERIFY"
    by (simp_all add: checker_env_def CheckLockTime_def vec_at_def txin_IsFinal_def flag_def)
  have off: "\<not> flag ?env f" if "SCRIPT_VERIFY_CHECKLOCKTIMEVERIFY AND f = 0" for f using that by (simp add: flag_def checker_env_def)
  have ser: "CScriptNum_serialize 5 = [5]" by code_simp
  have "EvalScript ?env [] (push_data [] [5] @ [0xb1]) = Inr [[5]]" using lock off by (intro lock_time_script) simp_all
  then have "VerifyScript ?env [] (push_data [] (CScriptNum_serialize 5) @ 0xb1 # []) = Inr ()"
    using off by (simp add: VerifyScript_def ser eval_true_def EvalScript_def eval_loop_end)
  from time_locked_output_not_spent_early [OF this, of 5 0] fin show False by simp
qed

end
