(* ===== verification/TxContext.thy ===== *)
theory TxContext
  imports SigHash
begin

text \<open>
  The checks of a transaction against the rules of a block height (\<open>ContextualCheckTransaction\<close> of \<^verbatim>\<open>main.cpp\<close>). The Ed25519
  verification of libsodium and the Sapling verification context of librustzcash are parameters: a context is a value that
  the checks of the descriptions pass on to the final check.
\<close>

section \<open>The code\<close>

record 'c shielded_lib =
  sign_verify_detached :: "bytes \<Rightarrow> bytes \<Rightarrow> bytes \<Rightarrow> bool"
  verification_ctx_init :: 'c
  sapling_check_spend :: "'c \<Rightarrow> bytes \<Rightarrow> bytes \<Rightarrow> bytes \<Rightarrow> bytes \<Rightarrow> bytes \<Rightarrow> bytes \<Rightarrow> bytes \<Rightarrow> bool \<times> 'c"
  sapling_check_output :: "'c \<Rightarrow> bytes \<Rightarrow> bytes \<Rightarrow> bytes \<Rightarrow> bytes \<Rightarrow> bool \<times> 'c"
  sapling_final_check :: "'c \<Rightarrow> int \<Rightarrow> bytes \<Rightarrow> bytes \<Rightarrow> bool"

definition context_version :: "bool \<Rightarrow> bool \<Rightarrow> bool \<Rightarrow> int \<Rightarrow> CTransaction \<Rightarrow> check" where
  "context_version overwinterActive saplingActive ibd dosLevel tx =
     (if \<not> overwinterActive \<and> fOverwintered tx then Inl (Reject (if ibd then 0 else dosLevel) ''tx-overwinter-not-active'')
      else if saplingActive then
        if nVersion tx \<ge> 4 \<and> \<not> fOverwintered tx then Inl (Reject dosLevel ''tx-overwintered-flag-not-set'')
        else if fOverwintered tx \<and> nVersionGroupId tx \<noteq> SAPLING_VERSION_GROUP_ID then
          Inl (Reject (if ibd then 0 else dosLevel) ''bad-sapling-tx-version-group-id'')
        else if fOverwintered tx \<and> nVersion tx < 4 then Inl (Reject 100 ''bad-tx-sapling-version-too-low'')
        else if fOverwintered tx \<and> nVersion tx > 4 then Inl (Reject 100 ''bad-tx-sapling-version-too-high'')
        else Inr ()
      else if overwinterActive then
        if nVersion tx \<ge> 3 \<and> \<not> fOverwintered tx then Inl (Reject dosLevel ''tx-overwinter-flag-not-set'')
        else if fOverwintered tx \<and> nVersionGroupId tx \<noteq> OVERWINTER_VERSION_GROUP_ID then
          Inl (Reject (if ibd then 0 else dosLevel) ''bad-overwinter-tx-version-group-id'')
        else if fOverwintered tx \<and> nVersion tx > 3 then Inl (Reject 100 ''bad-tx-overwinter-version-too-high'')
        else Inr ()
      else Inr ())"

definition context_expiry :: "bool \<Rightarrow> int \<Rightarrow> int \<Rightarrow> CTransaction \<Rightarrow> check" where
  "context_expiry overwinterActive nHeight dosLevel tx =
     (if overwinterActive then
        if \<not> fOverwintered tx then Inl (Reject dosLevel ''tx-overwinter-active'')
        else if IsExpiredTx tx nHeight then
          Inl (Reject (if IsExpiredTx tx (nHeight - 1) then dosLevel else 0) ''tx-overwinter-expired'')
        else Inr ()
      else Inr ())"

fun check_spends :: "'c shielded_lib \<Rightarrow> bytes \<Rightarrow> 'c \<Rightarrow> SpendDescription list \<Rightarrow> check_exit + 'c" where
  "check_spends lib dataToBeSigned ctx [] = Inr ctx"
| "check_spends lib dataToBeSigned ctx (spend # spends) =
     (let (ok, ctx) = sapling_check_spend lib ctx (spend_cv spend) (spend_anchor spend) (spend_nullifier spend) (spend_rk spend)
        (spend_zkproof spend) (spendAuthSig spend) dataToBeSigned in
      if \<not> ok then Inl (Reject 100 ''bad-txns-sapling-spend-description-invalid'')
      else check_spends lib dataToBeSigned ctx spends)"

fun check_output_descriptions :: "'c shielded_lib \<Rightarrow> 'c \<Rightarrow> OutputDescription list \<Rightarrow> check_exit + 'c" where
  "check_output_descriptions lib ctx [] = Inr ctx"
| "check_output_descriptions lib ctx (d # ds) =
     (let (ok, ctx) = sapling_check_output lib ctx (output_cv d) (output_cm d) (output_ephemeralKey d) (output_zkproof d) in
      if \<not> ok then Inl (Reject 100 ''bad-txns-sapling-output-description-invalid'')
      else check_output_descriptions lib ctx ds)"

text \<open>The hash that the shielded signatures sign is zero when there is nothing to sign.\<close>

definition data_to_be_signed :: "blake2b \<Rightarrow> CTransaction \<Rightarrow> Params \<Rightarrow> int \<Rightarrow> check_exit + bytes" where
  "data_to_be_signed blake tx params nHeight =
     (if vJoinSplit tx \<noteq> [] \<or> vShieldedSpend tx \<noteq> [] \<or> vShieldedOutput tx \<noteq> [] then
        and_then (escape (CurrentEpochBranchId nHeight params)) (\<lambda>consensusBranchId.
        case SignatureHash blake [] tx NOT_AN_INPUT SIGHASH_ALL 0 consensusBranchId None of
          Inl (LogicError _) \<Rightarrow> Inl (Reject 100 ''error-computing-signature-hash'')
        | Inl (OtherError e) \<Rightarrow> Inl (Escape e)
        | Inr h \<Rightarrow> Inr h)
      else Inr uint256_zero)"

definition context_shielded :: "'c shielded_lib \<Rightarrow> bool \<Rightarrow> CTransaction \<Rightarrow> bytes \<Rightarrow> check" where
  "context_shielded lib ibd tx dataToBeSigned =
     and_then (reject_if (vJoinSplit tx \<noteq> [] \<and> \<not> sign_verify_detached lib (joinSplitSig tx) dataToBeSigned (joinSplitPubKey tx))
       (if ibd then 0 else 100) ''bad-txns-invalid-joinsplit-signature'') (\<lambda>_.
     if vShieldedSpend tx \<noteq> [] \<or> vShieldedOutput tx \<noteq> [] then
       and_then (check_spends lib dataToBeSigned (verification_ctx_init lib) (vShieldedSpend tx)) (\<lambda>ctx.
       and_then (check_output_descriptions lib ctx (vShieldedOutput tx)) (\<lambda>ctx.
       reject_if (\<not> sapling_final_check lib ctx (valueBalance tx) (bindingSig tx) dataToBeSigned)
         100 ''bad-txns-sapling-binding-signature-invalid''))
     else Inr ())"

definition context_check :: "'c shielded_lib \<Rightarrow> blake2b \<Rightarrow> bool \<Rightarrow> CTransaction \<Rightarrow> Params \<Rightarrow> int \<Rightarrow> int \<Rightarrow> check" where
  "context_check lib blake ibd tx params nHeight dosLevel =
     and_then (escape (NetworkUpgradeActive params nHeight UPGRADE_OVERWINTER)) (\<lambda>overwinterActive.
     and_then (escape (NetworkUpgradeActive params nHeight UPGRADE_SAPLING)) (\<lambda>saplingActive.
     and_then (context_version overwinterActive saplingActive ibd dosLevel tx) (\<lambda>_.
     and_then (context_expiry overwinterActive nHeight dosLevel tx) (\<lambda>_.
     and_then (if \<not> saplingActive then and_then (escape (GetSerializeSize_tx tx)) (\<lambda>n. reject_if (n > 100000) 100 ''bad-txns-oversize'')
       else Inr ()) (\<lambda>_.
     and_then (data_to_be_signed blake tx params nHeight) (context_shielded lib ibd tx))))))"

definition ContextualCheckTransaction ::
    "'c shielded_lib \<Rightarrow> blake2b \<Rightarrow> bool \<Rightarrow> CTransaction \<Rightarrow> CValidationState \<Rightarrow> Params \<Rightarrow> int \<Rightarrow> int \<Rightarrow> failure + bool \<times> CValidationState" where
  "ContextualCheckTransaction lib blake ibd tx st params nHeight dosLevel = run_check (context_check lib blake ibd tx params nHeight dosLevel) st"

section \<open>What the checks accept\<close>

lemma run_check_True: "run_check c st = Inr (True, st') \<longleftrightarrow> c = Inr () \<and> st' = st"
  by (auto simp: run_check_def state_DoS_def Let_def split: sum.splits check_exit.splits)

lemma context_version_Inr:
  "context_version ov sap ibd dos tx = Inr u \<and> context_expiry ov h dos tx = Inr u' \<longleftrightarrow>
   (if ov then fOverwintered tx \<and> \<not> IsExpiredTx tx h \<and>
      (if sap then nVersionGroupId tx = SAPLING_VERSION_GROUP_ID \<and> nVersion tx = 4
       else nVersionGroupId tx = OVERWINTER_VERSION_GROUP_ID \<and> nVersion tx \<le> 3)
    else \<not> fOverwintered tx \<and> (sap \<longrightarrow> nVersion tx < 4))"
  by (auto simp: context_version_def context_expiry_def)

lemma data_to_be_signed_Inr:
  assumes "vJoinSplit tx \<noteq> [] \<or> vShieldedSpend tx \<noteq> [] \<or> vShieldedOutput tx \<noteq> []"
  shows "data_to_be_signed blake tx params nHeight = Inr h \<longleftrightarrow> (\<exists>branchId. CurrentEpochBranchId nHeight params = Inr branchId \<and>
     SignatureHash blake [] tx NOT_AN_INPUT SIGHASH_ALL 0 branchId None = Inr h)"
proof -
  have "(case r of Inl (LogicError s) \<Rightarrow> Inl (Reject 100 msg) | Inl (OtherError e) \<Rightarrow> Inl (Escape e) | Inr h \<Rightarrow> Inr h) = Inr h \<longleftrightarrow> r = Inr h"
    for r :: "sighash_exit + bytes" and msg
    by (cases r) (auto split: sighash_exit.split)
  then show ?thesis using assms by (auto simp: data_to_be_signed_def)
qed

text \<open>A verifier that accepts every item of a list, each in the context that the item before it left behind.\<close>

definition accepts_all :: "('c \<Rightarrow> 'd \<Rightarrow> bool \<times> 'c) \<Rightarrow> 'c \<Rightarrow> 'd list \<Rightarrow> 'c \<Rightarrow> bool" where
  "accepts_all f ctx ds ctx' \<longleftrightarrow> (\<exists>cs. length cs = Suc (length ds) \<and> cs ! 0 = ctx \<and> cs ! length ds = ctx' \<and>
     (\<forall>i<length ds. f (cs ! i) (ds ! i) = (True, cs ! Suc i)))"

lemma accepts_all_Nil [simp]: "accepts_all f ctx [] ctx' \<longleftrightarrow> ctx' = ctx"
  by (auto simp: accepts_all_def intro: exI [of _ "[ctx]"])

lemma accepts_all_Cons: "accepts_all f ctx (d # ds) ctx' \<longleftrightarrow> (\<exists>c. f ctx d = (True, c) \<and> accepts_all f c ds ctx')"
proof
  assume "accepts_all f ctx (d # ds) ctx'"
  then obtain cs where cs: "length cs = Suc (Suc (length ds))" "cs ! 0 = ctx" "cs ! Suc (length ds) = ctx'"
    "\<And>i. i < Suc (length ds) \<Longrightarrow> f (cs ! i) ((d # ds) ! i) = (True, cs ! Suc i)"
    by (auto simp: accepts_all_def)
  then have "f ctx d = (True, cs ! 1)" "accepts_all f (cs ! 1) ds ctx'"
    using cs(4) [of 0] cs(4) [of "Suc i" for i] by (auto simp: accepts_all_def nth_tl intro!: exI [of _ "tl cs"])
  then show "\<exists>c. f ctx d = (True, c) \<and> accepts_all f c ds ctx'" by blast
next
  assume "\<exists>c. f ctx d = (True, c) \<and> accepts_all f c ds ctx'"
  then obtain c cs where "f ctx d = (True, c)" "length cs = Suc (length ds)" "cs ! 0 = c" "cs ! length ds = ctx'"
    "\<forall>i<length ds. f (cs ! i) (ds ! i) = (True, cs ! Suc i)"
    by (auto simp: accepts_all_def)
  then show "accepts_all f ctx (d # ds) ctx'" by (auto simp: accepts_all_def nth_Cons' less_Suc_eq_0_disj intro!: exI [of _ "ctx # cs"])
qed

lemma check_spends_accepts:
  "check_spends lib h ctx spends = Inr ctx' \<longleftrightarrow>
   accepts_all (\<lambda>c s. sapling_check_spend lib c (spend_cv s) (spend_anchor s) (spend_nullifier s) (spend_rk s) (spend_zkproof s) (spendAuthSig s) h)
     ctx spends ctx'"
  by (induction lib h ctx spends rule: check_spends.induct) (auto simp: accepts_all_Cons Let_def split: prod.splits)

lemma check_output_descriptions_accepts:
  "check_output_descriptions lib ctx ds = Inr ctx' \<longleftrightarrow>
   accepts_all (\<lambda>c d. sapling_check_output lib c (output_cv d) (output_cm d) (output_ephemeralKey d) (output_zkproof d)) ctx ds ctx'"
  by (induction lib ctx ds rule: check_output_descriptions.induct) (auto simp: accepts_all_Cons Let_def split: prod.splits)

section \<open>Properties\<close>

text \<open>C19: At a height where Sapling is active, a transaction with shielded parts passes the contextual checks exactly when it is a Sapling
  transaction that has not expired and the libraries accept all of it: the join split signature verifies, every shielded spend and then
  every shielded output is accepted in the context left by the one before, starting from a fresh context, and the binding signature is
  accepted in the last one, all for one signature hash: the one of this transaction for the epoch of that height.\<close>

theorem contextual_check_sapling:
  assumes "NetworkUpgradeActive params nHeight UPGRADE_SAPLING = Inr True" "NetworkUpgradeActive params nHeight UPGRADE_OVERWINTER = Inr True"
    and "vJoinSplit tx \<noteq> [] \<or> vShieldedSpend tx \<noteq> [] \<or> vShieldedOutput tx \<noteq> []"
  shows "ContextualCheckTransaction lib blake ibd tx st params nHeight dosLevel = Inr (True, st') \<longleftrightarrow>
    fOverwintered tx \<and> nVersionGroupId tx = SAPLING_VERSION_GROUP_ID \<and> nVersion tx = 4 \<and> \<not> IsExpiredTx tx nHeight \<and> st' = st \<and>
    (\<exists>branchId h. CurrentEpochBranchId nHeight params = Inr branchId \<and>
       SignatureHash blake [] tx NOT_AN_INPUT SIGHASH_ALL 0 branchId None = Inr h \<and>
       (vJoinSplit tx \<noteq> [] \<longrightarrow> sign_verify_detached lib (joinSplitSig tx) h (joinSplitPubKey tx)) \<and>
       (vShieldedSpend tx \<noteq> [] \<or> vShieldedOutput tx \<noteq> [] \<longrightarrow>
         (\<exists>ctx ctx'. accepts_all (\<lambda>c s. sapling_check_spend lib c (spend_cv s) (spend_anchor s) (spend_nullifier s) (spend_rk s)
              (spend_zkproof s) (spendAuthSig s) h) (verification_ctx_init lib) (vShieldedSpend tx) ctx \<and>
            accepts_all (\<lambda>c d. sapling_check_output lib c (output_cv d) (output_cm d) (output_ephemeralKey d) (output_zkproof d))
              ctx (vShieldedOutput tx) ctx' \<and>
            sapling_final_check lib ctx' (valueBalance tx) (bindingSig tx) h)))"
proof -
  have v: "context_version True True ibd dosLevel tx = Inr () \<and> context_expiry True nHeight dosLevel tx = Inr () \<longleftrightarrow>
      isSaplingV4 tx \<and> \<not> IsExpiredTx tx nHeight"
    using context_version_Inr [of True True ibd dosLevel tx "()" nHeight "()"] by (auto simp: isSaplingV4_def)
  have checks: "ContextualCheckTransaction lib blake ibd tx st params nHeight dosLevel = Inr (True, st') \<longleftrightarrow>
      isSaplingV4 tx \<and> \<not> IsExpiredTx tx nHeight \<and> st' = st \<and> (\<exists>h. data_to_be_signed blake tx params nHeight = Inr h \<and> context_shielded lib ibd tx h = Inr ())"
  proof -
    have "context_check lib blake ibd tx params nHeight dosLevel =
        and_then (context_version True True ibd dosLevel tx) (\<lambda>_. and_then (context_expiry True nHeight dosLevel tx) (\<lambda>_.
        and_then (data_to_be_signed blake tx params nHeight) (context_shielded lib ibd tx)))"
      using assms(1,2) by (simp add: context_check_def escape_def)
    then show ?thesis using v by (simp add: ContextualCheckTransaction_def run_check_True) blast
  qed
  have shielded: "context_shielded lib ibd tx h = Inr () \<longleftrightarrow>
      (vJoinSplit tx \<noteq> [] \<longrightarrow> sign_verify_detached lib (joinSplitSig tx) h (joinSplitPubKey tx)) \<and>
      (vShieldedSpend tx \<noteq> [] \<or> vShieldedOutput tx \<noteq> [] \<longrightarrow>
         (\<exists>ctx ctx'. check_spends lib h (verification_ctx_init lib) (vShieldedSpend tx) = Inr ctx \<and>
            check_output_descriptions lib ctx (vShieldedOutput tx) = Inr ctx' \<and>
            sapling_final_check lib ctx' (valueBalance tx) (bindingSig tx) h))" for h
    by (auto simp: context_shielded_def)
  show ?thesis
    unfolding checks shielded data_to_be_signed_Inr [OF assms(3)] check_spends_accepts check_output_descriptions_accepts isSaplingV4_def by blast
qed

abbreviation (input) demo_spend :: SpendDescription where
  "demo_spend \<equiv> \<lparr>spend_cv = replicate 32 1, spend_anchor = replicate 32 2, spend_nullifier = replicate 32 3, spend_rk = replicate 32 4,
     spend_zkproof = replicate 192 5, spendAuthSig = replicate 64 6\<rparr>"

text \<open>A verifier that accepts one binding signature, for one spend of a given key with any number of outputs.\<close>

abbreviation (input) demo_lib :: "nat shielded_lib" where
  "demo_lib \<equiv> \<lparr>sign_verify_detached = (\<lambda>sig h k. False), verification_ctx_init = 0,
     sapling_check_spend = (\<lambda>ctx cv anchor nf rk proof sig h. (rk = replicate 32 4, ctx + 1)), sapling_check_output = (\<lambda>ctx cv cm key proof. (True, ctx)),
     sapling_final_check = (\<lambda>ctx v sig h. ctx = 1 \<and> sig = replicate 64 9)\<rparr>"

theorem contextual_check_sapling_witness:
  "ContextualCheckTransaction demo_lib demo_blake False (demo_sapling\<lparr>vShieldedSpend := [demo_spend], bindingSig := replicate 64 9\<rparr>)
     CValidationState_init CMainParams 10 100 = Inr (True, CValidationState_init) \<and>
   ContextualCheckTransaction demo_lib demo_blake False (demo_sapling\<lparr>vShieldedSpend := [demo_spend\<lparr>spend_rk := []\<rparr>], bindingSig := replicate 64 9\<rparr>)
     CValidationState_init CMainParams 10 100 \<noteq> Inr (True, CValidationState_init)"
proof -
  let ?tx = "demo_sapling\<lparr>vShieldedSpend := [demo_spend], bindingSig := replicate 64 9\<rparr>"
  have a: "NetworkUpgradeActive CMainParams 10 UPGRADE_SAPLING = Inr True" "NetworkUpgradeActive CMainParams 10 UPGRADE_OVERWINTER = Inr True"
    by (simp_all add: NetworkUpgradeActive_eq upgrade_active_def CMainParams_def)
  obtain b where b: "CurrentEpochBranchId 10 CMainParams = Inr b"
    using CurrentEpoch_total [OF CMainParams_wf(1), of 10] by (auto simp: CurrentEpochBranchId_def)
  have "ok_tx ?tx" by (simp add: ok_tx_def CMutableTransaction_def isSaplingV4_def in_int64_def ok_SpendDescription_def)
  moreover have "covers_all 1" by (simp add: covers_all_def fAnyoneCanPay_def fHashSingle_def fHashNone_def)
  ultimately obtain h where "SignatureHash demo_blake [] ?tx NOT_AN_INPUT 1 0 b None = Inr h"
    using SignatureHash_covers_all [of ?tx 1 NOT_AN_INPUT demo_blake "[]" 0 b] by simp
  then show ?thesis
    using b by (simp add: contextual_check_sapling [OF a] accepts_all_Cons IsExpiredTx_def CMutableTransaction_def)
qed

end
