(* ===== verification/MerkleTree.thy ===== *)
theory MerkleTree
  imports Serialize Sha2
begin

text \<open>
  The incremental Merkle trees of note commitments and their witnesses (\<^verbatim>\<open>zcash/IncrementalMerkleTree.hpp\<close> and \<^verbatim>\<open>.cpp\<close>). The
  templates are generic in the hash; here its two static functions are the fields of a record. A \<open>boost::optional\<close> is an option, the
  queue of a \<open>PathFiller\<close> a list that \<open>filler_next\<close> returns shortened.
\<close>

section \<open>The code\<close>

record 'h merkle_hash =
  hash_combine :: "'h \<Rightarrow> 'h \<Rightarrow> nat \<Rightarrow> 'h"
  EmptyRoot :: "nat \<Rightarrow> 'h"

record 'h IncrementalMerkleTree =
  left :: "'h option"
  right :: "'h option"
  parents :: "'h option list"

definition IncrementalMerkleTree_empty :: "'h IncrementalMerkleTree" where
  "IncrementalMerkleTree_empty = \<lparr>left = None, right = None, parents = []\<rparr>"

definition filler_next :: "'h merkle_hash \<Rightarrow> nat \<Rightarrow> 'h list \<Rightarrow> 'h \<times> 'h list" where
  "filler_next H depth queue = (case queue of h # queue \<Rightarrow> (h, queue) | [] \<Rightarrow> (EmptyRoot H depth, []))"

definition tree_wfcheck :: "nat \<Rightarrow> 'h IncrementalMerkleTree \<Rightarrow> failure + unit" where
  "tree_wfcheck Depth t =
     (if length (parents t) \<ge> Depth then Inl (Thrown ''tree has too many parents'')
      else if parents t \<noteq> [] \<and> last (parents t) = None then Inl (Thrown ''tree has non-canonical representation of parent'')
      else if left t = None \<and> right t \<noteq> None then Inl (Thrown ''tree has non-canonical representation; right should not exist'')
      else if left t = None \<and> length (parents t) > 0 then
        Inl (Thrown ''tree has non-canonical representation; parents should not be unempty'')
      else Inr ())"

definition tree_last :: "'h IncrementalMerkleTree \<Rightarrow> failure + 'h" where
  "tree_last t = (case right t of Some h \<Rightarrow> Inr h | None \<Rightarrow>
     (case left t of Some h \<Rightarrow> Inr h | None \<Rightarrow> Inl (Thrown ''tree has no cursor'')))"

text \<open>The summands of the size are shifts of the \<open>int\<close> 1, which are converted to the unsigned result.\<close>

fun size_loop :: "nat \<Rightarrow> 'h option list \<Rightarrow> u64 \<Rightarrow> u64" where
  "size_loop i [] ret = ret"
| "size_loop i (p # ps) ret = size_loop (i + 1) ps (if p \<noteq> None then ret + scast (push_bit (i + 1) (1 :: u32)) else ret)"

definition tree_size :: "'h IncrementalMerkleTree \<Rightarrow> u64" where
  "tree_size t = (let ret = (if left t \<noteq> None then 1 else 0); ret = (if right t \<noteq> None then ret + 1 else ret) in size_loop 0 (parents t) ret)"

text \<open>A tree that is complete to a depth. There, \<open>depth - 1\<close> is an unsigned number, which no size equals when the depth is zero.\<close>

definition is_complete :: "nat \<Rightarrow> 'h IncrementalMerkleTree \<Rightarrow> bool" where
  "is_complete depth t \<longleftrightarrow> left t \<noteq> None \<and> right t \<noteq> None \<and> length (parents t) + 1 = depth \<and> list_all (\<lambda>p. p \<noteq> None) (parents t)"

fun append_loop :: "'h merkle_hash \<Rightarrow> nat \<Rightarrow> nat \<Rightarrow> 'h option list \<Rightarrow> 'h \<Rightarrow> 'h option list" where
  "append_loop H Depth i [] combined = (if i < Depth then [Some combined] else [])"
| "append_loop H Depth i (p # ps) combined =
     (if i < Depth then
        (case p of Some h \<Rightarrow> None # append_loop H Depth (i + 1) ps (hash_combine H h combined (i + 1)) | None \<Rightarrow> Some combined # ps)
      else p # ps)"

definition tree_append :: "'h merkle_hash \<Rightarrow> nat \<Rightarrow> 'h \<Rightarrow> 'h IncrementalMerkleTree \<Rightarrow> failure + 'h IncrementalMerkleTree" where
  "tree_append H Depth obj t =
     (if is_complete Depth t then Inl (Thrown ''tree is full'')
      else case left t of None \<Rightarrow> Inr (t\<lparr>left := Some obj\<rparr>)
      | Some l \<Rightarrow> (case right t of None \<Rightarrow> Inr (t\<lparr>right := Some obj\<rparr>)
        | Some r \<Rightarrow> Inr (t\<lparr>left := Some obj, right := None, parents := append_loop H Depth 0 (parents t) (hash_combine H l r 0)\<rparr>)))"

fun next_depth_loop :: "nat \<Rightarrow> nat \<Rightarrow> 'h option list \<Rightarrow> nat" where
  "next_depth_loop skip d [] = d + skip"
| "next_depth_loop skip d (p # ps) =
     (if p = None then if skip > 0 then next_depth_loop (skip - 1) (d + 1) ps else d
      else next_depth_loop skip (d + 1) ps)"

definition next_depth :: "nat \<Rightarrow> 'h IncrementalMerkleTree \<Rightarrow> nat" where
  "next_depth skip t =
     (if left t = None \<and> skip = 0 then 0
      else let skip = (if left t = None then skip - 1 else skip) in
      if right t = None \<and> skip = 0 then 0
      else let skip = (if right t = None then skip - 1 else skip) in
      next_depth_loop skip 1 (parents t))"

fun root_parents :: "'h merkle_hash \<Rightarrow> nat \<Rightarrow> 'h \<Rightarrow> 'h list \<Rightarrow> 'h option list \<Rightarrow> nat \<times> 'h \<times> 'h list" where
  "root_parents H d r filler [] = (d, r, filler)"
| "root_parents H d r filler (p # ps) =
     (case p of Some h \<Rightarrow> root_parents H (d + 1) (hash_combine H h r d) filler ps
      | None \<Rightarrow> let (h, filler) = filler_next H d filler in root_parents H (d + 1) (hash_combine H r h d) filler ps)"

function root_fill :: "'h merkle_hash \<Rightarrow> nat \<Rightarrow> nat \<Rightarrow> 'h \<Rightarrow> 'h list \<Rightarrow> 'h" where
  "root_fill H depth d r filler =
     (if d < depth then let (h, filler) = filler_next H d filler in root_fill H depth (d + 1) (hash_combine H r h d) filler else r)"
  by pat_completeness auto
termination
  by (relation "measure (\<lambda>(_, depth, d, _, _). depth - d)") auto

declare root_fill.simps [simp del]

definition tree_root :: "'h merkle_hash \<Rightarrow> nat \<Rightarrow> 'h list \<Rightarrow> 'h IncrementalMerkleTree \<Rightarrow> 'h" where
  "tree_root H depth filler t =
     (let (combine_left, filler) = (case left t of Some h \<Rightarrow> (h, filler) | None \<Rightarrow> filler_next H 0 filler);
          (combine_right, filler) = (case right t of Some h \<Rightarrow> (h, filler) | None \<Rightarrow> filler_next H 0 filler);
          (d, r, filler) = root_parents H 1 (hash_combine H combine_left combine_right 0) filler (parents t)
      in root_fill H depth d r filler)"

text \<open>An authentication path, before its hashes are unpacked into bits: the hashes and whether the node is the right child, from the leaf.\<close>

fun path_parents :: "'h merkle_hash \<Rightarrow> nat \<Rightarrow> 'h list \<Rightarrow> 'h option list \<Rightarrow> (bool \<times> 'h) list \<times> nat \<times> 'h list" where
  "path_parents H d filler [] = ([], d, filler)"
| "path_parents H d filler (p # ps) =
     (case p of Some h \<Rightarrow> let (path, r) = path_parents H (d + 1) filler ps in ((True, h) # path, r)
      | None \<Rightarrow> let (h, filler) = filler_next H d filler; (path, r) = path_parents H (d + 1) filler ps in ((False, h) # path, r))"

function path_fill :: "'h merkle_hash \<Rightarrow> nat \<Rightarrow> nat \<Rightarrow> 'h list \<Rightarrow> (bool \<times> 'h) list" where
  "path_fill H Depth d filler =
     (if d < Depth then let (h, filler) = filler_next H d filler in (False, h) # path_fill H Depth (d + 1) filler else [])"
  by pat_completeness auto
termination
  by (relation "measure (\<lambda>(_, Depth, d, _). Depth - d)") auto

declare path_fill.simps [simp del]

definition path_steps :: "'h merkle_hash \<Rightarrow> nat \<Rightarrow> 'h list \<Rightarrow> 'h IncrementalMerkleTree \<Rightarrow> failure + (bool \<times> 'h) list" where
  "path_steps H Depth filler t =
     (case left t of None \<Rightarrow> Inl (Thrown ''can't create an authentication path for the beginning of the tree'')
      | Some l \<Rightarrow>
        let (step, filler) = (if right t \<noteq> None then ((True, l), filler) else let (h, filler) = filler_next H 0 filler in ((False, h), filler));
            (path, d, filler) = path_parents H 1 filler (parents t)
        in Inr (step # path @ path_fill H Depth d filler))"

record MerklePath =
  authentication_path :: "bool list list"
  path_index :: "bool list"

definition convertBytesVectorToVector :: "bytes \<Rightarrow> bool list" where
  "convertBytesVectorToVector bs = concat (map (\<lambda>b. map (\<lambda>p. bit b (7 - p)) [0..<8]) bs)"

definition tree_path :: "bytes merkle_hash \<Rightarrow> nat \<Rightarrow> bytes list \<Rightarrow> bytes IncrementalMerkleTree \<Rightarrow> failure + MerklePath" where
  "tree_path H Depth filler t = and_then (path_steps H Depth filler t) (\<lambda>steps.
     Inr \<lparr>authentication_path = rev (map (\<lambda>(_, h). convertBytesVectorToVector h) steps), path_index = rev (map fst steps)\<rparr>)"

record 'h IncrementalWitness =
  wit_tree :: "'h IncrementalMerkleTree"
  filled :: "'h list"
  wit_cursor :: "'h IncrementalMerkleTree option"
  cursor_depth :: nat

definition tree_witness :: "'h IncrementalMerkleTree \<Rightarrow> 'h IncrementalWitness" where
  "tree_witness t = \<lparr>wit_tree = t, filled = [], wit_cursor = None, cursor_depth = 0\<rparr>"

definition partial_path :: "'h merkle_hash \<Rightarrow> 'h IncrementalWitness \<Rightarrow> 'h list" where
  "partial_path H w = filled w @ (case wit_cursor w of None \<Rightarrow> [] | Some c \<Rightarrow> [tree_root H (cursor_depth w) [] c])"

definition witness_element :: "'h IncrementalWitness \<Rightarrow> failure + 'h" where
  "witness_element w = tree_last (wit_tree w)"

text \<open>The position is unsigned: it wraps for the empty tree.\<close>

definition witness_position :: "'h IncrementalWitness \<Rightarrow> u64" where
  "witness_position w = tree_size (wit_tree w) - 1"

definition witness_root :: "'h merkle_hash \<Rightarrow> nat \<Rightarrow> 'h IncrementalWitness \<Rightarrow> 'h" where
  "witness_root H Depth w = tree_root H Depth (partial_path H w) (wit_tree w)"

definition witness_append :: "'h merkle_hash \<Rightarrow> nat \<Rightarrow> 'h \<Rightarrow> 'h IncrementalWitness \<Rightarrow> failure + 'h IncrementalWitness" where
  "witness_append H Depth obj w =
     (case wit_cursor w of
        Some c \<Rightarrow> and_then (tree_append H Depth obj c) (\<lambda>c.
          if is_complete (cursor_depth w) c then
            Inr (w\<lparr>filled := filled w @ [tree_root H (cursor_depth w) [] c], wit_cursor := None\<rparr>)
          else Inr (w\<lparr>wit_cursor := Some c\<rparr>))
      | None \<Rightarrow>
        let w = w\<lparr>cursor_depth := next_depth (length (filled w)) (wit_tree w)\<rparr> in
        if cursor_depth w \<ge> Depth then Inl (Thrown ''tree is full'')
        else if cursor_depth w = 0 then Inr (w\<lparr>filled := filled w @ [obj]\<rparr>)
        else and_then (tree_append H Depth obj IncrementalMerkleTree_empty) (\<lambda>c. Inr (w\<lparr>wit_cursor := Some c\<rparr>)))"

text \<open>The hash of the Sprout tree: the compression function of SHA-256 on the two children.\<close>

definition SHA256Compress_combine :: "bytes \<Rightarrow> bytes \<Rightarrow> nat \<Rightarrow> failure + bytes" where
  "SHA256Compress_combine a b depth = CSHA256_FinalizeNoPadding (CSHA256_Write (CSHA256_Write CSHA256 (take 32 a)) (take 32 b)) True"

section \<open>The tree of a list of leaves\<close>

text \<open>The root of the tree of the given depth over a list of leaves, filled up with empty subtrees.\<close>

fun merkle_root :: "'h merkle_hash \<Rightarrow> nat \<Rightarrow> 'h list \<Rightarrow> 'h" where
  "merkle_root H 0 xs = (case xs of [] \<Rightarrow> EmptyRoot H 0 | x # _ \<Rightarrow> x)"
| "merkle_root H (Suc d) xs = hash_combine H (merkle_root H d (take (2 ^ d) xs)) (merkle_root H d (drop (2 ^ d) xs)) d"

text \<open>The table of empty roots is the one of the hash, up to a depth.\<close>

definition empty_roots_ok :: "'h merkle_hash \<Rightarrow> nat \<Rightarrow> bool" where
  "empty_roots_ok H Depth \<longleftrightarrow> (\<forall>d < Depth. EmptyRoot H (Suc d) = hash_combine H (EmptyRoot H d) (EmptyRoot H d) d)"

lemma merkle_root_empty: "empty_roots_ok H Depth \<Longrightarrow> d \<le> Depth \<Longrightarrow> merkle_root H d [] = EmptyRoot H d"
  by (induction d) (auto simp: empty_roots_ok_def)

lemma merkle_root_join:
  assumes "length b = 2 ^ d"
  shows "merkle_root H (Suc d) (b @ ys) = hash_combine H (merkle_root H d b) (merkle_root H d ys) d"
  using assms by simp

lemma merkle_root_take: "merkle_root H d (take (2 ^ d) xs) = merkle_root H d xs"
proof (induction d arbitrary: xs)
  case 0
  then show ?case by (cases xs) auto
next
  case (Suc d)
  have "drop (2 ^ d) (take (2 ^ Suc d) xs) = take (2 ^ d) (drop (2 ^ d) xs)" by (simp add: drop_take)
  then show ?case using Suc [of "drop (2 ^ d) xs"] by (simp add: take_drop min_def)
qed

text \<open>The subtrees that the parents hold, from a level upwards.\<close>

fun parents_rep :: "'h merkle_hash \<Rightarrow> nat \<Rightarrow> 'h option list \<Rightarrow> 'h list \<Rightarrow> bool" where
  "parents_rep H d [] ys \<longleftrightarrow> ys = []"
| "parents_rep H d (None # ps) ys \<longleftrightarrow> parents_rep H (Suc d) ps ys"
| "parents_rep H d (Some h # ps) ys \<longleftrightarrow> (\<exists>zs b. ys = zs @ b \<and> length b = 2 ^ d \<and> h = merkle_root H d b \<and> parents_rep H (Suc d) ps zs)"

definition leaves_rep :: "'h IncrementalMerkleTree \<Rightarrow> 'h list \<Rightarrow> bool" where
  "leaves_rep t b \<longleftrightarrow> (case left t of None \<Rightarrow> right t = None \<and> b = [] \<and> parents t = []
     | Some l \<Rightarrow> (case right t of None \<Rightarrow> b = [l] | Some r \<Rightarrow> b = [l, r]))"

definition tree_rep :: "'h merkle_hash \<Rightarrow> 'h IncrementalMerkleTree \<Rightarrow> 'h list \<Rightarrow> bool" where
  "tree_rep H t xs \<longleftrightarrow> (\<exists>ys b. xs = ys @ b \<and> leaves_rep t b \<and> parents_rep H 1 (parents t) ys) \<and> (parents t \<noteq> [] \<longrightarrow> last (parents t) \<noteq> None)"

lemma tree_rep_empty: "tree_rep H IncrementalMerkleTree_empty []"
  by (simp add: tree_rep_def leaves_rep_def IncrementalMerkleTree_empty_def)

fun occupied :: "nat \<Rightarrow> 'h option list \<Rightarrow> nat" where
  "occupied d [] = 0"
| "occupied d (p # ps) = (if p = None then 0 else 2 ^ d) + occupied (Suc d) ps"

lemma parents_rep_length: "parents_rep H d ps ys \<Longrightarrow> length ys = occupied d ps"
  by (induction H d ps ys rule: parents_rep.induct) auto

lemma occupied_upper: "occupied d ps + 2 ^ d \<le> 2 ^ (d + length ps)"
proof (induction ps arbitrary: d)
  case (Cons p ps)
  then show ?case using Cons [of "Suc d"] by (auto simp: )
qed simp

lemma occupied_full: "occupied d ps + 2 ^ d = 2 ^ (d + length ps) \<longleftrightarrow> list_all (\<lambda>p. p \<noteq> None) ps"
proof (induction ps arbitrary: d)
  case (Cons p ps)
  have "occupied (Suc d) ps + 2 ^ d < 2 ^ (d + length (p # ps))"
  proof -
    have "(2 :: nat) ^ d < 2 * 2 ^ d" by simp
    moreover have "occupied (Suc d) ps + 2 * 2 ^ d \<le> 2 ^ (d + length (p # ps))" using occupied_upper [of "Suc d" ps] by simp
    ultimately show ?thesis by linarith
  qed
  then show ?case using Cons [of "Suc d"] by (cases p) auto
qed simp

lemma occupied_lower: "ps \<noteq> [] \<Longrightarrow> last ps \<noteq> None \<Longrightarrow> 2 ^ (d + length ps - 1) \<le> occupied d ps"
proof (induction ps arbitrary: d)
  case (Cons p ps)
  then show ?case using Cons.IH [of "Suc d"] by (cases "ps = []") auto
qed simp

lemma tree_rep_length:
  assumes "tree_rep H t xs"
  shows "length xs = (if left t \<noteq> None then 1 else 0) + (if right t \<noteq> None then 1 else 0) + occupied 1 (parents t)"
  using assms by (auto simp: tree_rep_def leaves_rep_def dest: parents_rep_length split: option.splits)

lemma tree_rep_bounds:
  assumes "tree_rep H t xs" "parents t \<noteq> []"
  shows "2 ^ length (parents t) < length xs" "left t \<noteq> None"
proof -
  show l: "left t \<noteq> None" using assms by (auto simp: tree_rep_def leaves_rep_def split: option.splits)
  show "2 ^ length (parents t) < length xs"
    using occupied_lower [of "parents t" 1] assms l tree_rep_length [OF assms(1)] by (auto simp: tree_rep_def)
qed

lemma parents_short:
  assumes "tree_rep H t xs" "length xs \<le> 2 ^ d" "0 < d"
  shows "length (parents t) < d"
proof (cases "parents t = []")
  case False
  then have "2 ^ length (parents t) < (2 :: nat) ^ d" using tree_rep_bounds(1) [OF assms(1)] assms(2) by linarith
  then show ?thesis by simp
qed (use assms in simp)

lemma is_complete_iff:
  assumes "tree_rep H t xs" "0 < d"
  shows "is_complete d t \<longleftrightarrow> length xs = 2 ^ d"
proof
  assume c: "is_complete d t"
  then have "occupied 1 (parents t) + 2 ^ 1 = 2 ^ (1 + length (parents t))" using occupied_full [of 1 "parents t"] by (simp add: is_complete_def)
  then show "length xs = 2 ^ d" using c tree_rep_length [OF assms(1)] by (auto simp: is_complete_def)
next
  assume len: "length xs = 2 ^ d"
  have short: "length (parents t) < d" using parents_short [OF assms(1) _ assms(2)] len by simp
  have "2 ^ (1 + length (parents t)) \<le> (2 :: nat) ^ d" using short by (intro power_increasing) auto
  moreover have up: "occupied 1 (parents t) + 2 \<le> 2 ^ (1 + length (parents t))" using occupied_upper [of 1 "parents t"] by simp
  moreover have n: "length xs \<le> 2 + occupied 1 (parents t)" using tree_rep_length [OF assms(1)] by (auto split: if_splits)
  ultimately have eq: "occupied 1 (parents t) + 2 = 2 ^ (1 + length (parents t)) \<and> (2 :: nat) ^ (1 + length (parents t)) = 2 ^ d"
    using len by linarith
  then have "list_all (\<lambda>p. p \<noteq> None) (parents t)" using occupied_full [of 1 "parents t"] by simp
  moreover have "1 + length (parents t) = d" using conjunct2 [OF eq] by (rule power_inject_exp [THEN iffD1, rotated]) simp
  moreover have "left t \<noteq> None \<and> right t \<noteq> None" using tree_rep_length [OF assms(1)] eq len n by (auto split: if_splits)
  ultimately show "is_complete d t" by (simp add: is_complete_def)
qed

section \<open>Appending a leaf\<close>

lemma append_loop_rep:
  assumes "parents_rep H (Suc i) ps ys" "length b = 2 ^ Suc i" "i + length ps < Depth"
  shows "parents_rep H (Suc i) (append_loop H Depth i ps (merkle_root H (Suc i) b)) (ys @ b)"
  using assms
proof (induction ps arbitrary: i ys b)
  case (Cons p ps)
  show ?case
  proof (cases p)
    case None
    then show ?thesis using Cons.prems by (auto simp del: merkle_root.simps)
  next
    case (Some h)
    then obtain zs c where zs: "ys = zs @ c" "length c = 2 ^ Suc i" "h = merkle_root H (Suc i) c" "parents_rep H (Suc (Suc i)) ps zs"
      using Cons.prems by auto
    then have "hash_combine H h (merkle_root H (Suc i) b) (Suc i) = merkle_root H (Suc (Suc i)) (c @ b)"
      using merkle_root_join [of c "Suc i" H b] by simp
    then show ?thesis
      using Cons.IH [of "Suc i" zs "c @ b"] Cons.prems zs Some by (simp del: merkle_root.simps)
  qed
qed (simp del: merkle_root.simps)

lemma append_loop_last:
  "i + length ps < Depth \<Longrightarrow> ps = [] \<or> last ps \<noteq> None \<Longrightarrow> append_loop H Depth i ps c \<noteq> [] \<and> last (append_loop H Depth i ps c) \<noteq> None"
proof (induction ps arbitrary: i c)
  case (Cons p ps)
  show ?case
  proof (cases p)
    case None
    then show ?thesis using Cons.prems by (cases ps) auto
  next
    case (Some h)
    then show ?thesis using Cons.prems Cons.IH [of "Suc i" "hash_combine H h c (Suc i)"] by (cases ps) auto
  qed
qed simp

text \<open>A tree that is not full takes the leaf at the end of its list; a full one raises an exception.\<close>

lemma tree_append_rep:
  assumes "tree_rep H t xs" "0 < Depth" "length xs < 2 ^ Depth"
  shows "\<exists>t'. tree_append H Depth x t = Inr t' \<and> tree_rep H t' (xs @ [x])"
proof -
  have nc: "\<not> is_complete Depth t" using is_complete_iff [OF assms(1,2)] assms(3) by simp
  have short: "length (parents t) < Depth" using parents_short [OF assms(1) _ assms(2)] assms(3) by simp
  obtain ys b where r: "xs = ys @ b" "leaves_rep t b" "parents_rep H 1 (parents t) ys" "parents t \<noteq> [] \<longrightarrow> last (parents t) \<noteq> None"
    using assms(1) by (auto simp: tree_rep_def)
  show ?thesis
  proof (cases "left t = None \<or> right t = None")
    case True
    then show ?thesis using nc r by (auto simp: tree_append_def tree_rep_def leaves_rep_def split: option.splits)
  next
    case False
    then obtain l k where lk: "left t = Some l" "right t = Some k" by auto
    then have b: "b = [l, k]" using r(2) by (simp add: leaves_rep_def)
    have root: "hash_combine H l k 0 = merkle_root H (Suc 0) b" by (simp add: b)
    have "parents_rep H 1 (append_loop H Depth 0 (parents t) (hash_combine H l k 0)) xs"
      unfolding root using append_loop_rep [of H 0 "parents t" ys b Depth] r(1,3) b short by (simp del: merkle_root.simps)
    then show ?thesis
      using nc lk append_loop_last [of 0 "parents t" Depth H "hash_combine H l k 0"] r(4) short
      by (auto simp: tree_append_def tree_rep_def leaves_rep_def)
  qed
qed

lemma tree_append_full: "tree_rep H t xs \<Longrightarrow> 0 < Depth \<Longrightarrow> length xs = 2 ^ Depth \<Longrightarrow> tree_append H Depth x t = Inl (Thrown ''tree is full'')"
  using is_complete_iff [of H t xs Depth] by (simp add: tree_append_def)

section \<open>The root with the uncles filled in\<close>

text \<open>The levels at which a path from the given level leaves a right sibling open, and what the filler hashes stand for: the leaves after
  the tree in blocks, one for each open level.\<close>

fun open_levels :: "nat \<Rightarrow> 'h option list \<Rightarrow> nat \<Rightarrow> nat list" where
  "open_levels d [] depth = [d..<depth]"
| "open_levels d (p # ps) depth = (if p = None then d # open_levels (Suc d) ps depth else open_levels (Suc d) ps depth)"

fun fills :: "'h merkle_hash \<Rightarrow> nat list \<Rightarrow> 'h list \<Rightarrow> 'h list \<Rightarrow> bool" where
  "fills H ds [] ys \<longleftrightarrow> ys = []"
| "fills H (d # ds) (h # q) ys \<longleftrightarrow> h = merkle_root H d (take (2 ^ d) ys) \<and> fills H ds q (drop (2 ^ d) ys)"
| "fills H [] (h # q) ys \<longleftrightarrow> False"

lemma filler_next_fills:
  assumes "fills H (d # ds) q ys" "empty_roots_ok H Depth" "d \<le> Depth"
  shows "\<exists>q'. filler_next H d q = (merkle_root H d (take (2 ^ d) ys), q') \<and> fills H ds q' (drop (2 ^ d) ys)"
  using assms merkle_root_empty [of H Depth d] by (cases q) (auto simp: filler_next_def)

text \<open>A block is followed by further leaves only when it is complete.\<close>

definition block_ok :: "nat \<Rightarrow> 'h list \<Rightarrow> 'h list \<Rightarrow> bool" where
  "block_ok d b ys \<longleftrightarrow> length b \<le> 2 ^ d \<and> (ys \<noteq> [] \<longrightarrow> length b = 2 ^ d)"

lemma block_join:
  assumes "block_ok d b ys" "empty_roots_ok H Depth" "d \<le> Depth"
  shows "hash_combine H (merkle_root H d b) (merkle_root H d (take (2 ^ d) ys)) d = merkle_root H (Suc d) (b @ take (2 ^ d) ys)"
    and "block_ok (Suc d) (b @ take (2 ^ d) ys) (drop (2 ^ d) ys)"
  using assms by (cases "ys = []"; auto simp: block_ok_def)+

lemma block_left: "length c = 2 ^ d \<Longrightarrow> block_ok d b ys \<Longrightarrow> block_ok (Suc d) (c @ b) ys"
  by (auto simp: block_ok_def)

lemma root_fill_root:
  assumes "empty_roots_ok H Depth" "depth \<le> Depth" "fills H [d..<depth] q ys" "block_ok d b ys" "d \<le> depth"
  shows "root_fill H depth d (merkle_root H d b) q = merkle_root H depth (b @ ys)"
  using assms(3-)
proof (induction "depth - d" arbitrary: d q b ys)
  case 0
  then have "ys = []" by (cases q) auto
  then show ?case using 0 by (simp add: root_fill.simps)
next
  case (Suc n)
  then have d: "d < depth" "[d..<depth] = d # [Suc d..<depth]" by (auto simp: upt_conv_Cons)
  then obtain q' where q': "filler_next H d q = (merkle_root H d (take (2 ^ d) ys), q')" "fills H [Suc d..<depth] q' (drop (2 ^ d) ys)"
    using filler_next_fills [of H d "[Suc d..<depth]" q ys Depth] Suc.prems assms(1,2) by auto
  show ?case
    using Suc.hyps(1) [of "Suc d" q' "drop (2 ^ d) ys" "b @ take (2 ^ d) ys"] Suc.hyps(2) q' d block_join [OF Suc.prems(2) assms(1)] assms(2)
    by (subst root_fill.simps) (simp del: merkle_root.simps)
qed

lemma root_parents_root:
  assumes "empty_roots_ok H Depth" "depth \<le> Depth" "parents_rep H d ps zs" "fills H (open_levels d ps depth) q ys" "block_ok d b ys"
    "d + length ps \<le> depth"
  shows "(case root_parents H d (merkle_root H d b) q ps of (d', r, q') \<Rightarrow> root_fill H depth d' r q') = merkle_root H depth (zs @ b @ ys)"
  using assms(3-)
proof (induction ps arbitrary: d q b ys zs)
  case Nil
  then show ?case using root_fill_root [OF assms(1,2)] by simp
next
  case (Cons p ps)
  show ?case
  proof (cases p)
    case None
    then obtain q' where q': "filler_next H d q = (merkle_root H d (take (2 ^ d) ys), q')" "fills H (open_levels (Suc d) ps depth) q' (drop (2 ^ d) ys)"
      using filler_next_fills [of H d "open_levels (Suc d) ps depth" q ys Depth] Cons.prems assms(1,2) by auto
    then show ?thesis
      using Cons.IH [of "Suc d" zs q' "drop (2 ^ d) ys" "b @ take (2 ^ d) ys"] Cons.prems None block_join [OF Cons.prems(3) assms(1)] assms(2)
      by (simp del: merkle_root.simps)
  next
    case (Some h)
    then obtain ws c where ws: "zs = ws @ c" "length c = 2 ^ d" "h = merkle_root H d c" "parents_rep H (Suc d) ps ws"
      using Cons.prems(1) by auto
    then show ?thesis
      using Cons.IH [of "Suc d" ws q ys "c @ b"] Cons.prems Some block_left [OF ws(2) Cons.prems(3)] merkle_root_join [OF ws(2), of H b]
      by (simp del: merkle_root.simps)
  qed
qed

definition tree_open :: "'h IncrementalMerkleTree \<Rightarrow> nat \<Rightarrow> nat list" where
  "tree_open t depth = (if right t = None then [0] else []) @ open_levels 1 (parents t) depth"

lemma tree_root_filled:
  assumes "empty_roots_ok H Depth" "depth \<le> Depth" "0 < depth" "tree_rep H t xs" "xs \<noteq> []" "length (parents t) < depth" "fills H (tree_open t depth) q ys"
  shows "tree_root H depth q t = merkle_root H depth (xs @ ys)"
proof -
  obtain zs b where r: "xs = zs @ b" "leaves_rep t b" "parents_rep H 1 (parents t) zs" using assms(4) by (auto simp: tree_rep_def)
  obtain l where l: "left t = Some l" using r assms(5) by (cases "left t") (auto simp: leaves_rep_def)
  note loop = root_parents_root [OF assms(1,2) r(3)]
  show ?thesis
  proof (cases "right t")
    case None
    then have "fills H (0 # open_levels 1 (parents t) depth) q ys" using assms(7) by (simp add: tree_open_def)
    then obtain q' where q': "filler_next H 0 q = (merkle_root H 0 (take (2 ^ 0) ys), q')" "fills H (open_levels 1 (parents t) depth) q' (drop (2 ^ 0) ys)"
      using filler_next_fills [OF _ assms(1)] by blast
    have b: "b = [l]" "block_ok 0 b ys" using r(2) l None by (auto simp: leaves_rep_def block_ok_def)
    note j = block_join [OF b(2) assms(1)]
    have "hash_combine H l (merkle_root H 0 (take (2 ^ 0) ys)) 0 = merkle_root H 1 (b @ take (2 ^ 0) ys)"
      using j(1) b(1) by simp
    then show ?thesis
      using loop [of q' "drop (2 ^ 0) ys" "b @ take (2 ^ 0) ys"] j(2) q' assms(6) l None r(1)
      by (simp add: tree_root_def del: merkle_root.simps)
  next
    case (Some k)
    have b: "b = [l, k]" "block_ok 1 b ys" using r(2) l Some by (auto simp: leaves_rep_def block_ok_def)
    have "hash_combine H l k 0 = merkle_root H 1 b" by (simp add: b(1))
    then show ?thesis
      using loop [of q ys b] b(2) assms(6,7) l Some r(1) by (simp add: tree_root_def tree_open_def del: merkle_root.simps)
  qed
qed

lemma fills_empty [simp]: "fills H ds [] []"
  by (cases ds) auto

lemma tree_root_exact:
  assumes "empty_roots_ok H Depth" "depth \<le> Depth" "0 < depth" "tree_rep H t xs" "length xs \<le> 2 ^ depth"
  shows "tree_root H depth [] t = merkle_root H depth xs"
proof (cases "xs = []")
  case False
  then show ?thesis using tree_root_filled [OF assms(1-4) _ _ fills_empty] parents_short [OF assms(4,5,3)] by simp
next
  case True
  then have t: "left t = None" "right t = None" "parents t = []"
    using tree_rep_length [OF assms(4)] tree_rep_bounds [OF assms(4)] by (auto split: if_splits)
  have "hash_combine H (EmptyRoot H 0) (EmptyRoot H 0) 0 = merkle_root H 1 []" by simp
  then show ?thesis
    using root_fill_root [OF assms(1,2), of 1 "[]" "[]" "[]"] assms(3) True t
    by (simp add: tree_root_def filler_next_def block_ok_def)
qed

section \<open>Witnesses\<close>

lemma open_levels_sum: "d + length ps \<le> depth \<Longrightarrow> occupied d ps + sum_list (map ((^) 2) (open_levels d ps depth)) + 2 ^ d = 2 ^ depth"
proof (induction ps arbitrary: d)
  case Nil
  then show ?case
  proof (induction "depth - d" arbitrary: d)
    case (Suc n)
    then have "[d..<depth] = d # [Suc d..<depth]" by (simp add: upt_conv_Cons)
    moreover have "n = depth - Suc d" "Suc d \<le> depth" using Suc.hyps(2) by simp_all
    ultimately show ?case using Suc.hyps(1) [of "Suc d"] by simp
  qed simp
next
  case (Cons p ps)
  then show ?case using Cons.IH [of "Suc d"] by auto
qed

lemma tree_rep_left: "tree_rep H t xs \<Longrightarrow> xs \<noteq> [] \<Longrightarrow> left t \<noteq> None"
  by (auto simp: tree_rep_def leaves_rep_def split: option.splits)

lemma tree_open_sum:
  assumes "tree_rep H t xs" "xs \<noteq> []" "length (parents t) < depth"
  shows "length xs + sum_list (map ((^) 2) (tree_open t depth)) = 2 ^ depth"
proof -
  have "left t \<noteq> None" by (rule tree_rep_left [OF assms(1,2)])
  then show ?thesis
    using open_levels_sum [of 1 "parents t" depth] assms(3) tree_rep_length [OF assms(1)] by (auto simp: tree_open_def)
qed

lemma next_depth_loop_open:
  assumes "d + length ps \<le> depth"
  shows "(k < length (open_levels d ps depth) \<longrightarrow> next_depth_loop k d ps = open_levels d ps depth ! k)"
  using assms by (induction ps arbitrary: d k) (auto simp: nth_Cons split: nat.splits)

lemma next_depth_open:
  assumes "left t \<noteq> None" "length (parents t) < depth" "k < length (tree_open t depth)"
  shows "next_depth k t = tree_open t depth ! k"
  using assms next_depth_loop_open [of 1 "parents t" depth]
  by (cases "right t") (auto simp: next_depth_def tree_open_def nth_Cons split: nat.splits)

lemma open_levels_less: "e + length ps \<le> depth \<Longrightarrow> d \<in> set (open_levels e ps depth) \<Longrightarrow> d < depth"
proof (induction ps arbitrary: e)
  case (Cons p ps)
  then show ?case using Cons.IH [of "Suc e"] by (auto split: if_splits)
qed simp

lemma tree_open_less: "length (parents t) < depth \<Longrightarrow> d \<in> set (tree_open t depth) \<Longrightarrow> d < depth"
  using open_levels_less [of 1 "parents t" depth d] by (auto simp: tree_open_def split: if_splits)

text \<open>The completed uncles: each stands for a full block of leaves.\<close>

fun blocks :: "'h merkle_hash \<Rightarrow> nat list \<Rightarrow> 'h list \<Rightarrow> 'h list \<Rightarrow> bool" where
  "blocks H ds [] ys \<longleftrightarrow> ys = []"
| "blocks H [] (h # q) ys \<longleftrightarrow> False"
| "blocks H (d # ds) (h # q) ys \<longleftrightarrow> (\<exists>b zs. ys = b @ zs \<and> length b = 2 ^ d \<and> h = merkle_root H d b \<and> blocks H ds q zs)"

lemma blocks_fills: "blocks H ds q ys \<Longrightarrow> fills H (drop (length q) ds) q' zs \<Longrightarrow> fills H ds (q @ q') (ys @ zs)"
  by (induction H ds q ys rule: blocks.induct) auto

lemma blocks_snoc:
  "blocks H ds q ys \<Longrightarrow> length q < length ds \<Longrightarrow> length b = 2 ^ (ds ! length q) \<Longrightarrow>
   blocks H ds (q @ [merkle_root H (ds ! length q) b]) (ys @ b)"
proof (induction H ds q ys rule: blocks.induct)
  case (1 H ds ys)
  then show ?case by (cases ds) auto
next
  case (3 H d ds h q ys)
  then obtain c zs where c: "ys = c @ zs" "length c = 2 ^ d" "h = merkle_root H d c" "blocks H ds q zs" by auto
  then have "blocks H ds (q @ [merkle_root H (ds ! length q) b]) (zs @ b)" using 3 by simp
  then show ?case using c by auto
qed simp

lemma blocks_length: "blocks H ds q ys \<Longrightarrow> length q \<le> length ds \<and> length ys = sum_list (map ((^) 2) (take (length q) ds))"
  by (induction H ds q ys rule: blocks.induct) auto

definition cursor_rep :: "'h merkle_hash \<Rightarrow> nat \<Rightarrow> 'h IncrementalWitness \<Rightarrow> 'h list \<Rightarrow> bool" where
  "cursor_rep H Depth w ys \<longleftrightarrow> (case wit_cursor w of None \<Rightarrow> ys = []
     | Some c \<Rightarrow> length (filled w) < length (tree_open (wit_tree w) Depth) \<and> cursor_depth w = tree_open (wit_tree w) Depth ! length (filled w) \<and>
         0 < cursor_depth w \<and> tree_rep H c ys \<and> length ys < 2 ^ cursor_depth w)"

definition witness_rep :: "'h merkle_hash \<Rightarrow> nat \<Rightarrow> 'h IncrementalWitness \<Rightarrow> 'h list \<Rightarrow> 'h list \<Rightarrow> bool" where
  "witness_rep H Depth w xs ys \<longleftrightarrow> tree_rep H (wit_tree w) xs \<and> xs \<noteq> [] \<and> length (parents (wit_tree w)) < Depth \<and>
     (\<exists>us vs. ys = us @ vs \<and> blocks H (tree_open (wit_tree w) Depth) (filled w) us \<and> cursor_rep H Depth w vs)"

lemma witness_rep_init: "tree_rep H t xs \<Longrightarrow> xs \<noteq> [] \<Longrightarrow> length xs \<le> 2 ^ Depth \<Longrightarrow> 0 < Depth \<Longrightarrow> witness_rep H Depth (tree_witness t) xs []"
  using parents_short [of H t xs Depth] by (simp add: witness_rep_def tree_witness_def cursor_rep_def)

lemma witness_rep_room:
  assumes "witness_rep H Depth w xs ys" "length (xs @ ys) < 2 ^ Depth" "wit_cursor w = None"
  shows "length (filled w) < length (tree_open (wit_tree w) Depth)"
    and "next_depth (length (filled w)) (wit_tree w) = tree_open (wit_tree w) Depth ! length (filled w)"
    and "tree_open (wit_tree w) Depth ! length (filled w) < Depth"
proof -
  let ?ds = "tree_open (wit_tree w) Depth"
  have t: "tree_rep H (wit_tree w) xs" "xs \<noteq> []" "length (parents (wit_tree w)) < Depth" and b: "blocks H ?ds (filled w) ys"
    using assms(1,3) by (auto simp: witness_rep_def cursor_rep_def)
  have "length ys < sum_list (map ((^) 2) ?ds)" using tree_open_sum [OF t] assms(2) by simp
  then have "length (filled w) \<noteq> length ?ds" using blocks_length [OF b] by auto
  then show k: "length (filled w) < length ?ds" using blocks_length [OF b] by simp
  have "left (wit_tree w) \<noteq> None" by (rule tree_rep_left [OF t(1,2)])
  then show "next_depth (length (filled w)) (wit_tree w) = ?ds ! length (filled w)" using t(3) k by (rule next_depth_open)
  show "?ds ! length (filled w) < Depth" using tree_open_less [OF t(3)] k by simp
qed

lemma witness_append_start:
  assumes "witness_rep H Depth w xs ys" "length (xs @ ys) < 2 ^ Depth" "wit_cursor w = None"
  shows "\<exists>w'. witness_append H Depth x w = Inr w' \<and> witness_rep H Depth w' xs (ys @ [x])"
proof -
  let ?ds = "tree_open (wit_tree w) Depth" let ?d = "?ds ! length (filled w)"
  note room = witness_rep_room [OF assms]
  have t: "tree_rep H (wit_tree w) xs" "xs \<noteq> []" "length (parents (wit_tree w)) < Depth" and b: "blocks H ?ds (filled w) ys"
    using assms(1,3) by (auto simp: witness_rep_def cursor_rep_def)
  show ?thesis
  proof (cases "?d = 0")
    case True
    have "blocks H ?ds (filled w @ [x]) (ys @ [x])" using blocks_snoc [OF b room(1), of "[x]"] True by simp
    then show ?thesis using t room(2,3) True assms(3) by (simp add: witness_append_def witness_rep_def cursor_rep_def)
  next
    case False
    have "0 < Depth" using room(3) by simp
    then obtain c where c: "tree_append H Depth x IncrementalMerkleTree_empty = Inr c" "tree_rep H c [x]"
      using tree_append_rep [OF tree_rep_empty, of Depth H x] by auto
    have "1 < (2 :: nat) ^ ?d" using False by (intro one_less_power) auto
    then have "cursor_rep H Depth (w\<lparr>cursor_depth := ?d, wit_cursor := Some c\<rparr>) [x]"
      using c room(1) False by (simp add: cursor_rep_def)
    then have "witness_rep H Depth (w\<lparr>cursor_depth := ?d, wit_cursor := Some c\<rparr>) xs (ys @ [x])"
      using t b by (auto simp: witness_rep_def)
    then show ?thesis using c room(2,3) False assms(3) by (simp add: witness_append_def)
  qed
qed

lemma witness_append_cursor:
  assumes "empty_roots_ok H Depth" "witness_rep H Depth w xs ys" "wit_cursor w = Some c"
  shows "\<exists>w'. witness_append H Depth x w = Inr w' \<and> witness_rep H Depth w' xs (ys @ [x])"
proof -
  let ?ds = "tree_open (wit_tree w) Depth" let ?d = "cursor_depth w"
  obtain us vs where ys: "ys = us @ vs" "blocks H ?ds (filled w) us" and c: "length (filled w) < length ?ds" "?d = ?ds ! length (filled w)"
      "0 < ?d" "tree_rep H c vs" "length vs < 2 ^ ?d"
    and t: "tree_rep H (wit_tree w) xs" "xs \<noteq> []" "length (parents (wit_tree w)) < Depth"
    using assms(2,3) by (auto simp: witness_rep_def cursor_rep_def)
  have d: "?d < Depth" using tree_open_less [OF t(3)] c(1,2) by simp
  then have "(2 :: nat) ^ ?d < 2 ^ Depth" by simp
  then have "length vs < 2 ^ Depth" using c(5) by linarith
  then obtain c' where c': "tree_append H Depth x c = Inr c'" "tree_rep H c' (vs @ [x])"
    using tree_append_rep [OF c(4), of Depth x] d by auto
  show ?thesis
  proof (cases "is_complete ?d c'")
    case True
    then have len: "length (vs @ [x]) = 2 ^ ?d" using is_complete_iff [OF c'(2) c(3)] by simp
    have "tree_root H ?d [] c' = merkle_root H ?d (vs @ [x])" using tree_root_exact [OF assms(1) _ c(3) c'(2)] len d by simp
    then have "blocks H ?ds (filled w @ [tree_root H ?d [] c']) (ys @ [x])"
      using blocks_snoc [OF ys(2) c(1), of "vs @ [x]"] len c(2) ys(1) by simp
    then show ?thesis using c'(1) True t assms(3) by (simp add: witness_append_def witness_rep_def cursor_rep_def)
  next
    case False
    then have "length (vs @ [x]) < 2 ^ ?d" using is_complete_iff [OF c'(2) c(3)] c(5) by simp
    then have "cursor_rep H Depth (w\<lparr>wit_cursor := Some c'\<rparr>) (vs @ [x])" using c c' by (simp add: cursor_rep_def)
    then have "witness_rep H Depth (w\<lparr>wit_cursor := Some c'\<rparr>) xs (ys @ [x])" using t ys by (auto simp: witness_rep_def)
    then show ?thesis using c'(1) False assms(3) by (simp add: witness_append_def)
  qed
qed

lemma partial_path_fills:
  assumes "empty_roots_ok H Depth" "witness_rep H Depth w xs ys"
  shows "fills H (tree_open (wit_tree w) Depth) (partial_path H w) ys"
proof -
  let ?ds = "tree_open (wit_tree w) Depth"
  obtain us vs where ys: "ys = us @ vs" "blocks H ?ds (filled w) us" "cursor_rep H Depth w vs" and t: "length (parents (wit_tree w)) < Depth"
    using assms(2) by (auto simp: witness_rep_def)
  have "fills H (drop (length (filled w)) ?ds) (case wit_cursor w of None \<Rightarrow> [] | Some c \<Rightarrow> [tree_root H (cursor_depth w) [] c]) vs"
  proof (cases "wit_cursor w")
    case None
    then show ?thesis using ys(3) by (simp add: cursor_rep_def)
  next
    case (Some c)
    then have c: "length (filled w) < length ?ds" "cursor_depth w = ?ds ! length (filled w)" "0 < cursor_depth w" "tree_rep H c vs"
        "length vs < 2 ^ cursor_depth w" using ys(3) by (auto simp: cursor_rep_def)
    have d: "cursor_depth w < Depth" using tree_open_less [OF t] c(1,2) by simp
    have "tree_root H (cursor_depth w) [] c = merkle_root H (cursor_depth w) vs" using tree_root_exact [OF assms(1) _ c(3,4)] c(5) d by simp
    then show ?thesis using Some c Cons_nth_drop_Suc [OF c(1), symmetric] by simp
  qed
  then show ?thesis unfolding partial_path_def ys(1) by (rule blocks_fills [OF ys(2)])
qed

section \<open>Paths and sizes\<close>

text \<open>Checking a path: the root that the leaf and the siblings along the path give.\<close>

fun path_root :: "'h merkle_hash \<Rightarrow> nat \<Rightarrow> 'h \<Rightarrow> (bool \<times> 'h) list \<Rightarrow> 'h" where
  "path_root H d h [] = h"
| "path_root H d h ((is_right, s) # steps) = path_root H (Suc d) (if is_right then hash_combine H s h d else hash_combine H h s d) steps"

lemma path_root_append: "path_root H d h (ps @ qs) = path_root H (d + length ps) (path_root H d h ps) qs"
  by (induction ps arbitrary: d h) auto

lemma path_fill_root: "path_root H d h (path_fill H Depth d q) = root_fill H Depth d h q"
proof (induction "Depth - d" arbitrary: d h q)
  case 0
  then show ?case by (simp add: path_fill.simps root_fill.simps)
next
  case (Suc n)
  then show ?case by (subst path_fill.simps, subst root_fill.simps) (auto split: prod.split)
qed

lemma length_path_fill: "length (path_fill H Depth d q) = Depth - d"
proof (induction "Depth - d" arbitrary: d q)
  case 0
  then show ?case by (simp add: path_fill.simps)
next
  case (Suc n)
  then show ?case by (subst path_fill.simps) (auto split: prod.split)
qed

lemma path_parents_root:
  "path_parents H d q ps = (path, d', q') \<Longrightarrow>
   root_parents H d h q ps = (d', path_root H d h path, q') \<and> d' = d + length ps \<and> length path = length ps"
proof (induction ps arbitrary: d q h path)
  case (Cons p ps)
  show ?case
  proof (cases p)
    case None
    obtain g q1 where n: "filler_next H d q = (g, q1)" by fastforce
    with Cons.prems None obtain path' where "path = (False, g) # path'" "path_parents H (Suc d) q1 ps = (path', d', q')"
      by (auto split: prod.splits)
    then show ?thesis using Cons.IH [of "Suc d" q1 path' "hash_combine H h g d"] n None by simp
  next
    case (Some g)
    with Cons.prems obtain path' where "path = (True, g) # path'" "path_parents H (Suc d) q ps = (path', d', q')"
      by (auto split: prod.splits)
    then show ?thesis using Cons.IH [of "Suc d" q path' "hash_combine H g h d"] Some by simp
  qed
qed simp

lemma path_steps_root:
  assumes "left t \<noteq> None" "length (parents t) < Depth"
  shows "\<exists>steps x. path_steps H Depth q t = Inr steps \<and> tree_last t = Inr x \<and> length steps = Depth \<and> path_root H 0 x steps = tree_root H Depth q t"
proof -
  obtain l where l: "left t = Some l" using assms(1) by auto
  show ?thesis
  proof (cases "right t")
    case None
    obtain h q1 where n: "filler_next H 0 q = (h, q1)" by fastforce
    obtain path d q2 where p: "path_parents H 1 q1 (parents t) = (path, d, q2)" using prod_cases3 by blast
    show ?thesis
      using path_parents_root [OF p, of "hash_combine H l h 0"] assms(2) l None n p
      by (auto simp: path_steps_def tree_last_def tree_root_def path_root_append path_fill_root length_path_fill)
  next
    case (Some k)
    obtain path d q2 where p: "path_parents H 1 q (parents t) = (path, d, q2)" using prod_cases3 by blast
    show ?thesis
      using path_parents_root [OF p, of "hash_combine H l k 0"] assms(2) l Some p
      by (auto simp: path_steps_def tree_last_def tree_root_def path_root_append path_fill_root length_path_fill)
  qed
qed

lemma shift_summand:
  assumes "i < 31"
  shows "(scast (push_bit (i + 1) (1 :: u32)) :: u64) = of_nat (2 ^ (i + 1)) - (if i = 30 then 4294967296 else 0)"
proof -
  have "list_all (\<lambda>i. (scast (push_bit (i + 1) (1 :: u32)) :: u64) = of_nat (2 ^ (i + 1)) - (if i = 30 then 4294967296 else 0)) [0..<31]"
    by (simp add: upt_rec)
  then show ?thesis using assms by (simp add: list_all_iff)
qed

lemma size_loop_occupied:
  "i + length ps \<le> 31 \<Longrightarrow> size_loop i ps ret =
     ret + of_nat (occupied (Suc i) ps) - (if i + length ps = 31 \<and> ps \<noteq> [] \<and> last ps \<noteq> None then 4294967296 else 0)"
proof (induction ps arbitrary: i ret)
  case (Cons p ps)
  define v :: u64 where "v = scast (push_bit (i + 1) (1 :: u32))"
  have v: "v = of_nat (2 ^ Suc i) - (if i = 30 then 4294967296 else 0)" using shift_summand [of i] Cons.prems by (simp add: v_def)
  have step: "size_loop i (p # ps) ret = size_loop (Suc i) ps (if p \<noteq> None then ret + v else ret)" by (simp add: v_def)
  have ih: "size_loop (Suc i) ps r = r + of_nat (occupied (Suc (Suc i)) ps) - (if i + length (p # ps) = 31 \<and> ps \<noteq> [] \<and> last ps \<noteq> None then 4294967296 else 0)" for r
    using Cons.IH [of "Suc i" r] Cons.prems by simp
  show ?case
  proof (cases "ps = []")
    case True
    then show ?thesis unfolding step ih by (auto simp: v)
  next
    case False
    then have "i \<noteq> 30" using Cons.prems by (cases ps) auto
    then show ?thesis unfolding step ih using False by (auto simp: v)
  qed
qed simp

lemma tree_size_exact:
  assumes "tree_rep H t xs" "length xs \<le> 2 ^ 32"
  shows "tree_size t = of_nat (length xs) - (if 2 ^ 31 < length xs then 2 ^ 32 else 0)"
proof -
  have p: "length (parents t) \<le> 31" using parents_short [OF assms] by simp
  have up: "length xs \<le> 2 ^ (1 + length (parents t))"
    using tree_rep_length [OF assms(1)] occupied_upper [of 1 "parents t"] by (auto split: if_splits)
  have "2 ^ 31 < length xs \<longleftrightarrow> length (parents t) = 31"
  proof
    assume a: "2 ^ 31 < length xs"
    then have "(2 :: nat) ^ 31 < 2 ^ (1 + length (parents t))" using up by linarith
    then have "31 < 1 + length (parents t)" by (rule power_less_imp_less_exp [rotated]) simp
    then show "length (parents t) = 31" using p by simp
  qed (use tree_rep_bounds(1) [OF assms(1)] in force)
  moreover have "parents t \<noteq> [] \<longrightarrow> last (parents t) \<noteq> None" using assms(1) by (simp add: tree_rep_def)
  ultimately show ?thesis
    using size_loop_occupied [of 0 "parents t"] p tree_rep_length [OF assms(1)] by (auto simp: tree_size_def)
qed

section \<open>Properties\<close>

fun tree_append_all :: "'h merkle_hash \<Rightarrow> nat \<Rightarrow> 'h list \<Rightarrow> 'h IncrementalMerkleTree \<Rightarrow> failure + 'h IncrementalMerkleTree" where
  "tree_append_all H Depth [] t = Inr t"
| "tree_append_all H Depth (x # xs) t = and_then (tree_append H Depth x t) (tree_append_all H Depth xs)"

fun witness_append_all :: "'h merkle_hash \<Rightarrow> nat \<Rightarrow> 'h list \<Rightarrow> 'h IncrementalWitness \<Rightarrow> failure + 'h IncrementalWitness" where
  "witness_append_all H Depth [] w = Inr w"
| "witness_append_all H Depth (x # xs) w = and_then (witness_append H Depth x w) (witness_append_all H Depth xs)"

lemma tree_append_all_rep:
  "tree_rep H t xs \<Longrightarrow> 0 < Depth \<Longrightarrow> length (xs @ ys) \<le> 2 ^ Depth \<Longrightarrow> \<exists>t'. tree_append_all H Depth ys t = Inr t' \<and> tree_rep H t' (xs @ ys)"
proof (induction ys arbitrary: t xs)
  case (Cons y ys)
  then obtain t' where "tree_append H Depth y t = Inr t'" "tree_rep H t' (xs @ [y])" using tree_append_rep [of H t xs Depth y] by auto
  then show ?case using Cons.IH [of t' "xs @ [y]"] Cons.prems by simp
qed simp

lemma witness_append_all_rep:
  "empty_roots_ok H Depth \<Longrightarrow> witness_rep H Depth w xs zs \<Longrightarrow> length (xs @ zs @ ys) \<le> 2 ^ Depth \<Longrightarrow>
   \<exists>w'. witness_append_all H Depth ys w = Inr w' \<and> witness_rep H Depth w' xs (zs @ ys) \<and> wit_tree w' = wit_tree w"
proof (induction ys arbitrary: w zs)
  case (Cons y ys)
  obtain w' where w': "witness_append H Depth y w = Inr w'" "witness_rep H Depth w' xs (zs @ [y])"
    using Cons.prems witness_append_start [of H Depth w xs zs y] witness_append_cursor [of H Depth w xs zs _ y] by (cases "wit_cursor w") auto
  have "wit_tree w' = wit_tree w" using w'(1) by (auto simp: witness_append_def Let_def split: option.splits if_splits)
  then show ?case using Cons.IH [of w' "zs @ [y]"] Cons.prems w' by auto
qed simp

lemma tree_wfcheck_rep:
  assumes "tree_rep H t xs" "length (parents t) < Depth"
  shows "tree_wfcheck Depth t = Inr ()"
  using assms by (auto simp: tree_wfcheck_def tree_rep_def leaves_rep_def split: option.splits)

lemma tree_last_rep: "tree_rep H t xs \<Longrightarrow> xs \<noteq> [] \<Longrightarrow> tree_last t = Inr (last xs)"
  by (auto simp: tree_last_def tree_rep_def leaves_rep_def split: option.splits)

text \<open>C21: An incremental tree is the Merkle tree of the leaves appended to it: up to its capacity every leaf can be appended, the tree
  stays well-formed, and its root is the root of the binary tree over all the leaves so far, filled up with empty subtrees; a leaf
  beyond the capacity is refused.\<close>

theorem incremental_root_exact:
  assumes "empty_roots_ok H Depth" "0 < Depth" "length xs \<le> 2 ^ Depth"
  shows "\<exists>t. tree_append_all H Depth xs IncrementalMerkleTree_empty = Inr t \<and> tree_root H Depth [] t = merkle_root H Depth xs \<and>
    tree_wfcheck Depth t = Inr () \<and> (length xs = 2 ^ Depth \<longrightarrow> (\<forall>x. tree_append H Depth x t = Inl (Thrown ''tree is full'')))"
proof -
  obtain t where t: "tree_append_all H Depth xs IncrementalMerkleTree_empty = Inr t" "tree_rep H t xs"
    using tree_append_all_rep [OF tree_rep_empty assms(2), of xs] assms(3) by auto
  then show ?thesis
    using tree_root_exact [OF assms(1) le_refl assms(2) t(2) assms(3)]
      tree_append_full [OF t(2) assms(2)] tree_wfcheck_rep [OF t(2) parents_short [OF t(2) assms(3,2)]] by blast
qed

abbreviation (input) demo_hash :: "nat merkle_hash" where
  "demo_hash \<equiv> \<lparr>hash_combine = (\<lambda>a b d. 3 * a + 5 * b + d), EmptyRoot = rec_nat 1 (\<lambda>d e. 3 * e + 5 * e + d)\<rparr>"

theorem incremental_root_exact_witness:
  "\<exists>t. tree_append_all demo_hash 2 [7, 8, 9] IncrementalMerkleTree_empty = Inr t \<and> tree_root demo_hash 2 [] t = merkle_root demo_hash 2 [7, 8, 9]"
  using incremental_root_exact [of demo_hash 2 "[7, 8, 9]"] by (auto simp: empty_roots_ok_def)

text \<open>C22: A witness stays valid while the tree grows: a witness taken for the last leaf of a tree and updated with every leaf appended
  later has the root of the whole tree, its element and tree are unchanged, and its path leads from the leaf to that root.\<close>

theorem witness_follows_tree:
  assumes "empty_roots_ok H Depth" "0 < Depth" "xs \<noteq> []" "length (xs @ ys) \<le> 2 ^ Depth"
    and "tree_append_all H Depth xs IncrementalMerkleTree_empty = Inr t"
  shows "\<exists>w steps. witness_append_all H Depth ys (tree_witness t) = Inr w \<and> witness_root H Depth w = merkle_root H Depth (xs @ ys) \<and>
    witness_element w = Inr (last xs) \<and> path_steps H Depth (partial_path H w) (wit_tree w) = Inr steps \<and> length steps = Depth \<and>
    path_root H 0 (last xs) steps = merkle_root H Depth (xs @ ys)"
proof -
  have t: "tree_rep H t xs" using tree_append_all_rep [OF tree_rep_empty assms(2), of xs H] assms(4,5) by auto
  have "witness_rep H Depth (tree_witness t) xs []" using witness_rep_init [OF t assms(3) _ assms(2)] assms(4) by simp
  then obtain w where w: "witness_append_all H Depth ys (tree_witness t) = Inr w" "witness_rep H Depth w xs ys"
    using witness_append_all_rep [OF assms(1), of "tree_witness t" xs "[]" ys] assms(4) by auto
  have r: "tree_rep H (wit_tree w) xs" "length (parents (wit_tree w)) < Depth" using w(2) by (simp_all add: witness_rep_def)
  have root: "witness_root H Depth w = merkle_root H Depth (xs @ ys)"
    unfolding witness_root_def by (rule tree_root_filled [OF assms(1) le_refl assms(2) r(1) assms(3) r(2) partial_path_fills [OF assms(1) w(2)]])
  show ?thesis
    using path_steps_root [OF tree_rep_left [OF r(1) assms(3)] r(2), of H "partial_path H w"] root w(1) tree_last_rep [OF r(1) assms(3)]
    by (auto simp: witness_element_def witness_root_def)
qed

theorem witness_follows_tree_witness:
  "\<exists>t w. tree_append_all demo_hash 3 [7, 8, 9] IncrementalMerkleTree_empty = Inr t \<and> witness_append_all demo_hash 3 [1, 2, 3] (tree_witness t) = Inr w \<and>
     witness_root demo_hash 3 w = merkle_root demo_hash 3 [7, 8, 9, 1, 2, 3]"
proof -
  have ok: "empty_roots_ok demo_hash 3" by (simp add: empty_roots_ok_def)
  obtain t where t: "tree_append_all demo_hash 3 [7, 8, 9] IncrementalMerkleTree_empty = Inr t"
    using tree_append_all_rep [OF tree_rep_empty, of 3 "[7, 8, 9]" demo_hash] by auto
  show ?thesis using witness_follows_tree [OF ok _ _ _ t, of "[1, 2, 3]"] t by auto
qed

text \<open>C35: The size of a tree is the number of its leaves only up to \<open>2 ^ 31\<close> of them: the shift of the \<open>int\<close> one that counts the topmost
  subtree of a tree of depth 32 overflows, and from then on the size and with it every witness position is short by \<open>2 ^ 32\<close>.\<close>

theorem tree_size_overflows:
  assumes "tree_append_all H 32 xs IncrementalMerkleTree_empty = Inr t" "length xs \<le> 2 ^ 32"
  shows "tree_size t = of_nat (length xs) - (if 2 ^ 31 < length xs then 2 ^ 32 else 0)"
proof -
  have "tree_rep H t xs" using tree_append_all_rep [OF tree_rep_empty, of 32 xs H] assms by auto
  from tree_size_exact [OF this assms(2)] show ?thesis .
qed

theorem tree_size_overflows_witness:
  "\<exists>t. tree_append_all demo_hash 32 [7, 8, 9] IncrementalMerkleTree_empty = Inr t \<and> tree_size t = 3"
proof -
  obtain t where t: "tree_append_all demo_hash 32 [7, 8, 9] IncrementalMerkleTree_empty = Inr t"
    using tree_append_all_rep [OF tree_rep_empty, of 32 "[7, 8, 9]" demo_hash] by auto
  then have "tree_size t = 3" using tree_size_overflows [OF t] by simp
  then show ?thesis using t by blast
qed

end
