(* ===== verification/Coins.thy ===== *)
theory Coins
  imports TxContext MerkleTree "HOL-Library.AList"
begin

text \<open>
  Unspent outputs and the stack of caches above the coin database (\<^verbatim>\<open>coins.h\<close>, \<^verbatim>\<open>coins.cpp\<close>, the coin part of \<^verbatim>\<open>txdb.cpp\<close>).

  A cache is a record; its hash maps are association lists, which the flushing loops run through. The two kinds of shielded data are
  functions of the shielded type. A cache reads through to the view below it and keeps what it finds, also in the caches
  below, so a view is the list of its caches, topmost first, above a database, whose tables are maps. Reading returns the caches
  as they are afterwards. The accounting of memory is left out.
\<close>

section \<open>The outputs of a transaction\<close>

record CCoins =
  fCoinBase :: bool
  coins_vout :: "CTxOut list"
  coins_nHeight :: int
  coins_nVersion :: int

definition CCoins_empty :: CCoins where
  "CCoins_empty = \<lparr>fCoinBase = False, coins_vout = [], coins_nHeight = 0, coins_nVersion = 0\<rparr>"

definition coins_Clear :: "CCoins \<Rightarrow> CCoins" where
  "coins_Clear c = c\<lparr>fCoinBase := False, coins_vout := [], coins_nHeight := 0, coins_nVersion := 0\<rparr>"

function cleanup_loop :: "CTxOut list \<Rightarrow> CTxOut list" where
  "cleanup_loop v = (if length v > 0 \<and> txout_IsNull (last v) then cleanup_loop (butlast v) else v)"
  by pat_completeness auto
termination
  by (relation "measure length") auto

declare cleanup_loop.simps [simp del]

definition Cleanup :: "CCoins \<Rightarrow> CCoins" where
  "Cleanup c = c\<lparr>coins_vout := cleanup_loop (coins_vout c)\<rparr>"

definition ClearUnspendable :: "CCoins \<Rightarrow> CCoins" where
  "ClearUnspendable c = Cleanup (c\<lparr>coins_vout := map (\<lambda>txout. if IsUnspendable (scriptPubKey txout) then txout_null else txout) (coins_vout c)\<rparr>)"

definition FromTx :: "CTransaction \<Rightarrow> int \<Rightarrow> CCoins" where
  "FromTx tx nHeightIn = ClearUnspendable \<lparr>fCoinBase = IsCoinBase tx, coins_vout = vout tx, coins_nHeight = nHeightIn, coins_nVersion = nVersion tx\<rparr>"

definition IsAvailable :: "CCoins \<Rightarrow> nat \<Rightarrow> bool" where
  "IsAvailable c nPos \<longleftrightarrow> nPos < length (coins_vout c) \<and> \<not> txout_IsNull (coins_vout c ! nPos)"

definition IsPruned :: "CCoins \<Rightarrow> bool" where
  "IsPruned c \<longleftrightarrow> list_all txout_IsNull (coins_vout c)"

definition coins_eq :: "CCoins \<Rightarrow> CCoins \<Rightarrow> bool" where
  "coins_eq a b \<longleftrightarrow> (if IsPruned a \<and> IsPruned b then True
     else fCoinBase a = fCoinBase b \<and> coins_nHeight a = coins_nHeight b \<and> coins_nVersion a = coins_nVersion b \<and> coins_vout a = coins_vout b)"

definition Spend :: "nat \<Rightarrow> CCoins \<Rightarrow> bool \<times> CCoins" where
  "Spend nPos c = (if nPos \<ge> length (coins_vout c) \<or> txout_IsNull (coins_vout c ! nPos) then (False, c)
     else (True, Cleanup (c\<lparr>coins_vout := (coins_vout c)[nPos := txout_null]\<rparr>)))"

section \<open>Caches\<close>

datatype ShieldedType = SPROUT | SAPLING

record CCoinsCacheEntry =
  entry_coins :: CCoins
  entry_dirty :: bool
  entry_fresh :: bool

type_synonym note_tree = "bytes IncrementalMerkleTree"

record CAnchorsCacheEntry =
  anchor_entered :: bool
  anchor_tree :: note_tree
  anchor_dirty :: bool

record CNullifiersCacheEntry =
  nf_entered :: bool
  nf_dirty :: bool

record CCoinsViewCache =
  hasModifier :: bool
  hashBlock :: bytes
  cacheCoins :: "(bytes \<times> CCoinsCacheEntry) list"
  hashAnchor :: "ShieldedType \<Rightarrow> bytes"
  cacheAnchors :: "ShieldedType \<Rightarrow> (bytes \<times> CAnchorsCacheEntry) list"
  cacheNullifiers :: "ShieldedType \<Rightarrow> (bytes \<times> CNullifiersCacheEntry) list"

record CCoinsViewDB =
  db_coins :: "bytes \<rightharpoonup> CCoins"
  db_anchors :: "ShieldedType \<Rightarrow> bytes \<rightharpoonup> note_tree"
  db_nullifiers :: "ShieldedType \<Rightarrow> bytes set"
  db_best_block :: "bytes option"
  db_best_anchor :: "ShieldedType \<Rightarrow> bytes option"

type_synonym coins_view = "CCoinsViewCache list"

abbreviation (input) hash_null :: "bytes \<Rightarrow> bool" where "hash_null h \<equiv> list_all (\<lambda>b. b = 0) h"

abbreviation (input) zero_hash :: bytes where "zero_hash \<equiv> replicate 32 0"

definition CCoinsViewCache_empty :: CCoinsViewCache where
  "CCoinsViewCache_empty = \<lparr>hasModifier = False, hashBlock = zero_hash, cacheCoins = [], hashAnchor = (\<lambda>_. zero_hash),
     cacheAnchors = (\<lambda>_. []), cacheNullifiers = (\<lambda>_. [])\<rparr>"

text \<open>The database. The roots of the empty trees are an argument.\<close>

definition db_GetAnchorAt :: "(ShieldedType \<Rightarrow> bytes) \<Rightarrow> CCoinsViewDB \<Rightarrow> ShieldedType \<Rightarrow> bytes \<Rightarrow> note_tree option" where
  "db_GetAnchorAt empty_root db type rt = (if rt = empty_root type then Some IncrementalMerkleTree_empty else db_anchors db type rt)"

definition db_GetBestBlock :: "CCoinsViewDB \<Rightarrow> bytes" where
  "db_GetBestBlock db = (case db_best_block db of None \<Rightarrow> zero_hash | Some h \<Rightarrow> h)"

definition db_GetBestAnchor :: "(ShieldedType \<Rightarrow> bytes) \<Rightarrow> CCoinsViewDB \<Rightarrow> ShieldedType \<Rightarrow> bytes" where
  "db_GetBestAnchor empty_root db type = (case db_best_anchor db type of None \<Rightarrow> empty_root type | Some h \<Rightarrow> h)"

fun FetchCoins :: "CCoinsViewDB \<Rightarrow> bytes \<Rightarrow> coins_view \<Rightarrow> CCoins option \<times> coins_view" where
  "FetchCoins db txid [] = (db_coins db txid, [])"
| "FetchCoins db txid (c # cs) =
     (case map_of (cacheCoins c) txid of Some e \<Rightarrow> (Some (entry_coins e), c # cs)
      | None \<Rightarrow> (case FetchCoins db txid cs of (None, cs) \<Rightarrow> (None, c # cs)
        | (Some tmp, cs) \<Rightarrow>
          (Some tmp, c\<lparr>cacheCoins := (txid, \<lparr>entry_coins = tmp, entry_dirty = False, entry_fresh = IsPruned tmp\<rparr>) # cacheCoins c\<rparr> # cs)))"

fun GetAnchorAt :: "(ShieldedType \<Rightarrow> bytes) \<Rightarrow> CCoinsViewDB \<Rightarrow> ShieldedType \<Rightarrow> bytes \<Rightarrow> coins_view \<Rightarrow> note_tree option \<times> coins_view" where
  "GetAnchorAt empty_root db type rt [] = (db_GetAnchorAt empty_root db type rt, [])"
| "GetAnchorAt empty_root db type rt (c # cs) =
     (case map_of (cacheAnchors c type) rt of Some e \<Rightarrow> (if anchor_entered e then Some (anchor_tree e) else None, c # cs)
      | None \<Rightarrow> (case GetAnchorAt empty_root db type rt cs of (None, cs) \<Rightarrow> (None, c # cs)
        | (Some t, cs) \<Rightarrow> (Some t, c\<lparr>cacheAnchors := (cacheAnchors c)(type :=
            (rt, \<lparr>anchor_entered = True, anchor_tree = t, anchor_dirty = False\<rparr>) # cacheAnchors c type)\<rparr> # cs)))"

fun GetNullifier :: "CCoinsViewDB \<Rightarrow> ShieldedType \<Rightarrow> bytes \<Rightarrow> coins_view \<Rightarrow> bool \<times> coins_view" where
  "GetNullifier db type nf [] = (nf \<in> db_nullifiers db type, [])"
| "GetNullifier db type nf (c # cs) =
     (case map_of (cacheNullifiers c type) nf of Some e \<Rightarrow> (nf_entered e, c # cs)
      | None \<Rightarrow> (case GetNullifier db type nf cs of (tmp, cs) \<Rightarrow>
          (tmp, c\<lparr>cacheNullifiers := (cacheNullifiers c)(type := (nf, \<lparr>nf_entered = tmp, nf_dirty = False\<rparr>) # cacheNullifiers c type)\<rparr> # cs)))"

fun GetBestBlock :: "CCoinsViewDB \<Rightarrow> coins_view \<Rightarrow> bytes \<times> coins_view" where
  "GetBestBlock db [] = (db_GetBestBlock db, [])"
| "GetBestBlock db (c # cs) =
     (if hash_null (hashBlock c) then (case GetBestBlock db cs of (h, cs) \<Rightarrow> (h, c\<lparr>hashBlock := h\<rparr> # cs)) else (hashBlock c, c # cs))"

fun GetBestAnchor :: "(ShieldedType \<Rightarrow> bytes) \<Rightarrow> CCoinsViewDB \<Rightarrow> ShieldedType \<Rightarrow> coins_view \<Rightarrow> bytes \<times> coins_view" where
  "GetBestAnchor empty_root db type [] = (db_GetBestAnchor empty_root db type, [])"
| "GetBestAnchor empty_root db type (c # cs) =
     (if hash_null (hashAnchor c type) then
        (case GetBestAnchor empty_root db type cs of (h, cs) \<Rightarrow> (h, c\<lparr>hashAnchor := (hashAnchor c)(type := h)\<rparr> # cs))
      else (hashAnchor c type, c # cs))"

text \<open>The operations that change a view change its topmost cache.\<close>

definition upd_top :: "(CCoinsViewCache \<Rightarrow> CCoinsViewCache) \<Rightarrow> coins_view \<Rightarrow> coins_view" where
  "upd_top f v = (case v of [] \<Rightarrow> [] | c # cs \<Rightarrow> f c # cs)"

definition SetBestBlock :: "bytes \<Rightarrow> coins_view \<Rightarrow> coins_view" where
  "SetBestBlock h = upd_top (\<lambda>c. c\<lparr>hashBlock := h\<rparr>)"

definition PushAnchor :: "(ShieldedType \<Rightarrow> bytes) \<Rightarrow> (note_tree \<Rightarrow> bytes) \<Rightarrow> CCoinsViewDB \<Rightarrow> ShieldedType \<Rightarrow> note_tree \<Rightarrow> coins_view \<Rightarrow> coins_view" where
  "PushAnchor empty_root root db type tree v =
     (let newrt = root tree; (currentRoot, v) = GetBestAnchor empty_root db type v in
      if currentRoot \<noteq> newrt then upd_top (\<lambda>c. c\<lparr>cacheAnchors := (cacheAnchors c)(type :=
          AList.update newrt \<lparr>anchor_entered = True, anchor_tree = tree, anchor_dirty = True\<rparr> (cacheAnchors c type)),
          hashAnchor := (hashAnchor c)(type := newrt)\<rparr>) v
      else v)"

definition PopAnchor :: "(ShieldedType \<Rightarrow> bytes) \<Rightarrow> CCoinsViewDB \<Rightarrow> bytes \<Rightarrow> ShieldedType \<Rightarrow> coins_view \<Rightarrow> failure + coins_view" where
  "PopAnchor empty_root db newrt type v =
     (let (currentRoot, v) = GetBestAnchor empty_root db type v in
      if currentRoot \<noteq> newrt then
        let (tree, v) = GetAnchorAt empty_root db type currentRoot v in
        case tree of None \<Rightarrow> Inl AssertionFailed
        | Some tree \<Rightarrow> Inr (upd_top (\<lambda>c. c\<lparr>cacheAnchors := (cacheAnchors c)(type :=
            AList.update currentRoot \<lparr>anchor_entered = False, anchor_tree = tree, anchor_dirty = True\<rparr> (cacheAnchors c type)),
            hashAnchor := (hashAnchor c)(type := newrt)\<rparr>) v)
      else Inr v)"

definition set_nullifier :: "bool \<Rightarrow> ShieldedType \<Rightarrow> bytes \<Rightarrow> coins_view \<Rightarrow> coins_view" where
  "set_nullifier spent type nf = upd_top (\<lambda>c. c\<lparr>cacheNullifiers := (cacheNullifiers c)(type :=
     AList.update nf \<lparr>nf_entered = spent, nf_dirty = True\<rparr> (cacheNullifiers c type))\<rparr>)"

definition SetNullifiers :: "CTransaction \<Rightarrow> bool \<Rightarrow> coins_view \<Rightarrow> coins_view" where
  "SetNullifiers tx spent v =
     fold (set_nullifier spent SAPLING) (map spend_nullifier (vShieldedSpend tx))
       (fold (set_nullifier spent SPROUT) (concat (map nullifiers (vJoinSplit tx))) v)"

definition GetCoins :: "CCoinsViewDB \<Rightarrow> bytes \<Rightarrow> coins_view \<Rightarrow> CCoins option \<times> coins_view" where
  "GetCoins db txid v = FetchCoins db txid v"

definition HaveCoins :: "CCoinsViewDB \<Rightarrow> bytes \<Rightarrow> coins_view \<Rightarrow> bool \<times> coins_view" where
  "HaveCoins db txid v = (case FetchCoins db txid v of (r, v) \<Rightarrow> ((case r of None \<Rightarrow> False | Some c \<Rightarrow> coins_vout c \<noteq> []), v))"

text \<open>A modifier is live from the call that creates it to its destructor; the change in between is a function of the coins.\<close>

fun ModifyCoins :: "CCoinsViewDB \<Rightarrow> bytes \<Rightarrow> coins_view \<Rightarrow> failure + CCoins \<times> coins_view" where
  "ModifyCoins db txid [] = Inl BadPointer"
| "ModifyCoins db txid (c # cs) =
     (if hasModifier c then Inl AssertionFailed
      else let (e, cs) = (case map_of (cacheCoins c) txid of Some e \<Rightarrow> (e, cs)
          | None \<Rightarrow> (case FetchCoins db txid cs of
              (None, cs) \<Rightarrow> (\<lparr>entry_coins = coins_Clear CCoins_empty, entry_dirty = False, entry_fresh = True\<rparr>, cs)
            | (Some tmp, cs) \<Rightarrow> (\<lparr>entry_coins = tmp, entry_dirty = False, entry_fresh = IsPruned tmp\<rparr>, cs)))
        in Inr (entry_coins e, c\<lparr>cacheCoins := AList.update txid (e\<lparr>entry_dirty := True\<rparr>) (cacheCoins c), hasModifier := True\<rparr> # cs))"

fun ModifyNewCoins :: "bytes \<Rightarrow> coins_view \<Rightarrow> failure + CCoins \<times> coins_view" where
  "ModifyNewCoins txid [] = Inl BadPointer"
| "ModifyNewCoins txid (c # cs) =
     (if hasModifier c then Inl AssertionFailed
      else Inr (CCoins_empty, c\<lparr>cacheCoins := AList.update txid \<lparr>entry_coins = CCoins_empty, entry_dirty = True, entry_fresh = True\<rparr> (cacheCoins c),
        hasModifier := True\<rparr> # cs))"

fun CCoinsModifier_end :: "bytes \<Rightarrow> CCoins \<Rightarrow> coins_view \<Rightarrow> failure + coins_view" where
  "CCoinsModifier_end txid coins [] = Inl BadPointer"
| "CCoinsModifier_end txid coins (c # cs) =
     (if \<not> hasModifier c then Inl AssertionFailed
      else case map_of (cacheCoins c) txid of None \<Rightarrow> Inl BadPointer
      | Some e \<Rightarrow> let coins = Cleanup coins in
          if entry_fresh e \<and> IsPruned coins then Inr (c\<lparr>hasModifier := False, cacheCoins := AList.delete txid (cacheCoins c)\<rparr> # cs)
          else Inr (c\<lparr>hasModifier := False, cacheCoins := AList.update txid (e\<lparr>entry_coins := coins\<rparr>) (cacheCoins c)\<rparr> # cs))"

definition modify_coins :: "CCoinsViewDB \<Rightarrow> bytes \<Rightarrow> (CCoins \<Rightarrow> failure + 'a \<times> CCoins) \<Rightarrow> coins_view \<Rightarrow> failure + 'a \<times> coins_view" where
  "modify_coins db txid f v = and_then (ModifyCoins db txid v) (\<lambda>(coins, v). and_then (f coins) (\<lambda>(x, coins).
     and_then (CCoinsModifier_end txid coins v) (\<lambda>v. Inr (x, v))))"

definition modify_new_coins :: "bytes \<Rightarrow> (CCoins \<Rightarrow> CCoins) \<Rightarrow> coins_view \<Rightarrow> failure + coins_view" where
  "modify_new_coins txid f v = and_then (ModifyNewCoins txid v) (\<lambda>(coins, v). CCoinsModifier_end txid (f coins) v)"

section \<open>Flushing\<close>

fun BatchWriteNullifiers :: "(bytes \<times> CNullifiersCacheEntry) list \<Rightarrow> (bytes \<times> CNullifiersCacheEntry) list \<Rightarrow> (bytes \<times> CNullifiersCacheEntry) list" where
  "BatchWriteNullifiers [] ours = ours"
| "BatchWriteNullifiers ((k, e) # es) ours = BatchWriteNullifiers es
     (if nf_dirty e then
        (case map_of ours k of None \<Rightarrow> AList.update k \<lparr>nf_entered = nf_entered e, nf_dirty = True\<rparr> ours
         | Some p \<Rightarrow> if nf_entered p \<noteq> nf_entered e then AList.update k \<lparr>nf_entered = nf_entered e, nf_dirty = True\<rparr> ours else ours)
      else ours)"

fun BatchWriteAnchors :: "(bytes \<times> CAnchorsCacheEntry) list \<Rightarrow> (bytes \<times> CAnchorsCacheEntry) list \<Rightarrow> (bytes \<times> CAnchorsCacheEntry) list" where
  "BatchWriteAnchors [] ours = ours"
| "BatchWriteAnchors ((k, e) # es) ours = BatchWriteAnchors es
     (if anchor_dirty e then
        (case map_of ours k of None \<Rightarrow> AList.update k (e\<lparr>anchor_dirty := True\<rparr>) ours
         | Some p \<Rightarrow> if anchor_entered p \<noteq> anchor_entered e then AList.update k (p\<lparr>anchor_entered := anchor_entered e, anchor_dirty := True\<rparr>) ours
             else ours)
      else ours)"

fun batch_coins :: "(bytes \<times> CCoinsCacheEntry) list \<Rightarrow> (bytes \<times> CCoinsCacheEntry) list \<Rightarrow> failure + (bytes \<times> CCoinsCacheEntry) list" where
  "batch_coins [] ours = Inr ours"
| "batch_coins ((k, e) # es) ours =
     (if \<not> entry_dirty e then batch_coins es ours
      else case map_of ours k of
        None \<Rightarrow>
          if \<not> IsPruned (entry_coins e) then
            and_then (cassert (entry_fresh e)) (\<lambda>_.
            batch_coins es (AList.update k \<lparr>entry_coins = entry_coins e, entry_dirty = True, entry_fresh = True\<rparr> ours))
          else batch_coins es ours
      | Some us \<Rightarrow>
          if entry_fresh us \<and> IsPruned (entry_coins e) then batch_coins es (AList.delete k ours)
          else batch_coins es (AList.update k (us\<lparr>entry_coins := entry_coins e, entry_dirty := True\<rparr>) ours))"

definition BatchWrite :: "CCoinsViewCache \<Rightarrow> CCoinsViewCache \<Rightarrow> failure + CCoinsViewCache" where
  "BatchWrite child c =
     and_then (cassert (\<not> hasModifier c)) (\<lambda>_.
     and_then (batch_coins (cacheCoins child) (cacheCoins c)) (\<lambda>coins.
     Inr (c\<lparr>cacheCoins := coins, cacheAnchors := (\<lambda>type. BatchWriteAnchors (cacheAnchors child type) (cacheAnchors c type)),
       cacheNullifiers := (\<lambda>type. BatchWriteNullifiers (cacheNullifiers child type) (cacheNullifiers c type)),
       hashAnchor := hashAnchor child, hashBlock := hashBlock child\<rparr>)))"

fun db_batch_coins :: "(bytes \<times> CCoinsCacheEntry) list \<Rightarrow> (bytes \<rightharpoonup> CCoins) \<Rightarrow> (bytes \<rightharpoonup> CCoins)" where
  "db_batch_coins [] m = m"
| "db_batch_coins ((k, e) # es) m = db_batch_coins es
     (if entry_dirty e then if IsPruned (entry_coins e) then m(k := None) else m(k \<mapsto> entry_coins e) else m)"

fun db_batch_nullifiers :: "(bytes \<times> CNullifiersCacheEntry) list \<Rightarrow> bytes set \<Rightarrow> bytes set" where
  "db_batch_nullifiers [] s = s"
| "db_batch_nullifiers ((k, e) # es) s = db_batch_nullifiers es
     (if nf_dirty e then if \<not> nf_entered e then s - {k} else insert k s else s)"

fun db_batch_anchors :: "bytes \<Rightarrow> (bytes \<times> CAnchorsCacheEntry) list \<Rightarrow> (bytes \<rightharpoonup> note_tree) \<Rightarrow> (bytes \<rightharpoonup> note_tree)" where
  "db_batch_anchors empty_root [] m = m"
| "db_batch_anchors empty_root ((k, e) # es) m = db_batch_anchors empty_root es
     (if anchor_dirty e then
        if \<not> anchor_entered e then m(k := None) else if k \<noteq> empty_root then m(k \<mapsto> anchor_tree e) else m
      else m)"

text \<open>The batch of the database is written as a whole.\<close>

definition db_BatchWrite :: "(ShieldedType \<Rightarrow> bytes) \<Rightarrow> CCoinsViewCache \<Rightarrow> CCoinsViewDB \<Rightarrow> CCoinsViewDB" where
  "db_BatchWrite empty_root child db =
     \<lparr>db_coins = db_batch_coins (cacheCoins child) (db_coins db),
      db_anchors = (\<lambda>type. db_batch_anchors (empty_root type) (cacheAnchors child type) (db_anchors db type)),
      db_nullifiers = (\<lambda>type. db_batch_nullifiers (cacheNullifiers child type) (db_nullifiers db type)),
      db_best_block = (if \<not> hash_null (hashBlock child) then Some (hashBlock child) else db_best_block db),
      db_best_anchor = (\<lambda>type. if \<not> hash_null (hashAnchor child type) then Some (hashAnchor child type) else db_best_anchor db type)\<rparr>"

definition clear_cache :: "CCoinsViewCache \<Rightarrow> CCoinsViewCache" where
  "clear_cache c = c\<lparr>cacheCoins := [], cacheAnchors := (\<lambda>_. []), cacheNullifiers := (\<lambda>_. [])\<rparr>"

fun Flush :: "(ShieldedType \<Rightarrow> bytes) \<Rightarrow> CCoinsViewDB \<Rightarrow> coins_view \<Rightarrow> failure + CCoinsViewDB \<times> coins_view" where
  "Flush empty_root db [] = Inl BadPointer"
| "Flush empty_root db [c] = Inr (db_BatchWrite empty_root c db, [clear_cache c])"
| "Flush empty_root db (c # p # cs) = and_then (BatchWrite c p) (\<lambda>p. Inr (db, clear_cache c # p # cs))"

section \<open>Inputs of transactions\<close>

definition GetOutputFor :: "CCoinsViewDB \<Rightarrow> CTxIn \<Rightarrow> coins_view \<Rightarrow> failure + CTxOut \<times> coins_view" where
  "GetOutputFor db txin v = (case FetchCoins db (out_hash (prevout txin)) v of (coins, v) \<Rightarrow>
     case coins of None \<Rightarrow> Inl AssertionFailed
     | Some coins \<Rightarrow> and_then (cassert (IsAvailable coins (unat (out_n (prevout txin))))) (\<lambda>_.
         Inr (coins_vout coins ! unat (out_n (prevout txin)), v)))"

fun value_in_loop :: "CCoinsViewDB \<Rightarrow> int \<Rightarrow> CTxIn list \<Rightarrow> coins_view \<Rightarrow> failure + int \<times> coins_view" where
  "value_in_loop db nResult [] v = Inr (nResult, v)"
| "value_in_loop db nResult (txin # txins) v =
     and_then (GetOutputFor db txin v) (\<lambda>(txout, v). value_in_loop db (nResult + nValue txout) txins v)"

definition GetValueIn :: "CCoinsViewDB \<Rightarrow> CTransaction \<Rightarrow> coins_view \<Rightarrow> failure + int \<times> coins_view" where
  "GetValueIn db tx v = (if IsCoinBase tx then Inr (0, v)
     else and_then (value_in_loop db 0 (vin tx) v) (\<lambda>(nResult, v). and_then (GetShieldedValueIn tx) (\<lambda>n. Inr (nResult + n, v))))"

fun have_inputs_loop :: "CCoinsViewDB \<Rightarrow> CTxIn list \<Rightarrow> coins_view \<Rightarrow> bool \<times> coins_view" where
  "have_inputs_loop db [] v = (True, v)"
| "have_inputs_loop db (txin # txins) v =
     (case FetchCoins db (out_hash (prevout txin)) v of (coins, v) \<Rightarrow>
        if (case coins of None \<Rightarrow> True | Some coins \<Rightarrow> \<not> IsAvailable coins (unat (out_n (prevout txin)))) then (False, v)
        else have_inputs_loop db txins v)"

definition HaveInputs :: "CCoinsViewDB \<Rightarrow> CTransaction \<Rightarrow> coins_view \<Rightarrow> bool \<times> coins_view" where
  "HaveInputs db tx v = (if \<not> IsCoinBase tx then have_inputs_loop db (vin tx) v else (True, v))"


section \<open>What a view holds\<close>

text \<open>Reading without filling caches, and the abstract state of a view: outputs that are not spent, anchors, nullifiers and best hashes.\<close>

fun coins_at :: "CCoinsViewDB \<Rightarrow> coins_view \<Rightarrow> bytes \<Rightarrow> CCoins option" where
  "coins_at db [] k = db_coins db k"
| "coins_at db (c # cs) k = (case map_of (cacheCoins c) k of Some e \<Rightarrow> Some (entry_coins e) | None \<Rightarrow> coins_at db cs k)"

fun anchor_at :: "(ShieldedType \<Rightarrow> bytes) \<Rightarrow> CCoinsViewDB \<Rightarrow> coins_view \<Rightarrow> ShieldedType \<Rightarrow> bytes \<Rightarrow> note_tree option" where
  "anchor_at er db [] ty rt = db_GetAnchorAt er db ty rt"
| "anchor_at er db (c # cs) ty rt = (case map_of (cacheAnchors c ty) rt of Some e \<Rightarrow> if anchor_entered e then Some (anchor_tree e) else None
     | None \<Rightarrow> anchor_at er db cs ty rt)"

fun nullifier_at :: "CCoinsViewDB \<Rightarrow> coins_view \<Rightarrow> ShieldedType \<Rightarrow> bytes \<Rightarrow> bool" where
  "nullifier_at db [] ty nf = (nf \<in> db_nullifiers db ty)"
| "nullifier_at db (c # cs) ty nf = (case map_of (cacheNullifiers c ty) nf of Some e \<Rightarrow> nf_entered e | None \<Rightarrow> nullifier_at db cs ty nf)"

fun best_at :: "CCoinsViewDB \<Rightarrow> coins_view \<Rightarrow> bytes" where
  "best_at db [] = db_GetBestBlock db"
| "best_at db (c # cs) = (if hash_null (hashBlock c) then best_at db cs else hashBlock c)"

fun best_anchor_at :: "(ShieldedType \<Rightarrow> bytes) \<Rightarrow> CCoinsViewDB \<Rightarrow> coins_view \<Rightarrow> ShieldedType \<Rightarrow> bytes" where
  "best_anchor_at er db [] ty = db_GetBestAnchor er db ty"
| "best_anchor_at er db (c # cs) ty = (if hash_null (hashAnchor c ty) then best_anchor_at er db cs ty else hashAnchor c ty)"

definition live :: "CCoins option \<Rightarrow> CCoins option" where
  "live r = (case r of None \<Rightarrow> None | Some c \<Rightarrow> if IsPruned c then None else Some c)"

record chain_state =
  utxo :: "bytes \<rightharpoonup> CCoins"
  anchors :: "ShieldedType \<Rightarrow> bytes \<rightharpoonup> note_tree"
  spent_nullifiers :: "ShieldedType \<Rightarrow> bytes set"
  best_block :: bytes
  best_anchor :: "ShieldedType \<Rightarrow> bytes"

definition view_state :: "(ShieldedType \<Rightarrow> bytes) \<Rightarrow> CCoinsViewDB \<Rightarrow> coins_view \<Rightarrow> chain_state" where
  "view_state er db v = \<lparr>utxo = (\<lambda>k. live (coins_at db v k)), anchors = anchor_at er db v, spent_nullifiers = (\<lambda>ty. {nf. nullifier_at db v ty nf}),
     best_block = best_at db v, best_anchor = best_anchor_at er db v\<rparr>"

text \<open>The invariant. An entry that is not dirty repeats what is below; a fresh one is absent below; one that is not fresh is present
  in the cache below. The tree of an anchor is determined by the root, and the empty tree is always an anchor.\<close>

definition nulls_ok :: "CTxOut list \<Rightarrow> bool" where
  "nulls_ok v \<longleftrightarrow> (\<forall>out\<in>set v. txout_IsNull out \<longrightarrow> out = txout_null)"

definition coins_wf :: "CCoins \<Rightarrow> bool" where
  "coins_wf c \<longleftrightarrow> nulls_ok (coins_vout c) \<and> (coins_vout c \<noteq> [] \<longrightarrow> \<not> txout_IsNull (last (coins_vout c)))"

definition in_top :: "coins_view \<Rightarrow> bytes \<Rightarrow> bool" where
  "in_top v k = (case v of [] \<Rightarrow> True | c # _ \<Rightarrow> map_of (cacheCoins c) k \<noteq> None)"

definition coins_entry_ok :: "CCoinsViewDB \<Rightarrow> coins_view \<Rightarrow> bytes \<Rightarrow> CCoinsCacheEntry \<Rightarrow> bool" where
  "coins_entry_ok db cs k e \<longleftrightarrow> coins_wf (entry_coins e) \<and> (entry_fresh e \<longrightarrow> live (coins_at db cs k) = None) \<and>
     (\<not> entry_dirty e \<longrightarrow> coins_at db cs k = Some (entry_coins e)) \<and> (\<not> entry_fresh e \<longrightarrow> in_top cs k)"

definition anchor_entry_ok :: "(ShieldedType \<Rightarrow> bytes \<Rightarrow> note_tree) \<Rightarrow> (ShieldedType \<Rightarrow> bytes) \<Rightarrow> CCoinsViewDB \<Rightarrow> coins_view \<Rightarrow> ShieldedType \<Rightarrow> bytes \<Rightarrow> CAnchorsCacheEntry \<Rightarrow> bool" where
  "anchor_entry_ok T er db cs ty rt e \<longleftrightarrow> anchor_tree e = T ty rt \<and> (rt = er ty \<longrightarrow> anchor_entered e) \<and>
     (\<not> anchor_dirty e \<longrightarrow> anchor_at er db cs ty rt = (if anchor_entered e then Some (anchor_tree e) else None))"

definition nf_entry_ok :: "CCoinsViewDB \<Rightarrow> coins_view \<Rightarrow> ShieldedType \<Rightarrow> bytes \<Rightarrow> CNullifiersCacheEntry \<Rightarrow> bool" where
  "nf_entry_ok db cs ty nf e \<longleftrightarrow> (\<not> nf_dirty e \<longrightarrow> nf_entered e = nullifier_at db cs ty nf)"

definition tables_distinct :: "CCoinsViewCache \<Rightarrow> bool" where
  "tables_distinct c \<longleftrightarrow> distinct (map fst (cacheCoins c)) \<and> (\<forall>ty. distinct (map fst (cacheAnchors c ty)) \<and> distinct (map fst (cacheNullifiers c ty)))"

definition cache_inv :: "(ShieldedType \<Rightarrow> bytes \<Rightarrow> note_tree) \<Rightarrow> (ShieldedType \<Rightarrow> bytes) \<Rightarrow> CCoinsViewDB \<Rightarrow> CCoinsViewCache \<Rightarrow> coins_view \<Rightarrow> bool" where
  "cache_inv T er db c cs \<longleftrightarrow> \<not> hasModifier c \<and> tables_distinct c \<and>
     (\<forall>k e. map_of (cacheCoins c) k = Some e \<longrightarrow> coins_entry_ok db cs k e) \<and>
     (\<forall>ty rt e. map_of (cacheAnchors c ty) rt = Some e \<longrightarrow> anchor_entry_ok T er db cs ty rt e) \<and>
     (\<forall>ty nf e. map_of (cacheNullifiers c ty) nf = Some e \<longrightarrow> nf_entry_ok db cs ty nf e)"

definition db_inv :: "(ShieldedType \<Rightarrow> bytes \<Rightarrow> note_tree) \<Rightarrow> (ShieldedType \<Rightarrow> bytes) \<Rightarrow> CCoinsViewDB \<Rightarrow> bool" where
  "db_inv T er db \<longleftrightarrow> (\<forall>k c. db_coins db k = Some c \<longrightarrow> coins_wf c) \<and> (\<forall>ty rt t. db_anchors db ty rt = Some t \<longrightarrow> t = T ty rt) \<and>
     (\<forall>ty. T ty (er ty) = IncrementalMerkleTree_empty)"

fun view_inv :: "(ShieldedType \<Rightarrow> bytes \<Rightarrow> note_tree) \<Rightarrow> (ShieldedType \<Rightarrow> bytes) \<Rightarrow> CCoinsViewDB \<Rightarrow> coins_view \<Rightarrow> bool" where
  "view_inv T er db [] = db_inv T er db"
| "view_inv T er db (c # cs) = (cache_inv T er db c cs \<and> view_inv T er db cs)"

section \<open>Reading\<close>

text \<open>Two views that read alike, the second with at least the entries of the first in its topmost cache; and so do the views below.\<close>

definition reads_alike :: "(ShieldedType \<Rightarrow> bytes) \<Rightarrow> CCoinsViewDB \<Rightarrow> coins_view \<Rightarrow> coins_view \<Rightarrow> bool" where
  "reads_alike er db v w \<longleftrightarrow> (\<forall>k. in_top v k \<longrightarrow> in_top w k) \<and> coins_at db w = coins_at db v \<and>
     anchor_at er db w = anchor_at er db v \<and> nullifier_at db w = nullifier_at db v \<and> best_at db w = best_at db v \<and>
     best_anchor_at er db w = best_anchor_at er db v"

fun same_view :: "(ShieldedType \<Rightarrow> bytes) \<Rightarrow> CCoinsViewDB \<Rightarrow> coins_view \<Rightarrow> coins_view \<Rightarrow> bool" where
  "same_view er db [] w = (w = [])"
| "same_view er db (c # v) w = (reads_alike er db (c # v) w \<and> (case w of [] \<Rightarrow> False | c' # w \<Rightarrow> same_view er db v w))"

lemma reads_alike_refl [simp]: "reads_alike er db v v"
  by (simp add: reads_alike_def)

lemma same_view_alike: "same_view er db v w \<Longrightarrow> reads_alike er db v w"
  by (cases v) (auto simp: reads_alike_def)

lemma same_view_refl [simp]: "same_view er db v v"
  by (induction v) (auto simp: reads_alike_def)

lemma same_view_state: "same_view er db v w \<Longrightarrow> view_state er db w = view_state er db v"
  by (drule same_view_alike) (simp add: reads_alike_def view_state_def)

lemma cache_inv_same: "cache_inv T er db c v \<Longrightarrow> same_view er db v w \<Longrightarrow> cache_inv T er db c w"
  by (drule same_view_alike) (auto simp: cache_inv_def reads_alike_def coins_entry_ok_def anchor_entry_ok_def nf_entry_ok_def)

lemma same_view_Cons: "same_view er db v w \<Longrightarrow> same_view er db (c # v) (c # w)"
  by (frule same_view_alike) (auto simp: reads_alike_def fun_eq_iff in_top_def split: option.splits)

lemma view_inv_wf: "view_inv T er db v \<Longrightarrow> coins_at db v k = Some c \<Longrightarrow> coins_wf c"
  by (induction v) (auto simp: db_inv_def cache_inv_def coins_entry_ok_def split: option.splits)

lemma FetchCoins_top: "FetchCoins db k v = (Some x, w) \<Longrightarrow> in_top w k"
  by (cases v) (auto simp: in_top_def split: option.splits prod.splits)

lemma live_simps [simp]: "live None = None" "live (Some c) = (if IsPruned c then None else Some c)"
  by (simp_all add: live_def)

lemma FetchCoins_read:
  assumes "view_inv T er db v"
  shows "\<exists>w. FetchCoins db k v = (coins_at db v k, w) \<and> same_view er db v w \<and> view_inv T er db w"
  using assms
proof (induction v)
  case (Cons c v)
  obtain w where w: "FetchCoins db k v = (coins_at db v k, w)" "same_view er db v w" "view_inv T er db w" using Cons by auto
  have inv: "cache_inv T er db c w" using Cons.prems cache_inv_same w(2) by auto
  show ?case
  proof (cases "map_of (cacheCoins c) k")
    case None
    show ?thesis
    proof (cases "coins_at db v k")
      case Absent: None
      then show ?thesis using None w inv same_view_Cons by simp
    next
      case (Some tmp)
      let ?c = "c\<lparr>cacheCoins := (k, \<lparr>entry_coins = tmp, entry_dirty = False, entry_fresh = IsPruned tmp\<rparr>) # cacheCoins c\<rparr>"
      have e: "coins_at db w k = Some tmp" using same_view_alike [OF w(2)] Some by (simp add: reads_alike_def)
      have "coins_wf tmp" using view_inv_wf [OF w(3) e] .
      moreover have "in_top w k" using FetchCoins_top w(1) Some by simp
      ultimately have "cache_inv T er db ?c w" using inv None e
        by (auto simp: cache_inv_def tables_distinct_def coins_entry_ok_def map_of_eq_None_iff)
      moreover have "same_view er db (c # v) (?c # w)" using w(2) same_view_alike [OF w(2)] None Some
        by (auto simp: reads_alike_def fun_eq_iff in_top_def split: option.splits)
      ultimately show ?thesis using None Some w by simp
    qed
  qed (use Cons.prems in simp)
qed simp

lemma anchor_at_tree:
  assumes "view_inv T er db v" "anchor_at er db v ty rt = Some t"
  shows "t = T ty rt"
  using assms
proof (induction v)
  case (Cons c v)
  show ?case
  proof (cases "map_of (cacheAnchors c ty) rt")
    case (Some e)
    then have "anchor_entry_ok T er db v ty rt e" using Cons.prems by (simp add: cache_inv_def)
    then show ?thesis using Cons.prems Some by (simp add: anchor_entry_ok_def split: if_splits)
  qed (use Cons in simp)
qed (auto simp: db_inv_def db_GetAnchorAt_def split: if_splits)

lemma GetAnchorAt_read:
  assumes "view_inv T er db v"
  shows "\<exists>w. GetAnchorAt er db ty rt v = (anchor_at er db v ty rt, w) \<and> same_view er db v w \<and> view_inv T er db w"
  using assms
proof (induction v)
  case (Cons c v)
  obtain w where w: "GetAnchorAt er db ty rt v = (anchor_at er db v ty rt, w)" "same_view er db v w" "view_inv T er db w" using Cons by auto
  have inv: "cache_inv T er db c w" using Cons.prems cache_inv_same w(2) by auto
  show ?case
  proof (cases "map_of (cacheAnchors c ty) rt")
    case None
    show ?thesis
    proof (cases "anchor_at er db v ty rt")
      case Absent: None
      then show ?thesis using None w inv same_view_Cons by simp
    next
      case (Some t)
      let ?c = "c\<lparr>cacheAnchors := (cacheAnchors c)(ty := (rt, \<lparr>anchor_entered = True, anchor_tree = t, anchor_dirty = False\<rparr>) # cacheAnchors c ty)\<rparr>"
      have e: "anchor_at er db w ty rt = Some t" using same_view_alike [OF w(2)] Some by (simp add: reads_alike_def)
      have "cache_inv T er db ?c w" using inv None e anchor_at_tree [OF w(3) e]
        by (auto simp: cache_inv_def tables_distinct_def anchor_entry_ok_def map_of_eq_None_iff split: if_splits)
      moreover have "same_view er db (c # v) (?c # w)" using w(2) same_view_alike [OF w(2)] None Some
        by (auto simp: reads_alike_def fun_eq_iff in_top_def split: option.splits)
      ultimately show ?thesis using None Some w by simp
    qed
  qed (use Cons.prems in simp)
qed simp

lemma GetNullifier_read:
  assumes "view_inv T er db v"
  shows "\<exists>w. GetNullifier db ty nf v = (nullifier_at db v ty nf, w) \<and> same_view er db v w \<and> view_inv T er db w"
  using assms
proof (induction v)
  case (Cons c v)
  obtain w where w: "GetNullifier db ty nf v = (nullifier_at db v ty nf, w)" "same_view er db v w" "view_inv T er db w" using Cons by auto
  have inv: "cache_inv T er db c w" using Cons.prems cache_inv_same w(2) by auto
  show ?case
  proof (cases "map_of (cacheNullifiers c ty) nf")
    case None
    let ?c = "c\<lparr>cacheNullifiers := (cacheNullifiers c)(ty := (nf, \<lparr>nf_entered = nullifier_at db v ty nf, nf_dirty = False\<rparr>) # cacheNullifiers c ty)\<rparr>"
    have e: "nullifier_at db w ty nf = nullifier_at db v ty nf" using same_view_alike [OF w(2)] by (simp add: reads_alike_def)
    have "cache_inv T er db ?c w" using inv None e
      by (auto simp: cache_inv_def tables_distinct_def nf_entry_ok_def map_of_eq_None_iff split: if_splits)
    moreover have "same_view er db (c # v) (?c # w)" using w(2) same_view_alike [OF w(2)] None
      by (auto simp: reads_alike_def fun_eq_iff in_top_def split: option.splits)
    ultimately show ?thesis using None w by simp
  qed (use Cons.prems in simp)
qed simp

lemma cache_inv_hashes:
  "cache_inv T er db (c\<lparr>hashBlock := h\<rparr>) cs = cache_inv T er db c cs" "cache_inv T er db (c\<lparr>hashAnchor := a\<rparr>) cs = cache_inv T er db c cs"
  by (simp_all add: cache_inv_def tables_distinct_def)

lemma GetBestBlock_read:
  assumes "view_inv T er db v"
  shows "\<exists>w. GetBestBlock db v = (best_at db v, w) \<and> same_view er db v w \<and> view_inv T er db w"
  using assms
proof (induction v)
  case (Cons c v)
  obtain w where w: "GetBestBlock db v = (best_at db v, w)" "same_view er db v w" "view_inv T er db w" using Cons by auto
  have inv: "cache_inv T er db c w" using Cons.prems cache_inv_same w(2) by auto
  moreover have "hash_null (hashBlock c) \<Longrightarrow> same_view er db (c # v) (c\<lparr>hashBlock := best_at db v\<rparr> # w)"
    using w(2) same_view_alike [OF w(2)] by (auto simp: reads_alike_def fun_eq_iff in_top_def split: option.splits)
  ultimately show ?case using Cons.prems w by (simp add: cache_inv_hashes)
qed simp

lemma GetBestAnchor_read:
  assumes "view_inv T er db v"
  shows "\<exists>w. GetBestAnchor er db ty v = (best_anchor_at er db v ty, w) \<and> same_view er db v w \<and> view_inv T er db w"
  using assms
proof (induction v)
  case (Cons c v)
  obtain w where w: "GetBestAnchor er db ty v = (best_anchor_at er db v ty, w)" "same_view er db v w" "view_inv T er db w" using Cons by auto
  have inv: "cache_inv T er db c w" using Cons.prems cache_inv_same w(2) by auto
  moreover have "hash_null (hashAnchor c ty) \<Longrightarrow> same_view er db (c # v) (c\<lparr>hashAnchor := (hashAnchor c)(ty := best_anchor_at er db v ty)\<rparr> # w)"
    using w(2) same_view_alike [OF w(2)] by (auto simp: reads_alike_def fun_eq_iff in_top_def split: option.splits)
  ultimately show ?case using Cons.prems w by (simp add: cache_inv_hashes)
qed simp

end
