(* ===== verification/CoinsView.thy ===== *)
theory CoinsView
  imports Coins
begin

text \<open>
  The stack of caches implements the abstract state of the chain: every operation keeps the invariant of the caches and acts on the
  abstract state alone, and flushing a cache leaves the coins, anchors and nullifiers of that state as they are.
\<close>

section \<open>Modifying coins\<close>

lemma cleanup_loop_result:
  "nulls_ok v \<Longrightarrow> nulls_ok (cleanup_loop v)" "cleanup_loop v \<noteq> [] \<Longrightarrow> \<not> txout_IsNull (last (cleanup_loop v))"
  "list_all txout_IsNull (cleanup_loop v) = list_all txout_IsNull v"
proof (induction v rule: cleanup_loop.induct)
  case (1 v)
  { case 1 then show ?case using "1.IH"(1) by (subst cleanup_loop.simps) (auto simp: nulls_ok_def dest: in_set_butlastD) }
  { case 2 then show ?case using "1.IH"(2) by (subst (asm) cleanup_loop.simps, subst cleanup_loop.simps) (auto split: if_splits) }
  { case 3 then show ?case using "1.IH"(3)
      by (subst cleanup_loop.simps, cases v rule: rev_cases) auto }
qed

lemma Cleanup_wf: "nulls_ok (coins_vout c) \<Longrightarrow> coins_wf (Cleanup c)"
  by (simp add: coins_wf_def Cleanup_def cleanup_loop_result)

lemma IsPruned_Cleanup [simp]: "IsPruned (Cleanup c) = IsPruned c"
  by (simp add: IsPruned_def Cleanup_def cleanup_loop_result)

lemma coins_wf_pruned: "coins_wf c \<Longrightarrow> IsPruned c \<longleftrightarrow> coins_vout c = []"
  by (cases "coins_vout c" rule: rev_cases) (auto simp: coins_wf_def IsPruned_def)

lemma Cleanup_wf_id: "coins_wf c \<Longrightarrow> Cleanup c = c"
  by (simp add: Cleanup_def coins_wf_def, subst cleanup_loop.simps) auto

text \<open>What a modifier of an entry sees: the coins, or, where there are none, coins without outputs.\<close>

definition sees :: "(bytes \<rightharpoonup> CCoins) \<Rightarrow> bytes \<Rightarrow> CCoins \<Rightarrow> bool" where
  "sees u k coins = (case u k of Some c \<Rightarrow> coins = c | None \<Rightarrow> coins_vout coins = [])"

definition set_utxo :: "bytes \<Rightarrow> CCoins \<Rightarrow> chain_state \<Rightarrow> chain_state" where
  "set_utxo k c s = s\<lparr>utxo := (utxo s)(k := live (Some c))\<rparr>"

lemma cache_inv_coins:
  assumes "cache_inv T er db c cs" "distinct (map fst l)" "\<And>j. j \<noteq> k \<Longrightarrow> map_of l j = map_of (cacheCoins c) j"
    "\<And>e. map_of l k = Some e \<Longrightarrow> coins_entry_ok db cs k e"
  shows "cache_inv T er db (c\<lparr>cacheCoins := l\<rparr>) cs"
proof -
  have "coins_entry_ok db cs j e" if "map_of l j = Some e" for j e
    using that assms by (cases "j = k") (auto simp: cache_inv_def)
  then show ?thesis using assms(1,2) by (simp add: cache_inv_def tables_distinct_def)
qed

lemma view_state_coins:
  assumes "\<And>j. j \<noteq> k \<Longrightarrow> map_of l j = map_of (cacheCoins c) j" "live (coins_at db (c\<lparr>cacheCoins := l\<rparr> # cs) k) = live (Some co)"
  shows "view_state er db (c\<lparr>cacheCoins := l\<rparr> # cs) = set_utxo k co (view_state er db (c # cs))"
  using assms by (auto simp: view_state_def set_utxo_def fun_eq_iff)

lemma ModifyCoins_entry:
  assumes "view_inv T er db (c # cs)"
  obtains e w where "ModifyCoins db k (c # cs) =
      Inr (entry_coins e, c\<lparr>cacheCoins := AList.update k (e\<lparr>entry_dirty := True\<rparr>) (cacheCoins c), hasModifier := True\<rparr> # w)"
    "sees (utxo (view_state er db (c # cs))) k (entry_coins e)" "same_view er db cs w" "view_inv T er db w" "cache_inv T er db c w"
    "entry_fresh e \<Longrightarrow> live (coins_at db w k) = None" "\<not> entry_fresh e \<Longrightarrow> in_top w k"
proof (cases "map_of (cacheCoins c) k")
  case (Some e)
  then have "coins_entry_ok db cs k e" using assms by (simp add: cache_inv_def)
  then have e: "coins_wf (entry_coins e)" "entry_fresh e \<Longrightarrow> live (coins_at db cs k) = None" "\<not> entry_fresh e \<Longrightarrow> in_top cs k"
    unfolding coins_entry_ok_def by blast+
  have m: "\<not> hasModifier c" using assms by (simp add: cache_inv_def)
  show ?thesis
  proof (rule that [of e cs])
    show "sees (utxo (view_state er db (c # cs))) k (entry_coins e)" using e(1) Some by (simp add: sees_def view_state_def coins_wf_pruned)
  qed (use Some assms e m in \<open>simp_all add: Let_def\<close>)
next
  case None
  obtain w where w: "FetchCoins db k cs = (coins_at db cs k, w)" "same_view er db cs w" "view_inv T er db w"
    using FetchCoins_read [of T er db cs k] assms by auto
  have inv: "cache_inv T er db c w" using assms cache_inv_same [OF _ w(2)] by simp
  have m: "\<not> hasModifier c" using assms by (simp add: cache_inv_def)
  have at: "coins_at db w = coins_at db cs" using same_view_alike [OF w(2)] by (simp add: reads_alike_def)
  show ?thesis
  proof (cases "coins_at db cs k")
    case Absent: None
    show ?thesis using that [of "\<lparr>entry_coins = coins_Clear CCoins_empty, entry_dirty = False, entry_fresh = True\<rparr>" w] None Absent m inv w at
      by (simp add: sees_def view_state_def coins_Clear_def)
  next
    case (Some tmp)
    have "coins_wf tmp" using view_inv_wf [of T er db cs k tmp] assms Some by simp
    moreover have "in_top w k" using FetchCoins_top w(1) Some by simp
    ultimately show ?thesis using that [of "\<lparr>entry_coins = tmp, entry_dirty = False, entry_fresh = IsPruned tmp\<rparr>" w] None Some m inv w at
      by (simp add: sees_def view_state_def coins_wf_pruned)
  qed
qed

text \<open>The end of a modifier. The entry was dirty and its flags are as the invariant demands.\<close>

lemma modifier_end:
  fixes e :: CCoinsCacheEntry
  assumes inv: "cache_inv T er db c w" "view_inv T er db w" and l: "l = AList.update k (e\<lparr>entry_dirty := True\<rparr>) (cacheCoins c)"
    and fresh: "entry_fresh e \<Longrightarrow> live (coins_at db w k) = None" "\<not> entry_fresh e \<Longrightarrow> in_top w k" and ok: "nulls_ok (coins_vout co)"
  shows "\<exists>c'. CCoinsModifier_end k co (c\<lparr>cacheCoins := l, hasModifier := True\<rparr> # w) = Inr (c' # w) \<and> view_inv T er db (c' # w) \<and>
    view_state er db (c' # w) = set_utxo k (Cleanup co) (view_state er db (c # w))"
proof -
  have d: "distinct (map fst (cacheCoins c))" and m: "c\<lparr>hasModifier := False\<rparr> = c"
    using inv(1) by (cases c; simp add: cache_inv_def tables_distinct_def)+
  show ?thesis
  proof (cases "entry_fresh e \<and> IsPruned co")
    case True
    let ?l = "AList.delete k l"
    have at: "map_of ?l j = (if j = k then None else map_of (cacheCoins c) j)" for j by (simp add: l delete_conv' update_conv')
    have "distinct (map fst ?l)" unfolding l using d by (simp add: distinct_delete distinct_update)
    then have "cache_inv T er db (c\<lparr>cacheCoins := ?l\<rparr>) w" using cache_inv_coins [OF inv(1), of ?l k] at by simp
    moreover have "view_state er db (c\<lparr>cacheCoins := ?l\<rparr> # w) = set_utxo k (Cleanup co) (view_state er db (c # w))"
      using view_state_coins [of k ?l c db w "Cleanup co"] at True fresh by simp
    moreover have "CCoinsModifier_end k co (c\<lparr>cacheCoins := l, hasModifier := True\<rparr> # w) = Inr (c\<lparr>cacheCoins := ?l\<rparr> # w)"
      using True m by (simp add: l update_conv' Let_def)
    ultimately show ?thesis using inv(2) by auto
  next
    case False
    let ?e = "e\<lparr>entry_dirty := True, entry_coins := Cleanup co\<rparr>" let ?l = "AList.update k ?e l"
    have at: "map_of ?l j = (if j = k then Some ?e else map_of (cacheCoins c) j)" for j by (simp add: l update_conv')
    have "distinct (map fst ?l)" unfolding l using d by (simp add: distinct_update)
    moreover have "coins_entry_ok db w k ?e" using fresh Cleanup_wf [OF ok] by (auto simp: coins_entry_ok_def)
    ultimately have "cache_inv T er db (c\<lparr>cacheCoins := ?l\<rparr>) w" using cache_inv_coins [OF inv(1), of ?l k] at by simp
    moreover have "view_state er db (c\<lparr>cacheCoins := ?l\<rparr> # w) = set_utxo k (Cleanup co) (view_state er db (c # w))"
      using view_state_coins [of k ?l c db w "Cleanup co"] at by simp
    moreover have "CCoinsModifier_end k co (c\<lparr>cacheCoins := l, hasModifier := True\<rparr> # w) = Inr (c\<lparr>cacheCoins := ?l\<rparr> # w)"
      using False m by (auto simp: l update_conv' Let_def)
    ultimately show ?thesis using inv(2) by auto
  qed
qed

lemma modify_coins_refines:
  assumes "view_inv T er db (c # cs)"
  shows "\<exists>coins. sees (utxo (view_state er db (c # cs))) k coins \<and> (\<forall>f x co. f coins = Inr (x, co) \<longrightarrow> nulls_ok (coins_vout co) \<longrightarrow>
    (\<exists>c' cs'. modify_coins db k f (c # cs) = Inr (x, c' # cs') \<and> view_inv T er db (c' # cs') \<and> view_state er db cs' = view_state er db cs \<and>
      view_state er db (c' # cs') = set_utxo k (Cleanup co) (view_state er db (c # cs))))"
proof -
  obtain e w where e: "ModifyCoins db k (c # cs) =
      Inr (entry_coins e, c\<lparr>cacheCoins := AList.update k (e\<lparr>entry_dirty := True\<rparr>) (cacheCoins c), hasModifier := True\<rparr> # w)"
    "sees (utxo (view_state er db (c # cs))) k (entry_coins e)" and w: "same_view er db cs w" "view_inv T er db w" "cache_inv T er db c w"
    "entry_fresh e \<Longrightarrow> live (coins_at db w k) = None" "\<not> entry_fresh e \<Longrightarrow> in_top w k"
    using ModifyCoins_entry [OF assms, of k] by blast
  have "\<exists>c' cs'. modify_coins db k f (c # cs) = Inr (x, c' # cs') \<and> view_inv T er db (c' # cs') \<and> view_state er db cs' = view_state er db cs \<and>
      view_state er db (c' # cs') = set_utxo k (Cleanup co) (view_state er db (c # cs))"
    if f: "f (entry_coins e) = Inr (x, co)" and ok: "nulls_ok (coins_vout co)" for f x co
  proof -
    obtain c' where c': "CCoinsModifier_end k co (c\<lparr>cacheCoins := AList.update k (e\<lparr>entry_dirty := True\<rparr>) (cacheCoins c), hasModifier := True\<rparr> # w) =
        Inr (c' # w)" "view_inv T er db (c' # w)" "view_state er db (c' # w) = set_utxo k (Cleanup co) (view_state er db (c # w))"
      using modifier_end [OF w(3,2) refl w(4,5) ok] by blast
    have "view_state er db (c # w) = view_state er db (c # cs)" using same_view_state [OF same_view_Cons [OF w(1)]] .
    then show ?thesis using c' e(1) f same_view_state [OF w(1)] by (simp add: modify_coins_def)
  qed
  then show ?thesis using e(2) by blast
qed

text \<open>New coins are marked fresh without a look at the view below, where they must be absent.\<close>

lemma modify_new_coins_refines:
  assumes inv: "view_inv T er db (c # cs)" and absent: "utxo (view_state er db cs) k = None" and ok: "nulls_ok (coins_vout (f CCoins_empty))"
  shows "\<exists>c'. modify_new_coins k f (c # cs) = Inr (c' # cs) \<and> view_inv T er db (c' # cs) \<and>
    view_state er db (c' # cs) = set_utxo k (Cleanup (f CCoins_empty)) (view_state er db (c # cs))"
proof -
  let ?e = "\<lparr>entry_coins = CCoins_empty, entry_dirty = True, entry_fresh = True\<rparr>"
  have "ModifyNewCoins k (c # cs) = Inr (CCoins_empty, c\<lparr>cacheCoins := AList.update k (?e\<lparr>entry_dirty := True\<rparr>) (cacheCoins c), hasModifier := True\<rparr> # cs)"
    using inv by (simp add: cache_inv_def)
  then show ?thesis using modifier_end [of T er db c cs _ k ?e "f CCoins_empty", OF _ _ refl] inv absent ok
    by (simp add: modify_new_coins_def view_state_def)
qed

section \<open>Nullifiers, anchors and best hashes\<close>

lemma set_nullifier_refines:
  assumes "view_inv T er db (c # cs)"
  shows "\<exists>c'. set_nullifier b ty nf (c # cs) = c' # cs \<and> view_inv T er db (c' # cs) \<and>
    view_state er db (c' # cs) = (view_state er db (c # cs))\<lparr>spent_nullifiers :=
      (spent_nullifiers (view_state er db (c # cs)))(ty := (if b then insert nf else (\<lambda>s. s - {nf})) (spent_nullifiers (view_state er db (c # cs)) ty))\<rparr>"
proof -
  let ?c = "c\<lparr>cacheNullifiers := (cacheNullifiers c)(ty := AList.update nf \<lparr>nf_entered = b, nf_dirty = True\<rparr> (cacheNullifiers c ty))\<rparr>"
  have "cache_inv T er db ?c cs" using assms
    by (auto simp: cache_inv_def tables_distinct_def distinct_update update_conv' nf_entry_ok_def simp del: map_of_eq_Some_iff split: if_splits)
  moreover have "view_state er db (?c # cs) = (view_state er db (c # cs))\<lparr>spent_nullifiers :=
      (spent_nullifiers (view_state er db (c # cs)))(ty := (if b then insert nf else (\<lambda>s. s - {nf})) (spent_nullifiers (view_state er db (c # cs)) ty))\<rparr>"
    by (auto simp: view_state_def fun_eq_iff update_conv' split: option.splits)
  ultimately show ?thesis using assms by (simp add: set_nullifier_def upd_top_def)
qed

lemma SetBestBlock_refines:
  assumes "view_inv T er db (c # cs)" "\<not> hash_null h"
  shows "\<exists>c'. SetBestBlock h (c # cs) = c' # cs \<and> view_inv T er db (c' # cs) \<and> view_state er db (c' # cs) = (view_state er db (c # cs))\<lparr>best_block := h\<rparr>"
  using assms by (auto simp: SetBestBlock_def upd_top_def cache_inv_hashes view_state_def fun_eq_iff)

text \<open>Entering and leaving an anchor in the topmost cache.\<close>

lemma anchor_update:
  assumes "view_inv T er db (c # cs)" "anchor_entry_ok T er db cs ty rt \<lparr>anchor_entered = b, anchor_tree = t, anchor_dirty = True\<rparr>" "\<not> hash_null h"
    and c': "c' = c\<lparr>cacheAnchors := (cacheAnchors c)(ty := AList.update rt \<lparr>anchor_entered = b, anchor_tree = t, anchor_dirty = True\<rparr> (cacheAnchors c ty)),
      hashAnchor := (hashAnchor c)(ty := h)\<rparr>"
  shows "view_inv T er db (c' # cs)"
    "view_state er db (c' # cs) = (view_state er db (c # cs))\<lparr>anchors := (anchors (view_state er db (c # cs)))(ty :=
      (anchors (view_state er db (c # cs)) ty)(rt := if b then Some t else None)), best_anchor := (best_anchor (view_state er db (c # cs)))(ty := h)\<rparr>"
proof -
  have "cache_inv T er db c' cs" unfolding c' using assms(1,2)
    by (auto simp: cache_inv_def tables_distinct_def distinct_update update_conv' simp del: map_of_eq_Some_iff split: if_splits)
  then show "view_inv T er db (c' # cs)" using assms(1) by simp
qed (use assms(3) in \<open>auto simp: c' view_state_def fun_eq_iff update_conv' split: option.splits\<close>)

lemma GetBestAnchor_top:
  assumes "view_inv T er db (c # cs)"
  obtains c' cs' where "GetBestAnchor er db ty (c # cs) = (best_anchor (view_state er db (c # cs)) ty, c' # cs')" "view_inv T er db (c' # cs')"
    "view_state er db (c' # cs') = view_state er db (c # cs)" "view_state er db cs' = view_state er db cs"
proof -
  obtain w where w: "GetBestAnchor er db ty (c # cs) = (best_anchor_at er db (c # cs) ty, w)" "same_view er db (c # cs) w" "view_inv T er db w"
    using GetBestAnchor_read [OF assms, of ty] by blast
  then obtain c' cs' where w': "w = c' # cs'" "same_view er db cs cs'" by (cases w) auto
  show ?thesis using that [of c' cs'] w w' same_view_state [OF w(2)] same_view_state [OF w'(2)] by (simp add: view_state_def)
qed

definition push_anchor :: "ShieldedType \<Rightarrow> bytes \<Rightarrow> note_tree \<Rightarrow> chain_state \<Rightarrow> chain_state" where
  "push_anchor ty rt t s = (if best_anchor s ty = rt then s
     else s\<lparr>anchors := (anchors s)(ty := (anchors s ty)(rt \<mapsto> t)), best_anchor := (best_anchor s)(ty := rt)\<rparr>)"

definition pop_anchor :: "ShieldedType \<Rightarrow> bytes \<Rightarrow> chain_state \<Rightarrow> chain_state" where
  "pop_anchor ty rt s = (if best_anchor s ty = rt then s
     else s\<lparr>anchors := (anchors s)(ty := (anchors s ty)(best_anchor s ty := None)), best_anchor := (best_anchor s)(ty := rt)\<rparr>)"

lemma PushAnchor_refines:
  assumes inv: "view_inv T er db (c # cs)" and t: "T ty (root t) = t" "\<not> hash_null (root t)"
  shows "\<exists>c' cs'. PushAnchor er root db ty t (c # cs) = c' # cs' \<and> view_inv T er db (c' # cs') \<and> view_state er db cs' = view_state er db cs \<and>
    view_state er db (c' # cs') = push_anchor ty (root t) t (view_state er db (c # cs))"
proof -
  obtain c' cs' where w: "GetBestAnchor er db ty (c # cs) = (best_anchor (view_state er db (c # cs)) ty, c' # cs')" "view_inv T er db (c' # cs')"
    "view_state er db (c' # cs') = view_state er db (c # cs)" "view_state er db cs' = view_state er db cs"
    using GetBestAnchor_top [OF inv] by blast
  have "anchor_entry_ok T er db cs' ty (root t) \<lparr>anchor_entered = True, anchor_tree = t, anchor_dirty = True\<rparr>" using t(1) by (simp add: anchor_entry_ok_def)
  note upd = anchor_update [OF w(2) this t(2) refl]
  show ?thesis
  proof (cases "best_anchor (view_state er db (c # cs)) ty = root t")
    case False
    then show ?thesis using upd w by (simp add: PushAnchor_def push_anchor_def upd_top_def Let_def)
  qed (use w in \<open>simp add: PushAnchor_def push_anchor_def\<close>)
qed

lemma GetAnchorAt_top:
  assumes "view_inv T er db (c # cs)"
  obtains c' cs' where "GetAnchorAt er db ty rt (c # cs) = (anchors (view_state er db (c # cs)) ty rt, c' # cs')" "view_inv T er db (c' # cs')"
    "view_state er db (c' # cs') = view_state er db (c # cs)" "view_state er db cs' = view_state er db cs"
proof -
  obtain w where w: "GetAnchorAt er db ty rt (c # cs) = (anchor_at er db (c # cs) ty rt, w)" "same_view er db (c # cs) w" "view_inv T er db w"
    using GetAnchorAt_read [OF assms, of ty rt] by blast
  then obtain c' cs' where w': "w = c' # cs'" "same_view er db cs cs'" by (cases w) auto
  show ?thesis using that [of c' cs'] w w' same_view_state [OF w(2)] same_view_state [OF w'(2)] by (simp add: view_state_def)
qed

text \<open>Leaving an anchor needs its tree, and the empty tree is never left.\<close>

lemma PopAnchor_refines:
  assumes inv: "view_inv T er db (c # cs)" and s: "s = view_state er db (c # cs)"
    and best: "best_anchor s ty \<noteq> rt \<Longrightarrow> best_anchor s ty \<noteq> er ty \<and> anchors s ty (best_anchor s ty) \<noteq> None \<and> \<not> hash_null rt"
  shows "\<exists>c' cs'. PopAnchor er db rt ty (c # cs) = Inr (c' # cs') \<and> view_inv T er db (c' # cs') \<and> view_state er db cs' = view_state er db cs \<and>
    view_state er db (c' # cs') = pop_anchor ty rt s"
proof -
  obtain c1 cs1 where w: "GetBestAnchor er db ty (c # cs) = (best_anchor s ty, c1 # cs1)" "view_inv T er db (c1 # cs1)"
    "view_state er db (c1 # cs1) = s" "view_state er db cs1 = view_state er db cs"
    unfolding s using GetBestAnchor_top [OF inv] by blast
  obtain c2 cs2 where g: "GetAnchorAt er db ty (best_anchor s ty) (c1 # cs1) = (anchors s ty (best_anchor s ty), c2 # cs2)"
    "view_inv T er db (c2 # cs2)" "view_state er db (c2 # cs2) = s" "view_state er db cs2 = view_state er db cs"
    using GetAnchorAt_top [OF w(2), of ty "best_anchor s ty"] unfolding w(3,4) by blast
  show ?thesis
  proof (cases "best_anchor s ty = rt")
    case False
    then obtain t where t: "anchors s ty (best_anchor s ty) = Some t" using best by blast
    moreover have "anchor_at er db (c2 # cs2) = anchors s" unfolding g(3) [symmetric] view_state_def by (simp only: chain_state.simps)
    ultimately have "anchor_at er db (c2 # cs2) ty (best_anchor s ty) = Some t" by (simp only:)
    then have "anchor_entry_ok T er db cs2 ty (best_anchor s ty) \<lparr>anchor_entered = False, anchor_tree = t, anchor_dirty = True\<rparr>"
      using anchor_at_tree [OF g(2)] best [OF False] by (simp add: anchor_entry_ok_def)
    from anchor_update [OF g(2) this _ refl, of rt] show ?thesis using False best t w g by (simp add: PopAnchor_def pop_anchor_def upd_top_def Let_def)
  qed (use w in \<open>simp add: PopAnchor_def pop_anchor_def\<close>)
qed

section \<open>Flushing\<close>

text \<open>The loops over the entries of a flushed cache treat every key on its own.\<close>

locale keyed_loop =
  fixes run :: "('k \<times> 'e) list \<Rightarrow> 's \<Rightarrow> 's" and at :: "'s \<Rightarrow> 'k \<Rightarrow> 'v" and put :: "'k \<Rightarrow> 'e \<Rightarrow> 'v \<Rightarrow> 'v"
  assumes run_Nil: "run [] s = s"
    and run_Cons: "run (p # ps) s = run ps (run [p] s)"
    and at_one: "at (run [(k, e)] s) j = (if j = k then put k e (at s k) else at s j)"
begin

lemma at_run: "distinct (map fst es) \<Longrightarrow> at (run es s) k = (case map_of es k of None \<Rightarrow> at s k | Some e \<Rightarrow> put k e (at s k))"
proof (induction es arbitrary: s)
  case (Cons p es)
  obtain j e where p: "p = (j, e)" by fastforce
  have "at (run (p # es) s) k = (case map_of es k of None \<Rightarrow> at (run [p] s) k | Some e \<Rightarrow> put k e (at (run [p] s) k))"
    unfolding run_Cons [of p es] using Cons by simp
  moreover have "map_of es j = None" using Cons.prems p by (simp add: map_of_eq_None_iff)
  ultimately show ?case by (cases "k = j") (simp_all add: p at_one split: option.splits)
qed (simp add: run_Nil)

end

definition put_nullifier :: "CNullifiersCacheEntry \<Rightarrow> CNullifiersCacheEntry option \<Rightarrow> CNullifiersCacheEntry option" where
  "put_nullifier e us = (if nf_dirty e then (case us of None \<Rightarrow> Some \<lparr>nf_entered = nf_entered e, nf_dirty = True\<rparr>
     | Some p \<Rightarrow> if nf_entered p \<noteq> nf_entered e then Some \<lparr>nf_entered = nf_entered e, nf_dirty = True\<rparr> else us) else us)"

definition put_anchor :: "CAnchorsCacheEntry \<Rightarrow> CAnchorsCacheEntry option \<Rightarrow> CAnchorsCacheEntry option" where
  "put_anchor e us = (if anchor_dirty e then (case us of None \<Rightarrow> Some (e\<lparr>anchor_dirty := True\<rparr>)
     | Some p \<Rightarrow> if anchor_entered p \<noteq> anchor_entered e then Some (p\<lparr>anchor_entered := anchor_entered e, anchor_dirty := True\<rparr>) else us) else us)"

definition put_coins :: "CCoinsCacheEntry \<Rightarrow> CCoinsCacheEntry option \<Rightarrow> CCoinsCacheEntry option" where
  "put_coins e us = (if \<not> entry_dirty e then us else (case us of
       None \<Rightarrow> if \<not> IsPruned (entry_coins e) then Some \<lparr>entry_coins = entry_coins e, entry_dirty = True, entry_fresh = True\<rparr> else None
     | Some u \<Rightarrow> if entry_fresh u \<and> IsPruned (entry_coins e) then None else Some (u\<lparr>entry_coins := entry_coins e, entry_dirty := True\<rparr>)))"

interpretation nullifiers_loop: keyed_loop BatchWriteNullifiers map_of "\<lambda>_. put_nullifier"
  by unfold_locales (auto simp: put_nullifier_def update_conv' split: option.splits)

interpretation anchors_loop: keyed_loop BatchWriteAnchors map_of "\<lambda>_. put_anchor"
  by unfold_locales (auto simp: put_anchor_def update_conv' split: option.splits)

interpretation db_coins_loop: keyed_loop db_batch_coins "\<lambda>m. m" "\<lambda>_ e r. if entry_dirty e then live (Some (entry_coins e)) else r"
  by unfold_locales auto

interpretation db_nullifiers_loop: keyed_loop db_batch_nullifiers "\<lambda>s k. k \<in> s" "\<lambda>_ e r. if nf_dirty e then nf_entered e else r"
  by unfold_locales auto

interpretation db_anchors_loop: keyed_loop "db_batch_anchors er" "\<lambda>m. m"
  "\<lambda>k e r. if anchor_dirty e then if \<not> anchor_entered e then None else if k \<noteq> er then Some (anchor_tree e) else r else r" for er
  by unfold_locales auto

lemma distinct_batch:
  "distinct (map fst ours) \<Longrightarrow> distinct (map fst (BatchWriteNullifiers es ours))"
  "distinct (map fst ours') \<Longrightarrow> distinct (map fst (BatchWriteAnchors es' ours'))"
  by (induction es ours rule: BatchWriteNullifiers.induct; simp add: distinct_update split: option.splits)
    (induction es' ours' rule: BatchWriteAnchors.induct; simp add: distinct_update split: option.splits)

lemma batch_coins_result:
  assumes "distinct (map fst es)" "distinct (map fst ours)"
    "\<And>k e. map_of es k = Some e \<Longrightarrow> entry_dirty e \<Longrightarrow> \<not> IsPruned (entry_coins e) \<Longrightarrow> map_of ours k = None \<Longrightarrow> entry_fresh e"
  shows "\<exists>r. batch_coins es ours = Inr r \<and> distinct (map fst r) \<and>
    (\<forall>k. map_of r k = (case map_of es k of None \<Rightarrow> map_of ours k | Some e \<Rightarrow> put_coins e (map_of ours k)))"
  using assms
proof (induction es arbitrary: ours)
  case (Cons p es)
  obtain j e where p: "p = (j, e)" by fastforce
  have j: "map_of es j = None" using Cons.prems p by (simp add: map_of_eq_None_iff)
  obtain ours' where o: "batch_coins (p # es) ours = batch_coins es ours'" "distinct (map fst ours')"
    "\<And>k. map_of ours' k = (if k = j then put_coins e (map_of ours j) else map_of ours k)"
  proof (cases "entry_dirty e")
    case True
    show ?thesis
    proof (cases "map_of ours j")
      case None
      then show ?thesis using True Cons.prems(2) Cons.prems(3) [of j e] p
          that [of "if IsPruned (entry_coins e) then ours else AList.update j \<lparr>entry_coins = entry_coins e, entry_dirty = True, entry_fresh = True\<rparr> ours"]
        by (simp add: put_coins_def update_conv' distinct_update cassert_def)
    next
      case (Some u)
      show ?thesis
        by (rule that [of "if entry_fresh u \<and> IsPruned (entry_coins e) then AList.delete j ours
            else AList.update j (u\<lparr>entry_coins := entry_coins e, entry_dirty := True\<rparr>) ours"])
          (use Some True Cons.prems(2) p in \<open>auto simp: put_coins_def update_conv' delete_conv' distinct_update distinct_delete simp del: map_of_eq_Some_iff\<close>)
    qed
  qed (use that [of ours] p Cons.prems(2) in \<open>simp add: put_coins_def\<close>)
  have fresh: "entry_fresh e'" if "map_of es k = Some e'" "entry_dirty e'" "\<not> IsPruned (entry_coins e')" "map_of ours' k = None" for k e'
    using Cons.prems(3) [of k e'] that j o(3) [of k] p by (cases "k = j") simp_all
  obtain r where r: "batch_coins es ours' = Inr r" "distinct (map fst r)"
    "\<And>k. map_of r k = (case map_of es k of None \<Rightarrow> map_of ours' k | Some e \<Rightarrow> put_coins e (map_of ours' k))"
    using Cons.IH [of ours'] Cons.prems(1) o(2) fresh p by auto
  have "map_of r k = (case map_of (p # es) k of None \<Rightarrow> map_of ours k | Some e \<Rightarrow> put_coins e (map_of ours k))" for k
    using r(3) [of k] o(3) [of k] j p by (cases "k = j") (simp_all split: option.splits)
  then show ?case using r o(1) by auto
qed simp

text \<open>Merging an entry into the cache below it.\<close>

lemma put_coins_ok:
  assumes e: "coins_entry_ok db (p # cs) k e" and us: "\<And>u. map_of (cacheCoins p) k = Some u \<Longrightarrow> coins_entry_ok db cs k u"
  shows "put_coins e (map_of (cacheCoins p) k) = Some u \<Longrightarrow> coins_entry_ok db cs k u"
    "live (case put_coins e (map_of (cacheCoins p) k) of None \<Rightarrow> coins_at db cs k | Some u \<Rightarrow> Some (entry_coins u)) = live (Some (entry_coins e))"
  using assms by (cases "map_of (cacheCoins p) k"; auto simp: put_coins_def coins_entry_ok_def in_top_def split: if_splits)+

lemma put_nullifier_ok:
  assumes e: "nf_entry_ok db (p # cs) ty k e" and us: "\<And>u. map_of (cacheNullifiers p ty) k = Some u \<Longrightarrow> nf_entry_ok db cs ty k u"
  shows "put_nullifier e (map_of (cacheNullifiers p ty) k) = Some u \<Longrightarrow> nf_entry_ok db cs ty k u"
    "(case put_nullifier e (map_of (cacheNullifiers p ty) k) of None \<Rightarrow> nullifier_at db cs ty k | Some u \<Rightarrow> nf_entered u) = nf_entered e"
  using assms by (cases "map_of (cacheNullifiers p ty) k"; auto simp: put_nullifier_def nf_entry_ok_def split: if_splits)+

lemma put_anchor_ok:
  assumes e: "anchor_entry_ok T er db (p # cs) ty k e" and us: "\<And>u. map_of (cacheAnchors p ty) k = Some u \<Longrightarrow> anchor_entry_ok T er db cs ty k u"
  shows "put_anchor e (map_of (cacheAnchors p ty) k) = Some u \<Longrightarrow> anchor_entry_ok T er db cs ty k u"
    "(case put_anchor e (map_of (cacheAnchors p ty) k) of None \<Rightarrow> anchor_at er db cs ty k
      | Some u \<Rightarrow> if anchor_entered u then Some (anchor_tree u) else None) = (if anchor_entered e then Some (anchor_tree e) else None)"
  using assms by (cases "map_of (cacheAnchors p ty) k"; auto simp: put_anchor_def anchor_entry_ok_def split: if_splits)+

text \<open>A flushed cache hands its best hashes down even when it never read them, so that a null one erases that of the cache below. The
  state after the flush is therefore the state before it with the best hashes found when the cache below is passed over; they are the
  ones shown before when every null hash of the flushed cache is null in the cache below as well.\<close>

definition flushed_state :: "(ShieldedType \<Rightarrow> bytes) \<Rightarrow> CCoinsViewDB \<Rightarrow> CCoinsViewCache \<Rightarrow> coins_view \<Rightarrow> chain_state" where
  "flushed_state er db c cs =
     (view_state er db (c # cs))\<lparr>best_block := best_at db (c # tl cs), best_anchor := best_anchor_at er db (c # tl cs)\<rparr>"

definition hashes_known :: "CCoinsViewCache \<Rightarrow> coins_view \<Rightarrow> bool" where
  "hashes_known c cs \<longleftrightarrow> (case cs of [] \<Rightarrow> True
     | p # _ \<Rightarrow> (hash_null (hashBlock c) \<longrightarrow> hash_null (hashBlock p)) \<and> (\<forall>ty. hash_null (hashAnchor c ty) \<longrightarrow> hash_null (hashAnchor p ty)))"

lemma flushed_state_known: "hashes_known c cs \<Longrightarrow> flushed_state er db c cs = view_state er db (c # cs)"
  by (cases cs) (auto simp: flushed_state_def view_state_def hashes_known_def fun_eq_iff)

lemma cache_invD:
  assumes "cache_inv T er db c cs"
  shows "map_of (cacheCoins c) k = Some e \<Longrightarrow> coins_entry_ok db cs k e" "map_of (cacheAnchors c ty) k = Some a \<Longrightarrow> anchor_entry_ok T er db cs ty k a"
    "map_of (cacheNullifiers c ty) k = Some n \<Longrightarrow> nf_entry_ok db cs ty k n" "distinct (map fst (cacheCoins c))" "distinct (map fst (cacheAnchors c ty))"
    "distinct (map fst (cacheNullifiers c ty))" "\<not> hasModifier c"
  using assms unfolding cache_inv_def tables_distinct_def by blast+

lemma BatchWrite_refines:
  assumes c: "cache_inv T er db c (p # cs)" and p: "view_inv T er db (p # cs)"
  shows "\<exists>q. BatchWrite c p = Inr q \<and> view_inv T er db (q # cs) \<and> view_state er db (q # cs) = flushed_state er db c (p # cs) \<and>
    hashBlock q = hashBlock c \<and> hashAnchor q = hashAnchor c"
proof -
  have pi: "cache_inv T er db p cs" using p by simp
  have fresh: "entry_fresh e" if "map_of (cacheCoins c) k = Some e" "map_of (cacheCoins p) k = None" for k e
    using cache_invD(1) [OF c that(1)] that(2) by (auto simp: coins_entry_ok_def in_top_def)
  obtain r where r: "batch_coins (cacheCoins c) (cacheCoins p) = Inr r" "distinct (map fst r)"
    "\<And>k. map_of r k = (case map_of (cacheCoins c) k of None \<Rightarrow> map_of (cacheCoins p) k | Some e \<Rightarrow> put_coins e (map_of (cacheCoins p) k))"
    using batch_coins_result [of "cacheCoins c" "cacheCoins p"] fresh cache_invD(4) [OF c] cache_invD(4) [OF pi] by blast
  let ?A = "\<lambda>ty. BatchWriteAnchors (cacheAnchors c ty) (cacheAnchors p ty)" and ?N = "\<lambda>ty. BatchWriteNullifiers (cacheNullifiers c ty) (cacheNullifiers p ty)"
  let ?q = "p\<lparr>cacheCoins := r, cacheAnchors := ?A, cacheNullifiers := ?N, hashAnchor := hashAnchor c, hashBlock := hashBlock c\<rparr>"
  note A = anchors_loop.at_run [OF cache_invD(5) [OF c]] and N = nullifiers_loop.at_run [OF cache_invD(6) [OF c]]
  have coins: "coins_entry_ok db cs k u" if "map_of r k = Some u" for k u
    using that r(3) [of k] put_coins_ok(1) [OF cache_invD(1) [OF c] cache_invD(1) [OF pi]] cache_invD(1) [OF pi] by (auto split: option.splits)
  have anchor: "anchor_entry_ok T er db cs ty k u" if "map_of (?A ty) k = Some u" for ty k u
    using that A [of ty "cacheAnchors p ty" k] put_anchor_ok(1) [OF cache_invD(2) [OF c] cache_invD(2) [OF pi]] cache_invD(2) [OF pi] by (auto split: option.splits)
  have nf: "nf_entry_ok db cs ty k u" if "map_of (?N ty) k = Some u" for ty k u
    using that N [of ty "cacheNullifiers p ty" k] put_nullifier_ok(1) [OF cache_invD(3) [OF c] cache_invD(3) [OF pi]] cache_invD(3) [OF pi] by (auto split: option.splits)
  have inv: "cache_inv T er db ?q cs" unfolding cache_inv_def tables_distinct_def
    using coins anchor nf r(2) cache_invD(5-7) [OF pi] by (auto simp: distinct_batch simp del: map_of_eq_Some_iff)
  have "live (coins_at db (?q # cs) k) = live (coins_at db (c # p # cs) k)" for k
    using r(3) [of k] put_coins_ok(2) [OF cache_invD(1) [OF c] cache_invD(1) [OF pi]] by (simp split: option.splits)
  moreover have "anchor_at er db (?q # cs) ty k = anchor_at er db (c # p # cs) ty k" for ty k
    using A [of ty "cacheAnchors p ty" k] put_anchor_ok(2) [OF cache_invD(2) [OF c] cache_invD(2) [OF pi]] by (simp split: option.splits)
  moreover have "nullifier_at db (?q # cs) ty k = nullifier_at db (c # p # cs) ty k" for ty k
    using N [of ty "cacheNullifiers p ty" k] put_nullifier_ok(2) [OF cache_invD(3) [OF c] cache_invD(3) [OF pi]] by (simp split: option.splits)
  ultimately have "view_state er db (?q # cs) = flushed_state er db c (p # cs)" by (simp add: view_state_def flushed_state_def fun_eq_iff)
  then show ?thesis using r(1) inv p cache_invD(7) [OF pi] by (simp add: BatchWrite_def cassert_def)
qed

lemma db_BatchWrite_refines:
  assumes "cache_inv T er db c []" "db_inv T er db"
  shows "db_inv T er (db_BatchWrite er c db)" "view_state er (db_BatchWrite er c db) [] = view_state er db [c]"
proof -
  note C = db_coins_loop.at_run [OF cache_invD(4) [OF assms(1)]] and A = db_anchors_loop.at_run [OF cache_invD(5) [OF assms(1)]]
    and D = assms(2) [unfolded db_inv_def]
  have "coins_wf co" if "db_batch_coins (cacheCoins c) (db_coins db) k = Some co" for k co
    using that C [of "db_coins db" k] D cache_invD(1) [OF assms(1), of k] by (auto simp: coins_entry_ok_def split: option.splits if_splits)
  moreover have d: "t = T ty k" if "db_anchors db ty k = Some t" for ty k t using D that by blast
  have "t = T ty k" if "db_batch_anchors (er ty) (cacheAnchors c ty) (db_anchors db ty) k = Some t" for ty k t
    using that A [of "er ty" ty "db_anchors db ty" k] d cache_invD(2) [OF assms(1), of ty k] by (auto simp: anchor_entry_ok_def split: option.splits if_splits)
  ultimately show "db_inv T er (db_BatchWrite er c db)" using D by (auto simp: db_inv_def db_BatchWrite_def)
  have T0: "T ty (er ty) = IncrementalMerkleTree_empty" for ty using D by blast
  have "live (db_batch_coins (cacheCoins c) (db_coins db) k) = live (coins_at db [c] k)" for k
    using C [of "db_coins db" k] cache_invD(1) [OF assms(1), of k] by (auto simp: coins_entry_ok_def split: option.splits)
  moreover have "db_GetAnchorAt er (db_BatchWrite er c db) ty k = anchor_at er db [c] ty k" for ty k
  proof (cases "map_of (cacheAnchors c ty) k")
    case (Some e)
    have e: "anchor_tree e = T ty k" "k = er ty \<longrightarrow> anchor_entered e"
      "\<not> anchor_dirty e \<longrightarrow> db_GetAnchorAt er db ty k = (if anchor_entered e then Some (anchor_tree e) else None)"
      using cache_invD(2) [OF assms(1) Some] unfolding anchor_entry_ok_def anchor_at.simps by blast+
    have "db_anchors (db_BatchWrite er c db) ty k = (if anchor_dirty e then if \<not> anchor_entered e then None
        else if k \<noteq> er ty then Some (anchor_tree e) else db_anchors db ty k else db_anchors db ty k)"
      using A [of "er ty" ty "db_anchors db ty" k] Some by (simp add: db_BatchWrite_def)
    moreover have "anchor_at er db [c] ty k = (if anchor_entered e then Some (anchor_tree e) else None)" using Some by simp
    ultimately show ?thesis using e T0 [of ty] by (simp only: db_GetAnchorAt_def) (cases "k = er ty"; cases "anchor_dirty e"; simp)
  qed (use A [of "er ty" ty "db_anchors db ty" k] in \<open>simp add: db_GetAnchorAt_def db_BatchWrite_def\<close>)
  moreover have "(k \<in> db_batch_nullifiers (cacheNullifiers c ty) (db_nullifiers db ty)) = nullifier_at db [c] ty k" for ty k
    using db_nullifiers_loop.at_run [OF cache_invD(6) [OF assms(1), of ty], of k "db_nullifiers db ty"] cache_invD(3) [OF assms(1), of ty k] by (auto simp: nf_entry_ok_def split: option.splits)
  ultimately show "view_state er (db_BatchWrite er c db) [] = view_state er db [c]"
    by (auto simp: view_state_def fun_eq_iff db_BatchWrite_def db_GetBestBlock_def db_GetBestAnchor_def)
qed

lemma clear_cache_inv [simp]: "\<not> hasModifier c \<Longrightarrow> cache_inv T er db (clear_cache c) cs"
  by (simp add: cache_inv_def tables_distinct_def clear_cache_def)

lemma clear_cache_state:
  assumes "hashBlock c = best_at db cs \<or> hash_null (hashBlock c)" "\<And>ty. hashAnchor c ty = best_anchor_at er db cs ty \<or> hash_null (hashAnchor c ty)"
  shows "view_state er db (clear_cache c # cs) = view_state er db cs"
proof -
  have "best_at db (clear_cache c # cs) = best_at db cs" "best_anchor_at er db (clear_cache c # cs) ty = best_anchor_at er db cs ty" for ty
    using assms(1) assms(2) [of ty] by (auto simp: clear_cache_def)
  then show ?thesis by (simp add: view_state_def fun_eq_iff clear_cache_def)
qed

lemma Flush_refines:
  assumes inv: "view_inv T er db (c # cs)"
  shows "\<exists>db' ps. Flush er db (c # cs) = Inr (db', clear_cache c # ps) \<and> view_inv T er db' (clear_cache c # ps) \<and>
    view_state er db' ps = flushed_state er db c cs \<and> view_state er db' (clear_cache c # ps) = flushed_state er db c cs"
proof (cases cs)
  case Nil
  then have i: "cache_inv T er db c []" "db_inv T er db" using inv by simp_all
  have "view_state er (db_BatchWrite er c db) [clear_cache c] = view_state er (db_BatchWrite er c db) []"
    by (rule clear_cache_state) (auto simp: db_GetBestBlock_def db_GetBestAnchor_def db_BatchWrite_def)
  then show ?thesis using Nil db_BatchWrite_refines [OF i] cache_invD(7) [OF i(1)] flushed_state_known [of c cs er db] by (simp add: hashes_known_def)
next
  case (Cons p ps)
  then have i: "cache_inv T er db c (p # ps)" "view_inv T er db (p # ps)" using inv by simp_all
  obtain q where q: "BatchWrite c p = Inr q" "view_inv T er db (q # ps)" "view_state er db (q # ps) = flushed_state er db c (p # ps)"
    "hashBlock q = hashBlock c" "hashAnchor q = hashAnchor c"
    using BatchWrite_refines [OF i] by blast
  have "view_state er db (clear_cache c # q # ps) = view_state er db (q # ps)" by (rule clear_cache_state) (auto simp: q)
  then show ?thesis using Cons q cache_invD(7) [OF i(1)] by simp
qed

section \<open>Runs of a view\<close>

lemma same_view_tl: "same_view er db v w \<Longrightarrow> same_view er db (tl v) (tl w)"
  by (cases v; cases w) auto

text \<open>The steps of a view: reading, changing the topmost cache, stacking a cache on it, flushing and dropping the topmost cache.
  The side conditions are what the callers of the operations see to.\<close>

definition keeps_nulls :: "(CCoins \<Rightarrow> failure + 'a \<times> CCoins) \<Rightarrow> bool" where
  "keeps_nulls f \<longleftrightarrow> (\<forall>coins x co. f coins = Inr (x, co) \<longrightarrow> nulls_ok (coins_vout coins) \<longrightarrow> nulls_ok (coins_vout co))"

inductive view_step :: "(ShieldedType \<Rightarrow> bytes \<Rightarrow> note_tree) \<Rightarrow> (ShieldedType \<Rightarrow> bytes) \<Rightarrow> (note_tree \<Rightarrow> bytes) \<Rightarrow>
    CCoinsViewDB \<times> coins_view \<Rightarrow> CCoinsViewDB \<times> coins_view \<Rightarrow> bool" for T er root where
  read_coins: "FetchCoins db k v = (r, w) \<Longrightarrow> view_step T er root (db, v) (db, w)"
| read_anchor: "GetAnchorAt er db ty rt v = (r, w) \<Longrightarrow> view_step T er root (db, v) (db, w)"
| read_nullifier: "GetNullifier db ty nf v = (b, w) \<Longrightarrow> view_step T er root (db, v) (db, w)"
| read_best_block: "GetBestBlock db v = (h, w) \<Longrightarrow> view_step T er root (db, v) (db, w)"
| read_best_anchor: "GetBestAnchor er db ty v = (h, w) \<Longrightarrow> view_step T er root (db, v) (db, w)"
| modify: "modify_coins db k f v = Inr (x :: unit, w) \<Longrightarrow> keeps_nulls f \<Longrightarrow> view_step T er root (db, v) (db, w)"
| modify_new: "modify_new_coins k g (c # cs) = Inr w \<Longrightarrow> utxo (view_state er db cs) k = None \<Longrightarrow> nulls_ok (coins_vout (g CCoins_empty)) \<Longrightarrow>
    view_step T er root (db, c # cs) (db, w)"
| nullifier: "view_step T er root (db, c # cs) (db, set_nullifier b ty nf (c # cs))"
| best: "\<not> hash_null h \<Longrightarrow> view_step T er root (db, c # cs) (db, SetBestBlock h (c # cs))"
| push: "T ty (root t) = t \<Longrightarrow> \<not> hash_null (root t) \<Longrightarrow> view_step T er root (db, c # cs) (db, PushAnchor er root db ty t (c # cs))"
| pop: "PopAnchor er db rt ty (c # cs) = Inr w \<Longrightarrow> \<not> hash_null rt \<Longrightarrow> best_anchor (view_state er db (c # cs)) ty \<noteq> er ty \<Longrightarrow>
    view_step T er root (db, c # cs) (db, w)"
| new_cache: "view_step T er root (db, v) (db, CCoinsViewCache_empty # v)"
| flush: "Flush er db (c # cs) = Inr (db', w) \<Longrightarrow> view_step T er root (db, c # cs) (db', w)"
| drop_cache: "view_step T er root (db, c # cs) (db, cs)"

lemma modify_coins_inv:
  assumes inv: "view_inv T er db v" and m: "modify_coins db k f v = Inr (x, w)" and f: "keeps_nulls f"
  shows "view_inv T er db w"
proof (cases v)
  case (Cons c cs)
  obtain e u where e: "ModifyCoins db k (c # cs) =
      Inr (entry_coins e, c\<lparr>cacheCoins := AList.update k (e\<lparr>entry_dirty := True\<rparr>) (cacheCoins c), hasModifier := True\<rparr> # u)"
    "sees (utxo (view_state er db (c # cs))) k (entry_coins e)" and u: "view_inv T er db u" "cache_inv T er db c u"
    "entry_fresh e \<Longrightarrow> live (coins_at db u k) = None" "\<not> entry_fresh e \<Longrightarrow> in_top u k"
    using ModifyCoins_entry [of T er db c cs k] inv Cons by blast
  have "nulls_ok (coins_vout (entry_coins e))"
    using e(2) view_inv_wf [OF inv, of k] Cons by (auto simp: sees_def view_state_def coins_wf_def nulls_ok_def live_def split: option.splits if_splits)
  moreover obtain co where co: "f (entry_coins e) = Inr (x, co)"
    "CCoinsModifier_end k co (c\<lparr>cacheCoins := AList.update k (e\<lparr>entry_dirty := True\<rparr>) (cacheCoins c), hasModifier := True\<rparr> # u) = Inr w"
    using m e(1) Cons by (auto simp: modify_coins_def)
  ultimately have "nulls_ok (coins_vout co)" using f unfolding keeps_nulls_def by blast
  from modifier_end [where e = e, OF u(2,1) refl u(3,4) this] co(2) show ?thesis by (auto simp del: CCoinsModifier_end.simps)
qed (use m in \<open>simp add: modify_coins_def\<close>)

lemma PopAnchor_inv:
  assumes inv: "view_inv T er db (c # cs)" and p: "PopAnchor er db rt ty (c # cs) = Inr w" and rt: "\<not> hash_null rt"
    and best: "best_anchor (view_state er db (c # cs)) ty \<noteq> er ty"
  shows "view_inv T er db w"
proof (cases "best_anchor (view_state er db (c # cs)) ty = rt \<or> anchors (view_state er db (c # cs)) ty (best_anchor (view_state er db (c # cs)) ty) \<noteq> None")
  case True
  then show ?thesis using PopAnchor_refines [OF inv refl, of ty rt] best rt p by auto
next
  case False
  obtain c' cs' where w: "GetBestAnchor er db ty (c # cs) = (best_anchor (view_state er db (c # cs)) ty, c' # cs')" "view_inv T er db (c' # cs')"
    "view_state er db (c' # cs') = view_state er db (c # cs)"
    using GetBestAnchor_top [OF inv] by blast
  then obtain c2 cs2 where "GetAnchorAt er db ty (best_anchor (view_state er db (c # cs)) ty) (c' # cs') = (None, c2 # cs2)"
    using GetAnchorAt_top [OF w(2), of ty "best_anchor (view_state er db (c # cs)) ty"] False unfolding w(3) by (metis (no_types))
  then show ?thesis using p w(1) False by (simp add: PopAnchor_def Let_def del: GetAnchorAt.simps GetBestAnchor.simps)
qed

lemma empty_cache_inv [simp]: "cache_inv T er db CCoinsViewCache_empty cs"
  by (simp add: cache_inv_def tables_distinct_def CCoinsViewCache_empty_def)

lemma view_step_inv:
  assumes "view_step T er root (db, v) (db', w)" "view_inv T er db v"
  shows "view_inv T er db' w"
  using assms(1)
proof (cases rule: view_step.cases)
  case (read_coins k r) then show ?thesis using FetchCoins_read [OF assms(2), of k] by auto
next
  case (read_anchor ty rt r) then show ?thesis using GetAnchorAt_read [OF assms(2), of ty rt] by auto
next
  case (read_nullifier ty nf b) then show ?thesis using GetNullifier_read [OF assms(2), of ty nf] by auto
next
  case (read_best_block h) then show ?thesis using GetBestBlock_read [OF assms(2)] by auto
next
  case (read_best_anchor ty h) then show ?thesis using GetBestAnchor_read [OF assms(2), of ty] by auto
next
  case (modify k f x) then show ?thesis using modify_coins_inv [OF assms(2), of k f x w] by simp
next
  case (modify_new k g c cs) then show ?thesis using modify_new_coins_refines [of T er db c cs k g] assms(2) by auto
next
  case (nullifier c cs b ty nf) then show ?thesis using set_nullifier_refines [of T er db c cs b ty nf] assms(2) by auto
next
  case (best h c cs) then show ?thesis using SetBestBlock_refines [of T er db c cs h] assms(2) by auto
next
  case (push ty t c cs) then show ?thesis using PushAnchor_refines [of T er db c cs ty root t] assms(2) by auto
next
  case (pop rt ty c cs) then show ?thesis using PopAnchor_inv [of T er db c cs rt ty w] assms(2) by blast
next
  case (flush c cs) then show ?thesis using Flush_refines [of T er db c cs] assms(2) by auto
qed (use assms(2) in auto)

lemma view_run_inv:
  assumes "(view_step T er root)\<^sup>*\<^sup>* (db, v) (db', w)" "view_inv T er db v"
  shows "view_inv T er db' w"
  using assms by (induction rule: rtranclp_induct2) (auto dest: view_step_inv)

abbreviation (input) demo_db :: CCoinsViewDB where
  "demo_db \<equiv> \<lparr>db_coins = Map.empty, db_anchors = (\<lambda>_. Map.empty), db_nullifiers = (\<lambda>_. {}), db_best_block = None, db_best_anchor = (\<lambda>_. None)\<rparr>"

abbreviation (input) demo_coins :: CCoins where
  "demo_coins \<equiv> \<lparr>fCoinBase = False, coins_vout = [\<lparr>nValue = 5, scriptPubKey = [0x51]\<rparr>], coins_nHeight = 1, coins_nVersion = 1\<rparr>"

abbreviation (input) demo_top :: CCoinsViewCache where
  "demo_top \<equiv> CCoinsViewCache_empty\<lparr>cacheCoins := [([7], \<lparr>entry_coins = demo_coins, entry_dirty = True, entry_fresh = True\<rparr>)]\<rparr>"

lemma demo_run:
  "(view_step (\<lambda>_ _. IncrementalMerkleTree_empty) (\<lambda>_. [1]) (\<lambda>_. [1]))\<^sup>*\<^sup>* (demo_db, []) (demo_db, [demo_top, CCoinsViewCache_empty])"
proof -
  let ?step = "view_step (\<lambda>_ _. IncrementalMerkleTree_empty) (\<lambda>_. [1]) (\<lambda>_. [1])" and ?e = CCoinsViewCache_empty
  have "modify_new_coins [7] (\<lambda>_. demo_coins) [?e, ?e] = Inr [demo_top, ?e]"
    by (simp add: modify_new_coins_def CCoinsViewCache_empty_def Cleanup_def cleanup_loop.simps txout_IsNull_def IsPruned_def Let_def)
  then have "?step (demo_db, [?e, ?e]) (demo_db, [demo_top, ?e])"
    by (rule view_step.modify_new) (simp_all add: view_state_def CCoinsViewCache_empty_def nulls_ok_def txout_IsNull_def)
  moreover have "?step\<^sup>*\<^sup>* (demo_db, []) (demo_db, [?e, ?e])"
    by (rule converse_rtranclp_into_rtranclp, rule view_step.new_cache, rule r_into_rtranclp, rule view_step.new_cache)
  ultimately show ?thesis by (rule rtranclp.rtrancl_into_rtrancl [rotated])
qed

lemma demo_db_inv: "db_inv (\<lambda>_ _. IncrementalMerkleTree_empty) (\<lambda>_. [1]) demo_db"
  by (simp add: db_inv_def)

text \<open>C4: In every state that a database and the caches above it reach, flushing the topmost cache meets no failing assertion, and the
  view and the view below it then both show the unspent outputs, anchors and nullifiers that the view showed before. Their best block and
  best anchors are those of the flushed cache, or, for a hash that this cache never read or set, those of the view under the cache it was
  flushed into; they are the ones the view showed before whenever every null hash of the flushed cache is null in that cache too.\<close>

theorem flush_preserves_state:
  assumes "(view_step T er root)\<^sup>*\<^sup>* (db\<^sub>0, []) (db, c # cs)" "db_inv T er db\<^sub>0"
  shows "\<exists>db' ps. Flush er db (c # cs) = Inr (db', clear_cache c # ps) \<and> view_state er db' (clear_cache c # ps) = view_state er db' ps \<and>
    view_state er db' ps = (view_state er db (c # cs))
      \<lparr>best_block := if hash_null (hashBlock c) then best_block (view_state er db (tl cs)) else hashBlock c,
       best_anchor := (\<lambda>ty. if hash_null (hashAnchor c ty) then best_anchor (view_state er db (tl cs)) ty else hashAnchor c ty)\<rparr> \<and>
    (hashes_known c cs \<longrightarrow> view_state er db' ps = view_state er db (c # cs))"
proof -
  have "view_inv T er db (c # cs)" using view_run_inv [OF assms(1)] assms(2) by simp
  from Flush_refines [OF this] obtain db' ps where "Flush er db (c # cs) = Inr (db', clear_cache c # ps)"
    "view_state er db' ps = flushed_state er db c cs" "view_state er db' (clear_cache c # ps) = flushed_state er db c cs"
    by blast
  then show ?thesis using flushed_state_known [of c cs er db] by (simp add: flushed_state_def view_state_def fun_eq_iff)
qed

theorem flush_preserves_state_witness:
  "\<exists>db' ps. Flush (\<lambda>_. [1]) demo_db [demo_top, CCoinsViewCache_empty] = Inr (db', clear_cache demo_top # ps) \<and>
    utxo (view_state (\<lambda>_. [1]) db' ps) = [[7] \<mapsto> demo_coins] \<and>
    view_state (\<lambda>_. [1]) db' ps = view_state (\<lambda>_. [1]) demo_db [demo_top, CCoinsViewCache_empty]"
proof -
  have "utxo (view_state (\<lambda>_. [1]) demo_db [demo_top, CCoinsViewCache_empty]) = [[7] \<mapsto> demo_coins]"
    by (auto simp: view_state_def CCoinsViewCache_empty_def IsPruned_def txout_IsNull_def fun_eq_iff)
  moreover have "hashes_known demo_top [CCoinsViewCache_empty]" by (simp add: hashes_known_def CCoinsViewCache_empty_def)
  moreover obtain db' ps where "Flush (\<lambda>_. [1]) demo_db [demo_top, CCoinsViewCache_empty] = Inr (db', clear_cache demo_top # ps)"
    "hashes_known demo_top [CCoinsViewCache_empty] \<longrightarrow> view_state (\<lambda>_. [1]) db' ps = view_state (\<lambda>_. [1]) demo_db [demo_top, CCoinsViewCache_empty]"
    using flush_preserves_state [OF demo_run demo_db_inv] by blast
  ultimately show ?thesis by (intro exI [of _ db'] exI [of _ ps]) simp
qed

text \<open>C23: In every state that a database and the caches above it reach, each reading operation returns what the abstract state holds and
  leaves that state, of the view and of the view below, as it is.\<close>

theorem reads_return_state:
  assumes "(view_step T er root)\<^sup>*\<^sup>* (db\<^sub>0, []) (db, v)" "db_inv T er db\<^sub>0" and s: "s = view_state er db v"
  shows "live (fst (GetCoins db k v)) = utxo s k \<and> (fst (HaveCoins db k v) \<longleftrightarrow> utxo s k \<noteq> None) \<and> fst (GetAnchorAt er db ty rt v) = anchors s ty rt \<and>
    (fst (GetNullifier db ty nf v) \<longleftrightarrow> nf \<in> spent_nullifiers s ty) \<and> fst (GetBestBlock db v) = best_block s \<and> fst (GetBestAnchor er db ty v) = best_anchor s ty \<and>
    (\<forall>w\<in>{snd (GetCoins db k v), snd (HaveCoins db k v), snd (GetAnchorAt er db ty rt v), snd (GetNullifier db ty nf v), snd (GetBestBlock db v),
      snd (GetBestAnchor er db ty v)}. view_state er db w = s \<and> view_state er db (tl w) = view_state er db (tl v))"
proof -
  have inv: "view_inv T er db v" using view_run_inv [OF assms(1)] assms(2) by simp
  obtain w\<^sub>1 w\<^sub>2 w\<^sub>3 w\<^sub>4 w\<^sub>5 where w: "FetchCoins db k v = (coins_at db v k, w\<^sub>1)" "same_view er db v w\<^sub>1"
    "GetAnchorAt er db ty rt v = (anchor_at er db v ty rt, w\<^sub>2)" "same_view er db v w\<^sub>2" "GetNullifier db ty nf v = (nullifier_at db v ty nf, w\<^sub>3)"
    "same_view er db v w\<^sub>3" "GetBestBlock db v = (best_at db v, w\<^sub>4)" "same_view er db v w\<^sub>4"
    "GetBestAnchor er db ty v = (best_anchor_at er db v ty, w\<^sub>5)" "same_view er db v w\<^sub>5"
    using FetchCoins_read [OF inv, of k] GetAnchorAt_read [OF inv, of ty rt] GetNullifier_read [OF inv, of ty nf] GetBestBlock_read [OF inv]
      GetBestAnchor_read [OF inv, of ty] by blast
  have "coins_at db v k = Some co \<Longrightarrow> IsPruned co \<longleftrightarrow> coins_vout co = []" for co using view_inv_wf [OF inv] coins_wf_pruned by blast
  then have nonempty: "(case coins_at db v k of None \<Rightarrow> False | Some co \<Rightarrow> coins_vout co \<noteq> []) \<longleftrightarrow> live (coins_at db v k) \<noteq> None"
    by (simp split: option.splits)
  note same = conjI [OF same_view_state same_view_state [OF same_view_tl]]
  show ?thesis using nonempty same [OF w(2) w(2)] same [OF w(4) w(4)] same [OF w(6) w(6)] same [OF w(8) w(8)] same [OF w(10) w(10)] w(1,3,5,7,9)
    by (simp add: GetCoins_def HaveCoins_def s view_state_def)
qed

theorem reads_return_state_witness: "fst (HaveCoins demo_db [7] [demo_top, CCoinsViewCache_empty])"
proof -
  have "utxo (view_state (\<lambda>_. [1]) demo_db [demo_top, CCoinsViewCache_empty]) [7] \<noteq> None"
    by (simp add: view_state_def CCoinsViewCache_empty_def IsPruned_def txout_IsNull_def)
  then show ?thesis using reads_return_state [OF demo_run demo_db_inv refl, of "[7]"] by blast
qed

end
