(* ===== verification/Spec2Isabelle.thy ===== *)
theory Spec2Isabelle
  imports BlockIndex TxContext CoinsView
begin

text \<open>
  A verification library for the Resistance node, a full node derived from Zcash. All paths below are relative to \<^verbatim>\<open>src/src\<close>.

  \<^bold>\<open>The program.\<close> The node receives blocks and transactions, checks them and keeps the state of the best chain. Headers are checked
  against the proof of work (\<^verbatim>\<open>pow.cpp\<close>, on the 256-bit integers of \<^verbatim>\<open>arith_uint256.cpp\<close>) and entered in the block index
  (\<^verbatim>\<open>chain.cpp\<close>, \<^verbatim>\<open>main.cpp\<close>), with the parameters and upgrade heights of the network (\<^verbatim>\<open>chainparams.cpp\<close>,
  \<^verbatim>\<open>consensus/\<close>). Transactions are read from their wire format (\<^verbatim>\<open>serialize.h\<close>, \<^verbatim>\<open>primitives/transaction.cpp\<close>), checked on their
  own and for a height (\<^verbatim>\<open>main.cpp\<close>), and their inputs are verified by the script machine (\<^verbatim>\<open>script/interpreter.cpp\<close>) with the hashes of
  \<^verbatim>\<open>crypto/\<close> and the keys of \<^verbatim>\<open>pubkey.cpp\<close>. The unspent outputs, the roots of the note commitment trees
  (\<^verbatim>\<open>zcash/IncrementalMerkleTree.hpp\<close>) and the spent nullifiers are kept in caches above a database (\<^verbatim>\<open>coins.cpp\<close>, \<^verbatim>\<open>txdb.cpp\<close>).

  \<^bold>\<open>Conventions.\<close> Classes are records, enumerations datatypes or numbered abbreviations, and functions keep their C++ names; a suffix or
  prefix tells apart overloads and names that HOL uses. Unsigned integers are words, or natural numbers with the modulus written out;
  \<open>int\<close> and \<open>int64_t\<close> are integers, with the conversions written out where a value may leave its range. A failing assertion, an
  exception or a bad access is an \<open>Inl\<close> of the type \<open>failure\<close>; a check that rejects is an \<open>Inl\<close> of its own type. Objects reached by
  pointers (block index entries) live in a map from addresses; everything else is passed and returned. Loops are recursive functions with
  a termination proof; only the walks of \<open>CChain\<close> and \<open>LastCommonAncestor\<close> along pointers, which may run forever on an arbitrary store, are
  partial functions whose value is \<open>None\<close> when they do not return, and the properties show that they return on a well-formed tree. No
  definition takes a bound on its steps. Code outside the sources is an argument of the definitions that call
  it: the operations of libsecp256k1 (\<open>secp256k1\<close>), BLAKE2b and Ed25519 of libsodium and the verifiers of librustzcash
  (\<open>shielded_lib\<close>, \<open>blake2b\<close>), the Pedersen hash of the trees, and the hash of a block header.

  \<^bold>\<open>Theories.\<close>

  \<^item> \<open>Prelude\<close>: machine types, failures, shared facts on lists and words. \<open>UintSpec\<close>: the locale \<open>wrapping_uint\<close>, the contract of a big
    unsigned integer, with the facts that the difficulty computation needs.
  \<^item> \<open>ArithUint256\<close> (\<^verbatim>\<open>arith_uint256.h\<close>, \<^verbatim>\<open>.cpp\<close>): the limb-level operations of \<open>base_uint\<close>, shown to be arithmetic modulo
    \<open>2 ^ 256\<close> by an interpretation of that locale; division, the compact encoding of targets and the conversion to blobs.
    \<open>HexBlob\<close> (\<^verbatim>\<open>uint256.cpp\<close>, \<^verbatim>\<open>utilstrencodings.cpp\<close>): hexadecimal text and back. \<open>Endian\<close> (\<^verbatim>\<open>crypto/common.h\<close>): byte orders.
  \<^item> \<open>Hasher\<close>, \<open>Sha2\<close>, \<open>Sha1\<close>, \<open>Ripemd160\<close>, \<open>Hash\<close> (\<^verbatim>\<open>crypto/\<close>, \<^verbatim>\<open>hash.h\<close>, \<^verbatim>\<open>hash.cpp\<close>): the buffered hashers and the hashes
    derived from them. The locales \<open>block_hash\<close>, \<open>stream_hash\<close> and \<open>hmac_hash\<close> carry the buffering and padding once for all hashers, and the
    properties state that each computes its standard, whose constants are given as roots of primes and not by the tables of the source.
  \<^item> \<open>Upgrades\<close>, \<open>ChainParams\<close> (\<^verbatim>\<open>consensus/\<close>, \<^verbatim>\<open>chainparams.cpp\<close>): activation of the upgrades, epochs and branch ids, and the parameters of
    the three networks. \<open>Subsidy\<close> (\<^verbatim>\<open>amount.h\<close>, \<^verbatim>\<open>amount.cpp\<close>, \<open>GetBlockSubsidy\<close>): money range, fees, the subsidy and its sum over all
    heights.
  \<^item> \<open>Chain\<close> (\<^verbatim>\<open>chain.h\<close>, \<^verbatim>\<open>chain.cpp\<close>): the tree of block index entries with its skip pointers, and the active chain. Ancestors,
    forks, common ancestors and locators are shown to be what walking back block by block gives. \<open>Pow\<close> (\<^verbatim>\<open>pow.cpp\<close>): the next target, the
    check of a hash, the work of a block and the time equivalent to a difference of work. \<open>BlockIndex\<close> (\<open>AddToBlockIndex\<close>): the index as an
    inductive predicate over the headers registered so far, with the invariant that all of the above relies on.
  \<^item> \<open>PubKey\<close> (\<^verbatim>\<open>pubkey.h\<close>, \<^verbatim>\<open>pubkey.cpp\<close>), \<open>Script\<close> (\<^verbatim>\<open>script/script.h\<close>, \<^verbatim>\<open>.cpp\<close>): keys; opcodes, script numbers, pushes,
    the instruction reader and signature operation counts. \<open>Interpreter\<close> (\<^verbatim>\<open>script/interpreter.cpp\<close>): every opcode of \<open>EvalScript\<close>, and
    \<open>VerifyScript\<close>. \<open>ScriptEval\<close> and \<open>ScriptRuns\<close> show that verification always returns, that the machine stays within its limits, and
    what strict encodings, multisignatures and pay-to-script-hash decide. \<open>Standard\<close> (\<^verbatim>\<open>script/standard.cpp\<close>): templates, destinations and
    what a payment to a key hash verifies.
  \<^item> \<open>Serialize\<close>, \<open>Transaction\<close> (\<^verbatim>\<open>serialize.h\<close>, \<^verbatim>\<open>streams.h\<close>, \<^verbatim>\<open>primitives/transaction.h\<close>, \<^verbatim>\<open>.cpp\<close>): the locale \<open>codec\<close> says that
    reading inverts writing and accepts nothing else; it is interpreted on every type on the way up to whole transactions.
  \<^item> \<open>TxCheck\<close> (\<open>CheckTransaction\<close>, \<open>IsFinalTx\<close>, \<open>IsStandardTx\<close> of \<^verbatim>\<open>main.cpp\<close>), \<open>SigHash\<close> (\<open>SignatureHash\<close> and the signature checker of
    \<^verbatim>\<open>script/interpreter.cpp\<close>), \<open>TxContext\<close> (\<open>ContextualCheckTransaction\<close>): the accepted transactions exactly, the blocks that can include
    one, what a signature commits to, and the rules under Sapling in terms of what the libraries accept.
  \<^item> \<open>MerkleTree\<close> (\<^verbatim>\<open>zcash/IncrementalMerkleTree.hpp\<close>, \<^verbatim>\<open>.cpp\<close>): the incremental tree has the root of the complete tree, and a witness
    follows the tree it was taken from. \<open>tree_path\<close> is modelled with the steps of the path as the code collects them.
  \<^item> \<open>Coins\<close>, \<open>CoinsView\<close> (\<^verbatim>\<open>coins.h\<close>, \<^verbatim>\<open>coins.cpp\<close>, \<^verbatim>\<open>txdb.cpp\<close>): a stack of caches above the database. The abstract state
    \<open>chain_state\<close> holds the unspent outputs, anchors, nullifiers and best hashes; \<open>view_state\<close> abstracts a stack to it, \<open>view_step\<close> lists
    what callers do, and the properties state that reads return the abstract state in every reachable stack and what a flush does to it.
    A flush hands down null best hashes too, as the code does: \<open>hashes_known\<close> is the condition under which they are preserved. The
    locale \<open>keyed_loop\<close> treats the loops over the entries of a cache once.

  \<^bold>\<open>Bounds.\<close> Heights are below \<open>2 ^ 31\<close>, as \<open>int\<close> demands. Counts of signature operations wrap at \<open>2 ^ 32\<close>, which takes a script of more
  than 214748364 bytes. Sizes in the wire format are limited by \<open>MAX_SIZE\<close> (\<open>0x2000000\<close>). The 61-bit message length of the hashers is that of
  the source, where the length is kept in 64 bits.

  \<^bold>\<open>Not modelled.\<close> Connecting and disconnecting blocks, the memory pool, the miner, the network, the wallet, the servers and start-up, where
  locks, disk and sockets are part of every operation; floating point (priorities, fee estimation); the compressed form of coins on disk, whose
  tables are maps here; signing and proving; the libraries named above. Allocation failure and concurrent access are outside the model.
\<close>

end
